(* ===== verification/Wy_Prelude.thy ===== *)
theory Wy_Prelude
  imports Complex_Main "HOL-Library.Word"
begin

text \<open>
  Shared vocabulary of the development: bytes and C strings, the library's error codes
  (\<^verbatim>\<open>include/libwyoming/wyoming.h\<close>), the collections of simplification rules the
  component theories fill, and the generic list and character lemmas their proofs share.

  A C \<^verbatim>\<open>char\<close> and a \<^verbatim>\<open>uint8_t\<close> are both one byte; the model uses HOL's
  \<^typ>\<open>char\<close>, which has 256 values, for both. A C string is the list of its bytes without
  the terminating NUL.
\<close>

named_theorems c_number \<comment> \<open>numbers: rounding, decimal text\<close>
named_theorems io_simps \<comment> \<open>sockets and buffers\<close>
named_theorems srv_simps \<comment> \<open>server registration\<close>

type_synonym byte = char

abbreviation code :: "char \<Rightarrow> nat" where
  "code c \<equiv> of_char c"

abbreviation NUL :: char where
  "NUL \<equiv> CHR 0x00"

abbreviation NL :: char where
  "NL \<equiv> CHR 0x0A"

subsection \<open>Error codes\<close>

datatype wyoming_error =
    WYOMING_OK
  | WYOMING_ERR_IO
  | WYOMING_ERR_PARSE
  | WYOMING_ERR_NOMEM
  | WYOMING_ERR_PROTO
  | WYOMING_ERR_EOF
  | WYOMING_ERR_TIMEOUT
  | WYOMING_ERR_PIPER
  | WYOMING_ERR_INVAL

text \<open>The numeric value of each code, as the enum gives it.\<close>

fun error_code :: "wyoming_error \<Rightarrow> int" where
  "error_code WYOMING_OK = 0"
| "error_code WYOMING_ERR_IO = -1"
| "error_code WYOMING_ERR_PARSE = -2"
| "error_code WYOMING_ERR_NOMEM = -3"
| "error_code WYOMING_ERR_PROTO = -4"
| "error_code WYOMING_ERR_EOF = -5"
| "error_code WYOMING_ERR_TIMEOUT = -6"
| "error_code WYOMING_ERR_PIPER = -7"
| "error_code WYOMING_ERR_INVAL = -8"

subsection \<open>C strings\<close>

text \<open>What a byte sequence reads as when it is used as a C string: up to the first NUL.\<close>

definition cstr :: "byte list \<Rightarrow> string" where
  "cstr s = takeWhile (\<lambda>c. c \<noteq> NUL) s"

definition c_string :: "string \<Rightarrow> bool" where
  "c_string s \<longleftrightarrow> NUL \<notin> set s"

lemma cstr_id [simp]: "c_string s \<Longrightarrow> cstr s = s"
  unfolding cstr_def c_string_def by (induction s) auto

lemma c_string_cstr [simp, intro]: "c_string (cstr s)"
  by (auto simp: cstr_def c_string_def dest: set_takeWhileD)

lemma c_string_Nil [simp]: "c_string []"
  by (simp add: c_string_def)

lemma c_string_Cons [simp]: "c_string (c # s) \<longleftrightarrow> c \<noteq> NUL \<and> c_string s"
  by (auto simp: c_string_def)

lemma c_string_append [simp]: "c_string (s @ t) \<longleftrightarrow> c_string s \<and> c_string t"
  by (auto simp: c_string_def)

lemma c_string_concat: "(\<And>s. s \<in> set ss \<Longrightarrow> c_string s) \<Longrightarrow> c_string (concat ss)"
  by (auto simp: c_string_def)

lemma length_cstr_le: "length (cstr s) \<le> length s"
  by (simp add: cstr_def length_takeWhile_le)

lemma cstr_append_NUL [simp]: "c_string s \<Longrightarrow> cstr (s @ NUL # t) = s"
  unfolding cstr_def c_string_def by (induction s) auto

subsection \<open>Lists\<close>

lemma takeWhile_append_stop:
  assumes "\<And>x. x \<in> set xs \<Longrightarrow> P x" and "ys = [] \<or> \<not> P (hd ys)"
  shows "takeWhile P (xs @ ys) = xs" and "dropWhile P (xs @ ys) = ys"
proof -
  have y: "takeWhile P ys = []" "dropWhile P ys = ys"
    using assms(2) by (cases ys; auto)+
  show "takeWhile P (xs @ ys) = xs" and "dropWhile P (xs @ ys) = ys"
    using assms(1) y by (simp_all add: takeWhile_append2 dropWhile_append2)
qed

lemma take_min_length: "take (min n (length xs)) xs = take n xs"
  by (simp add: min_def)

lemma length_dropWhile_shrinks: "xs \<noteq> [] \<Longrightarrow> P (hd xs) \<Longrightarrow> length (dropWhile P xs) < length xs"
  by (cases xs) (auto simp: less_Suc_eq_le length_dropWhile_le)

text \<open>Splitting a list into consecutive pieces of at most \<open>n\<close> elements.\<close>

function pieces :: "nat \<Rightarrow> 'a list \<Rightarrow> 'a list list" where
  "pieces n xs = (if xs = [] \<or> n = 0 then [] else take n xs # pieces n (drop n xs))"
  by pat_completeness auto
termination
  by (relation "measure (\<lambda>(n, xs). length xs)") auto

declare pieces.simps [simp del]

lemma pieces_Nil [simp]: "pieces n [] = []"
  by (simp add: pieces.simps)

lemma concat_pieces [simp]: "0 < n \<Longrightarrow> concat (pieces n xs) = xs"
proof (induction n xs rule: pieces.induct)
  case (1 n xs)
  then show ?case by (cases "xs = []") (simp_all add: pieces.simps [of n xs])
qed

lemma pieces_bounds: "p \<in> set (pieces n xs) \<Longrightarrow> p \<noteq> [] \<and> length p \<le> n"
proof (induction n xs rule: pieces.induct)
  case (1 n xs)
  show ?case
  proof (cases "xs = [] \<or> n = 0")
    case True
    with "1.prems" show ?thesis by (simp add: pieces.simps [of n xs])
  next
    case False
    with "1.prems" have "p = take n xs \<or> p \<in> set (pieces n (drop n xs))"
      by (simp add: pieces.simps [of n xs])
    with False "1.IH" show ?thesis by auto
  qed
qed

lemma length_pieces: "0 < n \<Longrightarrow> length (pieces n xs) = (length xs + n - 1) div n"
proof (induction n xs rule: pieces.induct)
  case (1 n xs)
  show ?case
  proof (cases "xs = []")
    case True
    with "1.prems" show ?thesis by simp
  next
    case False
    with "1.prems" have "length (pieces n xs) = Suc (length (pieces n (drop n xs)))"
      by (simp add: pieces.simps [of n xs])
    also have "\<dots> = Suc ((length xs - n + n - 1) div n)"
      using "1.IH" "1.prems" False by simp
    also have "\<dots> = (length xs + n - 1) div n"
    proof (cases "n \<le> length xs")
      case True
      then have "length xs + n - 1 = (length xs - n + n - 1) + n"
        using False by (cases xs) auto
      moreover have "((length xs - n + n - 1) + n) div n = Suc ((length xs - n + n - 1) div n)"
        using "1.prems" by (simp only: div_add_self2 [OF less_imp_neq [THEN not_sym]])
      ultimately show ?thesis by metis
    next
      case below: False
      then have "length xs - n = 0" by simp
      moreover have "(length xs + n - 1) div n = 1"
      proof (rule div_nat_eqI)
        show "n * 1 \<le> length xs + n - 1" using False by (cases xs) auto
        show "length xs + n - 1 < n * Suc 1" using below by simp
      qed
      ultimately show ?thesis using "1.prems" by simp
    qed
    finally show ?thesis .
  qed
qed

end
