(* ===== verification/C_Number.thy ===== *)
theory C_Number
  imports Wy_Prelude
begin

text \<open>
  The part of the C library's number handling that the vendored JSON code uses: \<^verbatim>\<open>double\<close>
  values with round-to-nearest-even conversion, \<^verbatim>\<open>strtod\<close> on the characters
  \<^verbatim>\<open>parse_number\<close> lets through, and \<^verbatim>\<open>sprintf\<close> with \<^verbatim>\<open>%d\<close>, \<^verbatim>\<open>%1.15g\<close>
  and \<^verbatim>\<open>%1.17g\<close>. A finite double is its exact rational value; the sign of zero is
  not represented, since no code of the library can tell the two zeros apart.
\<close>

datatype double = Fin rat | PInf | NInf | NaN

subsection \<open>Rounding to binary64\<close>

text \<open>Number of base-\<open>b\<close> digits of \<open>n\<close>.\<close>

function blen :: "int \<Rightarrow> int \<Rightarrow> nat" where
  "blen b n = (if n \<le> 0 \<or> b < 2 then 0 else Suc (blen b (n div b)))"
  by pat_completeness auto
termination
  by (relation "measure (\<lambda>(b, n). nat n)") (auto intro: int_div_less_self)

declare blen.simps [simp del]

text \<open>The exponent \<open>k\<close> with \<open>b\<^sup>k \<le> a < b\<^sup>k\<^sup>+\<^sup>1\<close>, for a positive rational \<open>a\<close>.\<close>

definition bexp :: "int \<Rightarrow> rat \<Rightarrow> int" where
  "bexp b a = (if 1 \<le> a then int (blen b \<lfloor>a\<rfloor>) - 1
               else - int (blen b (\<lceil>1 / a\<rceil> - 1)))"

definition pw :: "int \<Rightarrow> int \<Rightarrow> rat" where
  "pw b k = (if 0 \<le> k then of_int b ^ nat k else 1 / of_int b ^ nat (- k))"

text \<open>Round to the nearest integer, ties to even.\<close>

definition round_even :: "rat \<Rightarrow> int" where
  "round_even q =
     (let f = \<lfloor>q\<rfloor>; r = q - of_int f
      in if r < 1 / 2 then f
         else if 1 / 2 < r then f + 1
         else if even f then f else f + 1)"

text \<open>The double nearest to a rational: 53 bits of significand, least exponent -1074,
  overflow to infinity.\<close>

definition to_double :: "rat \<Rightarrow> double" where
  "to_double r =
     (if r = 0 then Fin 0
      else let a = \<bar>r\<bar>;
               e = max (bexp 2 a - 52) (- 1074);
               v = of_int (round_even (a / pw 2 e)) * pw 2 e
           in if 2 ^ 1024 \<le> v then (if 0 < r then PInf else NInf)
              else Fin (if 0 < r then v else - v))"

text \<open>Truncation towards zero, as a conversion from \<^verbatim>\<open>double\<close> to an integer type does.\<close>

definition rtrunc :: "rat \<Rightarrow> int" where
  "rtrunc r = (if 0 \<le> r then \<lfloor>r\<rfloor> else \<lceil>r\<rceil>)"

abbreviation INT_MAX :: int where "INT_MAX \<equiv> 2147483647"
abbreviation INT_MIN :: int where "INT_MIN \<equiv> - 2147483648"

text \<open>Comparisons of a double with an integer; every comparison with a NaN is false.\<close>

fun dbl_ge :: "double \<Rightarrow> int \<Rightarrow> bool" where
  "dbl_ge (Fin r) i = (of_int i \<le> r)"
| "dbl_ge PInf i = True"
| "dbl_ge NInf i = False"
| "dbl_ge NaN i = False"

fun dbl_le :: "double \<Rightarrow> int \<Rightarrow> bool" where
  "dbl_le (Fin r) i = (r \<le> of_int i)"
| "dbl_le PInf i = False"
| "dbl_le NInf i = True"
| "dbl_le NaN i = False"

fun dbl_pos :: "double \<Rightarrow> bool" where
  "dbl_pos (Fin r) = (0 < r)"
| "dbl_pos PInf = True"
| "dbl_pos NInf = False"
| "dbl_pos NaN = False"

text \<open>Less-or-equal on two non-NaN doubles.\<close>

fun dbl_leq :: "double \<Rightarrow> double \<Rightarrow> bool" where
  "dbl_leq (Fin x) (Fin y) = (x \<le> y)"
| "dbl_leq NaN _ = False"
| "dbl_leq _ NaN = False"
| "dbl_leq NInf _ = True"
| "dbl_leq _ PInf = True"
| "dbl_leq _ _ = False"

text \<open>
  \<^verbatim>\<open>compare_double\<close> of cJSON: the difference is at most \<^verbatim>\<open>DBL_EPSILON\<close> times the larger
  magnitude, all in double arithmetic. With an infinite operand both sides of the
  comparison are infinite (or the difference of two equal infinities a NaN).
\<close>

fun compare_double :: "double \<Rightarrow> double \<Rightarrow> bool" where
  "compare_double (Fin a) (Fin b) =
     dbl_leq (to_double \<bar>a - b\<bar>) (to_double (max \<bar>a\<bar> \<bar>b\<bar> / 2 ^ 52))"
| "compare_double NaN _ = False"
| "compare_double _ NaN = False"
| "compare_double PInf PInf = False"
| "compare_double NInf NInf = False"
| "compare_double _ _ = True"

subsection \<open>Decimal text\<close>

definition isdigit :: "char \<Rightarrow> bool" where
  "isdigit c \<longleftrightarrow> 48 \<le> code c \<and> code c \<le> 57"

definition digit :: "int \<Rightarrow> char" where
  "digit d = char_of (48 + nat d)"

function dec :: "int \<Rightarrow> string" where
  "dec n = (if n < 10 then [digit n] else dec (n div 10) @ [digit (n mod 10)])"
  by pat_completeness auto
termination
  by (relation "measure nat") auto

declare dec.simps [simp del]

text \<open>\<^verbatim>\<open>sprintf("%d", i)\<close>.\<close>

definition dec_int :: "int \<Rightarrow> string" where
  "dec_int i = (if i < 0 then CHR ''-'' # dec (- i) else dec i)"

definition digits_val :: "string \<Rightarrow> int" where
  "digits_val s = foldl (\<lambda>a c. 10 * a + (int (code c) - 48)) 0 s"

text \<open>An optional sign.\<close>

fun take_sign :: "string \<Rightarrow> bool \<times> string" where
  "take_sign [] = (False, [])"
| "take_sign (c # t) =
     (if c = CHR ''-'' then (True, t) else if c = CHR ''+'' then (False, t) else (False, c # t))"

text \<open>An optional exponent part: its value and what follows it. Without a digit after the
  \<^verbatim>\<open>e\<close> nothing is consumed.\<close>

definition take_exponent :: "string \<Rightarrow> int \<times> string" where
  "take_exponent s =
     (case s of
        [] \<Rightarrow> (0, [])
      | c # t \<Rightarrow>
          (if c = CHR ''e'' \<or> c = CHR ''E''
           then (case take_sign t of (neg, u) \<Rightarrow>
                   let ds = takeWhile isdigit u
                   in if ds = [] then (0, s)
                      else (if neg then - digits_val ds else digits_val ds,
                            dropWhile isdigit u))
           else (0, s)))"

text \<open>
  \<^verbatim>\<open>strtod\<close> on decimal text: the value and the number of characters consumed, 0 when
  there is no number. (\<^verbatim>\<open>parse_number\<close> passes digits, signs, \<^verbatim>\<open>e\<close>, \<^verbatim>\<open>E\<close> and
  \<^verbatim>\<open>.\<close> only, so the hexadecimal, infinity and NaN forms cannot occur.)
\<close>

definition strtod :: "string \<Rightarrow> double \<times> nat" where
  "strtod s =
     (case take_sign s of (neg, s1) \<Rightarrow>
        let ip = takeWhile isdigit s1;
            s2 = dropWhile isdigit s1;
            (fp, s3) = (case s2 of
                          [] \<Rightarrow> ([], [])
                        | c # t \<Rightarrow> if c = CHR ''.'' then (takeWhile isdigit t, dropWhile isdigit t)
                                   else ([], s2))
        in if ip = [] \<and> fp = [] then (Fin 0, 0)
           else (case take_exponent s3 of (ex, s4) \<Rightarrow>
                   let m = of_int (digits_val (ip @ fp)) * pw 10 (ex - int (length fp))
                   in (to_double (if neg then - m else m), length s - length s4)))"

text \<open>Trailing zeros are dropped by \<^verbatim>\<open>%g\<close>.\<close>

definition strip_zeros :: "string \<Rightarrow> string" where
  "strip_zeros s = rev (dropWhile (\<lambda>c. c = CHR ''0'') (rev s))"

definition with_frac :: "string \<Rightarrow> string \<Rightarrow> string" where
  "with_frac i f = (if f = [] then i else i @ CHR ''.'' # f)"

text \<open>\<^verbatim>\<open>sprintf("%1.Pg", r)\<close> for a non-zero finite double \<open>r\<close>.\<close>

definition fmt_g :: "nat \<Rightarrow> rat \<Rightarrow> string" where
  "fmt_g P r =
     (let a = \<bar>r\<bar>;
          x0 = bexp 10 a;
          d0 = round_even (a / pw 10 (x0 - int P + 1));
          (d, x) = (if d0 = 10 ^ P then (10 ^ (P - 1), x0 + 1) else (d0, x0));
          ds = dec d;
          body = (if - 4 \<le> x \<and> x < int P
                  then (if 0 \<le> x
                        then with_frac (take (nat x + 1) ds) (strip_zeros (drop (nat x + 1) ds))
                        else with_frac ''0''
                               (strip_zeros (replicate (nat (- x) - 1) (CHR ''0'') @ ds)))
                  else with_frac (take 1 ds) (strip_zeros (drop 1 ds)) @
                       (if x < 0 then ''e-'' else ''e+'') @
                       (if \<bar>x\<bar> < 10 then ''0'' else []) @ dec \<bar>x\<bar>)
      in if r < 0 then CHR ''-'' # body else body)"

subsection \<open>Facts\<close>

lemma round_even_of_int [simp]: "round_even (of_int i) = i"
  by (simp add: round_even_def)

lemma rtrunc_of_int [simp]: "rtrunc (of_int i) = i"
  by (simp add: rtrunc_def)

lemma pw_nonneg: "0 \<le> k \<Longrightarrow> pw b k = of_int b ^ nat k"
  by (simp add: pw_def)

lemma pw_neg: "k < 0 \<Longrightarrow> pw b k = 1 / of_int b ^ nat (- k)"
  by (simp add: pw_def)

lemma pw_0 [simp]: "pw b 0 = 1"
  by (simp add: pw_def)

lemma blen_le: "2 \<le> b \<Longrightarrow> n < b ^ k \<Longrightarrow> blen b n \<le> k"
proof (induction b n arbitrary: k rule: blen.induct)
  case (1 b n)
  show ?case
  proof (cases "n \<le> 0")
    case True
    then show ?thesis by (simp add: blen.simps)
  next
    case False
    with "1.prems" obtain k' where k: "k = Suc k'"
      by (cases k) auto
    have "n div b < b ^ k'"
    proof (rule ccontr)
      assume "\<not> n div b < b ^ k'"
      then have "b * b ^ k' \<le> b * (n div b)"
        using "1.prems" by (intro mult_left_mono) auto
      also have "\<dots> \<le> n"
        using "1.prems" mult_div_mod_eq [of b n] pos_mod_sign [of b n] by linarith
      finally show False using "1.prems" k by simp
    qed
    with "1.IH" "1.prems" False have "blen b (n div b) \<le> k'" by auto
    with False "1.prems" k show ?thesis by (simp add: blen.simps [of b n])
  qed
qed

text \<open>Integers below \<open>2\<^sup>5\<^sup>3\<close> are doubles: rounding keeps them.\<close>

lemma to_double_of_int [c_number]:
  assumes "\<bar>i\<bar> < 2 ^ 53"
  shows "to_double (of_int i) = Fin (of_int i)"
proof (cases "i = 0")
  case True
  then show ?thesis by (simp add: to_double_def)
next
  case False
  define a where "a = \<bar>i\<bar>"
  have a1: "1 \<le> a" and a53: "a < 2 ^ 53"
    using False assms by (auto simp: a_def)
  define k where "k = blen 2 a"
  have k53: "k \<le> 53" unfolding k_def using a53 by (intro blen_le) auto
  have bx: "bexp 2 (of_int a) = int k - 1"
    using a1 by (simp add: bexp_def k_def)
  define e where "e = max (bexp 2 (of_int a :: rat) - 52) (- 1074)"
  have e: "e = int k - 53"
    using bx by (simp add: e_def)
  have "(of_int a :: rat) / pw 2 e = of_int (a * 2 ^ (53 - k))"
  proof (cases "k = 53")
    case True
    then show ?thesis by (simp add: e)
  next
    case False
    with k53 e have "e < 0" and "nat (- e) = 53 - k" by auto
    then show ?thesis by (simp add: pw_neg)
  qed
  then have "round_even (of_int a / pw 2 e) = a * 2 ^ (53 - k)"
    by (simp only: round_even_of_int)
  moreover have "(of_int (a * 2 ^ (53 - k)) :: rat) * pw 2 e = of_int a"
  proof (cases "k = 53")
    case True
    then show ?thesis by (simp add: e)
  next
    case False
    with k53 e have "e < 0" and "nat (- e) = 53 - k" by auto
    then show ?thesis by (simp add: pw_neg)
  qed
  ultimately have v: "of_int (round_even (of_int a / pw 2 e)) * pw 2 e = (of_int a :: rat)"
    by simp
  have "(of_int a :: rat) < 2 ^ 53"
    using a53 by (metis of_int_less_iff of_int_numeral of_int_power)
  also have "(2::rat) ^ 53 \<le> 2 ^ 1024" by (rule power_increasing) auto
  finally have small: "\<not> 2 ^ 1024 \<le> (of_int a :: rat)" by simp
  have abs: "\<bar>of_int i\<bar> = (of_int a :: rat)" by (simp add: a_def)
  have "to_double (of_int i) = Fin (if 0 < i then of_int a else - of_int a)"
    using False small v by (simp add: to_double_def Let_def abs flip: e_def)
  then show ?thesis using False by (auto simp: a_def)
qed

lemma code_digit [simp]: "d < 10 \<Longrightarrow> code (digit d) = 48 + nat d"
  by (simp add: digit_def)

lemma isdigit_digit [simp]: "d < 10 \<Longrightarrow> isdigit (digit d)"
  by (simp add: isdigit_def)

lemma dec_digits: "c \<in> set (dec n) \<Longrightarrow> isdigit c"
proof (induction n rule: dec.induct)
  case (1 n)
  then show ?case by (subst (asm) (2) dec.simps) (auto split: if_splits)
qed

lemma dec_nonempty [simp]: "dec n \<noteq> []"
  by (subst dec.simps) simp

lemma digits_val_snoc: "digits_val (s @ [c]) = 10 * digits_val s + (int (code c) - 48)"
  by (simp add: digits_val_def)

lemma digits_val_dec [simp]: "0 \<le> n \<Longrightarrow> digits_val (dec n) = n"
proof (induction n rule: dec.induct)
  case (1 n)
  show ?case
  proof (cases "n < 10")
    case True
    with "1.prems" show ?thesis by (subst dec.simps) (simp add: digits_val_def)
  next
    case False
    with "1.IH" have "digits_val (dec (n div 10)) = n div 10" by simp
    with False show ?thesis
      by (subst dec.simps) (simp add: digits_val_snoc)
  qed
qed

lemma length_dec_le: "n < 10 ^ k \<Longrightarrow> 0 < k \<Longrightarrow> length (dec n) \<le> k"
proof (induction n arbitrary: k rule: dec.induct)
  case (1 n)
  show ?case
  proof (cases "n < 10")
    case True
    with "1.prems" show ?thesis by (subst dec.simps) simp
  next
    case False
    with "1.prems" obtain k' where k: "k = Suc k'" by (cases k) auto
    with False "1.prems" have "0 < k'" by (cases k') auto
    moreover from k "1.prems" have "n div 10 < 10 ^ k'"
      by simp
    ultimately have "length (dec (n div 10)) \<le> k'"
      using "1.IH" False by blast
    with False k show ?thesis by (subst dec.simps) simp
  qed
qed

lemma isdigit_not_sign: "isdigit c \<Longrightarrow> c \<noteq> CHR ''-'' \<and> c \<noteq> CHR ''+''"
  by (auto simp: isdigit_def)

text \<open>Reading back what \<^verbatim>\<open>%d\<close> printed gives the integer, and consumes all of it.\<close>

lemma strtod_dec_int [c_number]:
  assumes "\<bar>i\<bar> < 2 ^ 53"
  shows "strtod (dec_int i) = (Fin (of_int i), length (dec_int i))"
proof -
  have stop: "takeWhile isdigit (dec n) = dec n" "dropWhile isdigit (dec n) = []" for n
    by (simp_all add: dec_digits)
  have sign: "take_sign (dec n) = (False, dec n)" for n
  proof (cases "dec n")
    case Nil
    then show ?thesis by simp
  next
    case (Cons c t)
    then have "isdigit c" using dec_digits [of c n] by simp
    with Cons show ?thesis using isdigit_not_sign [of c] by simp
  qed
  have ts: "take_sign (dec_int i) = (i < 0, dec \<bar>i\<bar>)"
    by (simp add: dec_int_def sign)
  have m: "(if i < 0 then - (of_int \<bar>i\<bar>) else of_int \<bar>i\<bar>) = (of_int i :: rat)"
    by simp
  show ?thesis
    using to_double_of_int [OF assms] m
    by (simp add: strtod_def ts stop take_exponent_def del: of_int_abs)
qed

lemma dec_int_nonempty [simp]: "dec_int i \<noteq> []"
  by (simp add: dec_int_def)

lemma length_dec_int: "INT_MIN \<le> i \<Longrightarrow> i \<le> INT_MAX \<Longrightarrow> length (dec_int i) \<le> 11"
proof -
  assume "INT_MIN \<le> i" and "i \<le> INT_MAX"
  then have "\<bar>i\<bar> < 10 ^ 10" by simp
  then have "length (dec \<bar>i\<bar>) \<le> 10" by (rule length_dec_le) simp
  then show ?thesis by (auto simp: dec_int_def)
qed

lemma dec_int_chars: "c \<in> set (dec_int i) \<Longrightarrow> c = CHR ''-'' \<or> isdigit c"
  using dec_digits by (auto simp: dec_int_def split: if_splits)

subsection \<open>Printed numbers are C strings\<close>

lemma isdigit_not_NUL [simp]: "isdigit c \<Longrightarrow> c \<noteq> NUL"
  by (auto simp: isdigit_def)

lemma c_string_dec [simp]: "c_string (dec n)"
  using dec_digits [of NUL n] by (auto simp: c_string_def isdigit_def)

lemma c_string_dec_int [simp]: "c_string (dec_int i)"
  by (simp add: dec_int_def)

lemma c_string_sub: "set t \<subseteq> set s \<Longrightarrow> c_string s \<Longrightarrow> c_string t"
  by (auto simp: c_string_def)

lemma c_string_take [simp]: "c_string s \<Longrightarrow> c_string (take n s)"
  by (rule c_string_sub) (simp_all add: set_take_subset)

lemma c_string_drop [simp]: "c_string s \<Longrightarrow> c_string (drop n s)"
  by (rule c_string_sub) (simp_all add: set_drop_subset)

lemma c_string_strip_zeros [simp]: "c_string s \<Longrightarrow> c_string (strip_zeros s)"
  by (rule c_string_sub [of _ s]) (auto simp: strip_zeros_def dest: set_dropWhileD)

lemma c_string_with_frac [simp]: "c_string i \<Longrightarrow> c_string f \<Longrightarrow> c_string (with_frac i f)"
  by (simp add: with_frac_def)

lemma c_string_zeros [simp]: "c_string (replicate n (CHR ''0''))"
  by (simp add: c_string_def)

lemma c_string_fmt_g [simp]: "c_string (fmt_g P r)"
  by (simp add: fmt_g_def Let_def split: prod.split)

end
