(* ===== verification/Cjson_Tree.thy ===== *)
theory Cjson_Tree
  imports C_Number "HOL-Library.Monad_Syntax"
begin

text \<open>
  The JSON tree of the vendored cJSON (\<^verbatim>\<open>src/cJSON/cJSON.c\<close>) and the operations on it
  that the library calls. A \<^verbatim>\<open>cJSON *\<close> that may be NULL is an option. The linked list
  of children is a list; in an object every child carries its name. The numeric field
  \<^verbatim>\<open>valueint\<close> is a function of \<^verbatim>\<open>valuedouble\<close>, as every constructor of the library
  computes it, so it is not stored.

  The platform record holds what the C program gets from outside: which allocations
  succeed, what the (undefined) conversion of an out-of-range double to an integer type
  yields, and the version string the build compiles in.
\<close>

record platform =
  malloc_ok :: "nat \<Rightarrow> bool"
  size_cast :: "double \<Rightarrow> nat"
  int_cast :: "double \<Rightarrow> int"
  lib_version :: string

text \<open>All allocations of at most \<open>n\<close> bytes succeed.\<close>

definition mem_ok :: "platform \<Rightarrow> nat \<Rightarrow> bool" where
  "mem_ok P n \<longleftrightarrow> (\<forall>k\<le>n. malloc_ok P k)"

lemma mem_okD [simp]: "mem_ok P n \<Longrightarrow> k \<le> n \<Longrightarrow> malloc_ok P k"
  by (simp add: mem_ok_def)

lemma mem_ok_mono: "mem_ok P n \<Longrightarrow> k \<le> n \<Longrightarrow> mem_ok P k"
  by (simp add: mem_ok_def)

definition strdup :: "platform \<Rightarrow> string \<Rightarrow> string option" where
  "strdup P s = (if malloc_ok P (length s + 1) then Some s else None)"

lemma strdup_ok [simp]: "malloc_ok P (length s + 1) \<Longrightarrow> strdup P s = Some s"
  by (simp add: strdup_def)

lemma strdup_Some: "strdup P s = Some t \<Longrightarrow> t = s"
  by (simp add: strdup_def split: if_splits)

subsection \<open>Conversions of doubles\<close>

text \<open>\<^verbatim>\<open>(size_t) d\<close> and \<^verbatim>\<open>(int) d\<close>: undefined in C when the truncated value does
  not fit, then the platform decides.\<close>

definition to_size_t :: "platform \<Rightarrow> double \<Rightarrow> nat" where
  "to_size_t P d =
     (case d of
        Fin r \<Rightarrow> if 0 \<le> rtrunc r \<and> rtrunc r < 2 ^ 64 then nat (rtrunc r) else size_cast P d
      | _ \<Rightarrow> size_cast P d)"

definition to_int :: "platform \<Rightarrow> double \<Rightarrow> int" where
  "to_int P d =
     (case d of
        Fin r \<Rightarrow> if INT_MIN \<le> rtrunc r \<and> rtrunc r \<le> INT_MAX then rtrunc r else int_cast P d
      | _ \<Rightarrow> int_cast P d)"

lemma to_int_of_int [simp]:
  "INT_MIN \<le> i \<Longrightarrow> i \<le> INT_MAX \<Longrightarrow> to_int P (Fin (of_int i)) = i"
  by (simp add: to_int_def)

lemma to_size_t_of_nat [simp]: "n < 2 ^ 64 \<Longrightarrow> to_size_t P (Fin (of_nat n)) = n"
  using rtrunc_of_int [of "int n"] by (simp add: to_size_t_def)

subsection \<open>The tree\<close>

datatype cJSON =
    cJSON_False
  | cJSON_True
  | cJSON_NULL
  | cJSON_Number double
  | cJSON_String string
  | cJSON_Array "cJSON list"
  | cJSON_Object "(string \<times> cJSON) list"
  | cJSON_Raw string

text \<open>
  \<^verbatim>\<open>valueint\<close> of a number node, with saturation. For a NaN the C conversion is undefined,
  but \<^verbatim>\<open>print_number\<close>, its only reader, looks at it for other values only.
\<close>

definition valueint :: "double \<Rightarrow> int" where
  "valueint d =
     (if dbl_ge d INT_MAX then INT_MAX
      else if dbl_le d INT_MIN then INT_MIN
      else case d of Fin r \<Rightarrow> rtrunc r | _ \<Rightarrow> 0)"

lemma valueint_of_int [simp]:
  "INT_MIN \<le> i \<Longrightarrow> i \<le> INT_MAX \<Longrightarrow> valueint (Fin (of_int i)) = i"
proof -
  assume i: "INT_MIN \<le> i" "i \<le> INT_MAX"
  have "(2147483647 \<le> (of_int i :: rat)) = (INT_MAX \<le> i)"
    by (metis of_int_le_iff of_int_numeral)
  moreover have "((of_int i :: rat) \<le> - 2147483648) = (i \<le> INT_MIN)"
    by (metis of_int_le_iff of_int_minus of_int_numeral)
  ultimately show ?thesis using i by (auto simp: valueint_def)
qed

text \<open>\<^verbatim>\<open>sizeof(cJSON)\<close> on a 64-bit platform.\<close>

abbreviation sizeof_cJSON :: nat where
  "sizeof_cJSON \<equiv> 64"

subsection \<open>Constructors\<close>

definition cJSON_New_Item :: "platform \<Rightarrow> cJSON \<Rightarrow> cJSON option" where
  "cJSON_New_Item P v = (if malloc_ok P sizeof_cJSON then Some v else None)"

definition cJSON_CreateObject :: "platform \<Rightarrow> cJSON option" where
  "cJSON_CreateObject P = cJSON_New_Item P (cJSON_Object [])"

definition cJSON_CreateArray :: "platform \<Rightarrow> cJSON option" where
  "cJSON_CreateArray P = cJSON_New_Item P (cJSON_Array [])"

definition cJSON_CreateBool :: "platform \<Rightarrow> bool \<Rightarrow> cJSON option" where
  "cJSON_CreateBool P b = cJSON_New_Item P (if b then cJSON_True else cJSON_False)"

definition cJSON_CreateNumber :: "platform \<Rightarrow> double \<Rightarrow> cJSON option" where
  "cJSON_CreateNumber P d = cJSON_New_Item P (cJSON_Number d)"

definition cJSON_CreateString :: "platform \<Rightarrow> string \<Rightarrow> cJSON option" where
  "cJSON_CreateString P s =
     (if malloc_ok P sizeof_cJSON
      then (case strdup P s of None \<Rightarrow> None | Some t \<Rightarrow> Some (cJSON_String t))
      else None)"

subsection \<open>Adding children\<close>

text \<open>
  \<^verbatim>\<open>add_item_to_object\<close> with a copied key: whether it succeeded, and the object
  afterwards. The library adds to objects only; any other node is left as it is.
\<close>

definition add_item_to_object ::
  "platform \<Rightarrow> cJSON option \<Rightarrow> string \<Rightarrow> cJSON option \<Rightarrow> bool \<times> cJSON option" where
  "add_item_to_object P obj name item =
     (case obj of
        Some (cJSON_Object kvs) \<Rightarrow>
          (case item of
             None \<Rightarrow> (False, obj)
           | Some v \<Rightarrow>
               (case strdup P name of
                  None \<Rightarrow> (False, obj)
                | Some key \<Rightarrow> (True, Some (cJSON_Object (kvs @ [(key, v)])))))
      | _ \<Rightarrow> (False, obj))"

definition cJSON_AddItemToObject ::
  "platform \<Rightarrow> cJSON option \<Rightarrow> string \<Rightarrow> cJSON option \<Rightarrow> cJSON option" where
  "cJSON_AddItemToObject P obj name item = snd (add_item_to_object P obj name item)"

text \<open>The \<^verbatim>\<open>Add...ToObject\<close> helpers delete the new item when it cannot be added; the
  object is then unchanged.\<close>

definition cJSON_AddStringToObject ::
  "platform \<Rightarrow> cJSON option \<Rightarrow> string \<Rightarrow> string \<Rightarrow> cJSON option" where
  "cJSON_AddStringToObject P obj name s =
     snd (add_item_to_object P obj name (cJSON_CreateString P s))"

definition cJSON_AddNumberToObject ::
  "platform \<Rightarrow> cJSON option \<Rightarrow> string \<Rightarrow> double \<Rightarrow> cJSON option" where
  "cJSON_AddNumberToObject P obj name d =
     snd (add_item_to_object P obj name (cJSON_CreateNumber P d))"

definition cJSON_AddBoolToObject ::
  "platform \<Rightarrow> cJSON option \<Rightarrow> string \<Rightarrow> bool \<Rightarrow> cJSON option" where
  "cJSON_AddBoolToObject P obj name b =
     snd (add_item_to_object P obj name (cJSON_CreateBool P b))"

text \<open>
  \<^verbatim>\<open>cJSON_AddArrayToObject\<close> hands out a pointer to the new array, to which the caller
  then appends with \<^verbatim>\<open>cJSON_AddItemToArray\<close>; the model takes the appended items as its
  last argument. An item that could not be created (NULL) is not appended, and when the
  array itself could not be added the items go nowhere.
\<close>

definition cJSON_AddItemToArray :: "cJSON list \<Rightarrow> cJSON option \<Rightarrow> cJSON list" where
  "cJSON_AddItemToArray xs item = (case item of None \<Rightarrow> xs | Some v \<Rightarrow> xs @ [v])"

definition cJSON_AddArrayToObject ::
  "platform \<Rightarrow> cJSON option \<Rightarrow> string \<Rightarrow> cJSON option list \<Rightarrow> cJSON option" where
  "cJSON_AddArrayToObject P obj name items =
     (case cJSON_CreateArray P of
        None \<Rightarrow> obj
      | Some _ \<Rightarrow>
          snd (add_item_to_object P obj name
                (Some (cJSON_Array (foldl cJSON_AddItemToArray [] items)))))"

subsection \<open>Reading\<close>

text \<open>The first child of that name; a node that is not an object has no named child.\<close>

definition cJSON_GetObjectItemCaseSensitive :: "cJSON option \<Rightarrow> string \<Rightarrow> cJSON option" where
  "cJSON_GetObjectItemCaseSensitive obj name =
     (case obj of Some (cJSON_Object kvs) \<Rightarrow> map_of kvs name | _ \<Rightarrow> None)"

text \<open>\<^verbatim>\<open>tolower\<close> and \<^verbatim>\<open>toupper\<close> of the C locale.\<close>

definition tolower :: "char \<Rightarrow> char" where
  "tolower c = (if 65 \<le> code c \<and> code c \<le> 90 then char_of (code c + 32) else c)"

definition toupper :: "char \<Rightarrow> char" where
  "toupper c = (if 97 \<le> code c \<and> code c \<le> 122 then char_of (code c - 32) else c)"

text \<open>\<^verbatim>\<open>case_insensitive_strcmp(a, b) == 0\<close>, and the lookup with it. The children of an array
  have no name and are never found.\<close>

definition same_name :: "string \<Rightarrow> string \<Rightarrow> bool" where
  "same_name a b \<longleftrightarrow> map tolower a = map tolower b"

definition cJSON_GetObjectItem :: "cJSON option \<Rightarrow> string \<Rightarrow> cJSON option" where
  "cJSON_GetObjectItem obj name =
     (case obj of
        Some (cJSON_Object kvs) \<Rightarrow> map_option snd (find (\<lambda>kv. same_name name (fst kv)) kvs)
      | _ \<Rightarrow> None)"

text \<open>Both lookups give the same when no other member has the name in another case.\<close>

lemma get_item_any_case:
  assumes "\<And>k v. (k, v) \<in> set kvs \<Longrightarrow> same_name name k \<Longrightarrow> k = name"
  shows "cJSON_GetObjectItem (Some (cJSON_Object kvs)) name =
    cJSON_GetObjectItemCaseSensitive (Some (cJSON_Object kvs)) name"
proof -
  have "map_option snd (find (\<lambda>kv. same_name name (fst kv)) kvs) = map_of kvs name"
    using assms
  proof (induction kvs)
    case (Cons kv kvs)
    obtain k v where kv: "kv = (k, v)" by force
    have "same_name name k \<longleftrightarrow> k = name"
      using Cons.prems [of k v] by (auto simp: kv same_name_def)
    with Cons show ?case by (auto simp: kv)
  qed simp
  then show ?thesis by (simp add: cJSON_GetObjectItem_def cJSON_GetObjectItemCaseSensitive_def)
qed

text \<open>The children of a node, in order.\<close>

fun children :: "cJSON \<Rightarrow> cJSON list" where
  "children (cJSON_Array xs) = xs"
| "children (cJSON_Object kvs) = map snd kvs"
| "children _ = []"

text \<open>\<^verbatim>\<open>cJSON_GetArraySize\<close>: the number of children, converted to a 32-bit \<^verbatim>\<open>int\<close>.\<close>

definition cJSON_GetArraySize :: "cJSON option \<Rightarrow> int" where
  "cJSON_GetArraySize v =
     (case v of None \<Rightarrow> 0 | Some w \<Rightarrow> signed_take_bit 31 (int (length (children w))))"

lemma cJSON_GetArraySize_small:
  "length (children w) < 2 ^ 31 \<Longrightarrow> cJSON_GetArraySize (Some w) = int (length (children w))"
  by (simp add: cJSON_GetArraySize_def signed_take_bit_int_eq_self_iff)

text \<open>The type tests, each with the payload the callers read next.\<close>

definition string_of :: "cJSON option \<Rightarrow> string option" where
  "string_of v = (case v of Some (cJSON_String s) \<Rightarrow> Some s | _ \<Rightarrow> None)"

definition number_of :: "cJSON option \<Rightarrow> double option" where
  "number_of v = (case v of Some (cJSON_Number d) \<Rightarrow> Some d | _ \<Rightarrow> None)"

definition array_of :: "cJSON option \<Rightarrow> cJSON list option" where
  "array_of v = (case v of Some (cJSON_Array xs) \<Rightarrow> Some xs | _ \<Rightarrow> None)"

definition is_object :: "cJSON option \<Rightarrow> bool" where
  "is_object v = (case v of Some (cJSON_Object _) \<Rightarrow> True | _ \<Rightarrow> False)"

definition cJSON_IsTrue :: "cJSON option \<Rightarrow> bool" where
  "cJSON_IsTrue v \<longleftrightarrow> v = Some cJSON_True"

subsection \<open>Facts\<close>

named_theorems cjson_build \<comment> \<open>building trees when memory suffices\<close>

lemma create_ok [cjson_build]:
  "malloc_ok P 64 \<Longrightarrow> cJSON_CreateObject P = Some (cJSON_Object [])"
  "malloc_ok P 64 \<Longrightarrow> cJSON_CreateArray P = Some (cJSON_Array [])"
  "malloc_ok P 64 \<Longrightarrow> cJSON_CreateNumber P d = Some (cJSON_Number d)"
  "malloc_ok P 64 \<Longrightarrow> cJSON_CreateBool P b = Some (if b then cJSON_True else cJSON_False)"
  "malloc_ok P 64 \<Longrightarrow> malloc_ok P (length s + 1) \<Longrightarrow> cJSON_CreateString P s = Some (cJSON_String s)"
  by (simp_all add: cJSON_CreateObject_def cJSON_CreateArray_def cJSON_CreateNumber_def
      cJSON_CreateBool_def cJSON_CreateString_def cJSON_New_Item_def)

lemma add_ok [cjson_build]:
  "malloc_ok P (length k + 1) \<Longrightarrow>
     add_item_to_object P (Some (cJSON_Object kvs)) k (Some v) =
       (True, Some (cJSON_Object (kvs @ [(k, v)])))"
  by (simp add: add_item_to_object_def)

lemma add_string_ok [cjson_build]:
  "malloc_ok P 64 \<Longrightarrow> malloc_ok P (length k + 1) \<Longrightarrow> malloc_ok P (length s + 1) \<Longrightarrow>
     cJSON_AddStringToObject P (Some (cJSON_Object kvs)) k s =
       Some (cJSON_Object (kvs @ [(k, cJSON_String s)]))"
  by (simp add: cJSON_AddStringToObject_def cjson_build)

lemma add_number_ok [cjson_build]:
  "malloc_ok P 64 \<Longrightarrow> malloc_ok P (length k + 1) \<Longrightarrow>
     cJSON_AddNumberToObject P (Some (cJSON_Object kvs)) k d =
       Some (cJSON_Object (kvs @ [(k, cJSON_Number d)]))"
  by (simp add: cJSON_AddNumberToObject_def cjson_build)

lemma add_bool_ok [cjson_build]:
  "malloc_ok P 64 \<Longrightarrow> malloc_ok P (length k + 1) \<Longrightarrow>
     cJSON_AddBoolToObject P (Some (cJSON_Object kvs)) k b =
       Some (cJSON_Object (kvs @ [(k, if b then cJSON_True else cJSON_False)]))"
  by (simp add: cJSON_AddBoolToObject_def cjson_build)

lemma add_item_ok [cjson_build]:
  "malloc_ok P (length k + 1) \<Longrightarrow>
     cJSON_AddItemToObject P (Some (cJSON_Object kvs)) k (Some v) =
       Some (cJSON_Object (kvs @ [(k, v)]))"
  by (simp add: cJSON_AddItemToObject_def cjson_build)

lemma foldl_add_items: "foldl cJSON_AddItemToArray xs (map Some vs) = xs @ vs"
  by (induction vs arbitrary: xs) (simp_all add: cJSON_AddItemToArray_def)

lemma add_array_ok [cjson_build]:
  "malloc_ok P 64 \<Longrightarrow> malloc_ok P (length k + 1) \<Longrightarrow>
     cJSON_AddArrayToObject P (Some (cJSON_Object kvs)) k (map Some vs) =
       Some (cJSON_Object (kvs @ [(k, cJSON_Array vs)]))"
  by (simp add: cJSON_AddArrayToObject_def cjson_build foldl_add_items)

named_theorems cjson_read \<comment> \<open>reading known trees\<close>

lemma get_item_object [cjson_read]:
  "cJSON_GetObjectItemCaseSensitive (Some (cJSON_Object kvs)) k = map_of kvs k"
  "cJSON_GetObjectItemCaseSensitive None k = None"
  by (simp_all add: cJSON_GetObjectItemCaseSensitive_def)

lemma read_nodes [cjson_read]:
  "string_of (Some (cJSON_String s)) = Some s" "string_of None = None"
  "number_of (Some (cJSON_Number d)) = Some d" "number_of None = None"
  "array_of (Some (cJSON_Array xs)) = Some xs" "array_of None = None"
  "is_object (Some (cJSON_Object kvs)) = True" "is_object None = False"
  "cJSON_IsTrue (Some cJSON_True) = True" "cJSON_IsTrue None = False"
  by (simp_all add: string_of_def number_of_def array_of_def is_object_def cJSON_IsTrue_def)

subsection \<open>Well-formed trees\<close>

text \<open>Strings and names hold no NUL: they are C strings.\<close>

fun json_wf :: "cJSON \<Rightarrow> bool" where
  "json_wf (cJSON_String s) = c_string s"
| "json_wf (cJSON_Raw s) = c_string s"
| "json_wf (cJSON_Array xs) = list_all json_wf xs"
| "json_wf (cJSON_Object kvs) = list_all (\<lambda>(k, v). c_string k \<and> json_wf v) kvs"
| "json_wf _ = True"

text \<open>Arrays and objects are nested at most \<open>n\<close> deep.\<close>

fun nested :: "nat \<Rightarrow> cJSON \<Rightarrow> bool" where
  "nested n (cJSON_Array xs) = (0 < n \<and> list_all (nested (n - 1)) xs)"
| "nested n (cJSON_Object kvs) = (0 < n \<and> list_all (\<lambda>(k, v). nested (n - 1) v) kvs)"
| "nested n _ = True"

text \<open>Only 32-bit integers as numbers, and no raw text: what the library itself sends.\<close>

definition int_valued :: "double \<Rightarrow> bool" where
  "int_valued d =
     (case d of
        Fin r \<Rightarrow> r = of_int \<lfloor>r\<rfloor> \<and> INT_MIN \<le> \<lfloor>r\<rfloor> \<and> \<lfloor>r\<rfloor> \<le> INT_MAX
      | _ \<Rightarrow> False)"

lemma int_valuedE:
  assumes "int_valued d"
  obtains i where "d = Fin (of_int i)" and "INT_MIN \<le> i" and "i \<le> INT_MAX"
  using assms by (cases d) (auto simp: int_valued_def)

lemma int_valued_of_int [simp]: "int_valued (Fin (of_int i)) \<longleftrightarrow> INT_MIN \<le> i \<and> i \<le> INT_MAX"
  by (simp add: int_valued_def)

fun int_numbers :: "cJSON \<Rightarrow> bool" where
  "int_numbers (cJSON_Number d) = int_valued d"
| "int_numbers (cJSON_Array xs) = list_all int_numbers xs"
| "int_numbers (cJSON_Object kvs) = list_all (\<lambda>(k, v). int_numbers v) kvs"
| "int_numbers (cJSON_Raw s) = False"
| "int_numbers _ = True"

end
