(* ===== verification/C_Digits.thy ===== *)
theory C_Digits
  imports C_Number
begin

text \<open>
  How long a printed number is. The exponent \<open>bexp\<close> brackets a number in any base, so
  \<^verbatim>\<open>%1.17g\<close> of a \<^verbatim>\<open>double\<close> has at most 17 digits and an exponent of at most three digits.
\<close>

subsection \<open>Exponents\<close>

lemma blen_lower: "2 \<le> b \<Longrightarrow> 1 \<le> n \<Longrightarrow> b ^ (blen b n - 1) \<le> n \<and> 1 \<le> blen b n"
proof (induction b n rule: blen.induct)
  case (1 b n)
  show ?case
  proof (cases "n < b")
    case True
    with "1.prems" show ?thesis by (simp add: blen.simps [of b n] blen.simps [of b 0])
  next
    case False
    with "1.prems" have d: "1 \<le> n div b" by (simp add: pos_imp_zdiv_pos_iff int_one_le_iff_zero_less)
    with 1 have ih: "b ^ (blen b (n div b) - 1) \<le> n div b" "1 \<le> blen b (n div b)" by auto
    have "blen b n = Suc (blen b (n div b))" using "1.prems" by (subst blen.simps) simp
    moreover have "b ^ blen b (n div b) = b * b ^ (blen b (n div b) - 1)"
      using ih(2) by (simp flip: power_Suc)
    moreover have "b * b ^ (blen b (n div b) - 1) \<le> b * (n div b)"
      using ih(1) "1.prems" by (intro mult_left_mono) simp_all
    moreover have "b * (n div b) \<le> n"
      using "1.prems" mult_div_mod_eq [of b n] pos_mod_sign [of b n] by linarith
    ultimately show ?thesis by simp
  qed
qed

lemma blen_upper: "2 \<le> b \<Longrightarrow> n < b ^ blen b n"
proof (induction b n rule: blen.induct)
  case (1 b n)
  show ?case
  proof (cases "n \<le> 0")
    case True
    with "1.prems" show ?thesis by (simp add: le_less_trans)
  next
    case False
    with 1 have "n div b < b ^ blen b (n div b)" by simp
    then have "b * (n div b + 1) \<le> b * b ^ blen b (n div b)"
      using "1.prems" by (intro mult_left_mono) simp_all
    moreover have "n < b * (n div b + 1)"
      using "1.prems" mult_div_mod_eq [of b n] pos_mod_bound [of b n] unfolding distrib_left by linarith
    ultimately have "n < b * b ^ blen b (n div b)" by (rule less_le_trans [rotated])
    with False "1.prems" show ?thesis by (subst blen.simps) simp
  qed
qed

lemma pw_powi: "pw b k = of_int b powi k"
  by (simp add: pw_def power_int_def field_simps)

lemma pw_pos [simp]: "0 < b \<Longrightarrow> 0 < pw b k"
  by (simp add: pw_def)

lemma pw_mono: "1 \<le> b \<Longrightarrow> k \<le> l \<Longrightarrow> pw b k \<le> pw b l"
  unfolding pw_powi by (rule power_int_increasing) simp_all

text \<open>The exponent brackets the number.\<close>

lemma bexp_bracket:
  assumes "2 \<le> b" and "0 < a"
  shows "pw b (bexp b a) \<le> a" and "a < pw b (bexp b a + 1)"
proof -
  have b: "1 \<le> (of_int b :: rat)" "0 < (of_int b :: rat)" using assms(1) by simp_all
  have "pw b (bexp b a) \<le> a \<and> a < pw b (bexp b a + 1)"
  proof (cases "1 \<le> a")
    case True
    define k where "k = blen b \<lfloor>a\<rfloor>"
    have k: "b ^ (k - 1) \<le> \<lfloor>a\<rfloor>" "1 \<le> k" "\<lfloor>a\<rfloor> < b ^ k"
      using blen_lower [OF assms(1), of "\<lfloor>a\<rfloor>"] blen_upper [OF assms(1), of "\<lfloor>a\<rfloor>"] True by (auto simp: k_def)
    have e: "bexp b a = int k - 1" using True by (simp add: bexp_def k_def)
    have "of_int (b ^ (k - 1)) \<le> a" using k(1) by linarith
    moreover have "a < of_int (b ^ k)" using k(3) by linarith
    ultimately show ?thesis
      using k(2) by (auto simp: e pw_def nat_diff_distrib)
  next
    case False
    define m where "m = \<lceil>1 / a\<rceil> - 1"
    define k where "k = blen b m"
    have m: "of_int m < 1 / a" "1 / a \<le> of_int m + 1" unfolding m_def by linarith+
    have "1 < 1 / a" using False assms(2) by simp
    with m(2) have m1: "1 \<le> m" by linarith
    have k: "b ^ (k - 1) \<le> m" "1 \<le> k" "m < b ^ k"
      using blen_lower [OF assms(1) m1] blen_upper [OF assms(1), of m] by (auto simp: k_def)
    have e: "bexp b a = - int k" using False by (simp add: bexp_def k_def m_def)
    have "1 / a \<le> of_int (b ^ k)" using k(3) m(2) by linarith
    then have "1 \<le> a * of_int b ^ k" using assms(2) by (simp add: field_simps)
    moreover have "of_int (b ^ (k - 1)) < 1 / a" using k(1) m(1) by linarith
    then have "a * of_int b ^ (k - 1) < 1" using assms(2) by (simp add: field_simps)
    moreover have "nat (int k - 1) = k - 1" by simp
    ultimately show ?thesis
      using k(2) b unfolding e pw_def by (auto simp: field_simps)
  qed
  then show "pw b (bexp b a) \<le> a" and "a < pw b (bexp b a + 1)" by auto
qed

lemmas bexp_bracket2 = bexp_bracket [of 2, OF order_refl]

lemma bexp_le: "2 \<le> b \<Longrightarrow> 0 < a \<Longrightarrow> a < pw b (k + 1) \<Longrightarrow> bexp b a \<le> k"
  using bexp_bracket(1) [of b a] pw_mono [of b "k + 1" "bexp b a"] by force

lemma bexp_ge: "2 \<le> b \<Longrightarrow> 0 < a \<Longrightarrow> pw b k \<le> a \<Longrightarrow> k \<le> bexp b a"
  using bexp_bracket(2) [of b a] pw_mono [of b "bexp b a + 1" k] by force

lemma round_even_near: "\<bar>of_int (round_even q) - q\<bar> \<le> 1 / 2"
proof -
  define f where "f = \<lfloor>q\<rfloor>"
  have f: "of_int f \<le> q" "q < of_int f + 1" unfolding f_def by linarith+
  have "round_even q = (if q - of_int f < 1 / 2 then f
      else if 1 / 2 < q - of_int f then f + 1 else if even f then f else f + 1)"
    by (simp add: round_even_def Let_def f_def)
  then show ?thesis using f by (auto simp: abs_le_iff)
qed

lemma round_even_ge: "of_int m \<le> q \<Longrightarrow> m \<le> round_even q"
proof -
  assume "of_int m \<le> q"
  then have "m \<le> \<lfloor>q\<rfloor>" by (simp add: le_floor_iff)
  then show ?thesis by (simp add: round_even_def Let_def)
qed

lemma round_even_le: "q < of_int m \<Longrightarrow> round_even q \<le> m"
proof -
  assume "q < of_int m"
  then have "\<lfloor>q\<rfloor> + 1 \<le> m" by linarith
  then show ?thesis by (simp add: round_even_def Let_def)
qed

subsection \<open>Doubles\<close>

text \<open>The values of a \<^verbatim>\<open>double\<close>: rounding keeps them.\<close>

definition is_double :: "double \<Rightarrow> bool" where
  "is_double d = (case d of Fin r \<Rightarrow> to_double r = Fin r | _ \<Rightarrow> True)"

lemma double_range:
  assumes "to_double r = Fin r" and "r \<noteq> 0"
  shows "pw 10 (- 400) \<le> \<bar>r\<bar>" and "\<bar>r\<bar> < pw 10 400"
proof -
  define e where "e = max (bexp 2 \<bar>r\<bar> - 52) (- 1074)"
  define n where "n = round_even (\<bar>r\<bar> / pw 2 e)"
  have v: "\<not> 2 ^ 1024 \<le> of_int n * pw 2 e" "(if 0 < r then of_int n * pw 2 e else - (of_int n * pw 2 e)) = r"
    using assms unfolding to_double_def Let_def e_def [symmetric] n_def [symmetric] by (auto split: if_splits)
  have n: "0 \<le> n" unfolding n_def by (rule round_even_ge) (simp add: less_imp_le)
  with v(2) have r: "\<bar>r\<bar> = of_int n * pw 2 e"
    by (cases "0 < r") (auto simp: abs_if mult_less_0_iff not_less)
  have "n \<noteq> 0" using r assms(2) by auto
  with n have "1 \<le> (of_int n :: rat)" by simp
  then have "1 * pw 2 e \<le> of_int n * pw 2 e" by (intro mult_right_mono) (simp_all add: less_imp_le)
  moreover have "pw 2 (- 1074) \<le> pw 2 e" by (intro pw_mono) (simp_all add: e_def)
  ultimately have "pw 2 (- 1074) \<le> \<bar>r\<bar>" unfolding r by linarith
  moreover have "pw 10 (- 400) \<le> pw 2 (- 1074)" by (simp add: pw_def)
  ultimately show "pw 10 (- 400) \<le> \<bar>r\<bar>" by simp
  have "(2 :: rat) ^ 1024 < pw 10 400" by (simp add: pw_def)
  with v(1) r show "\<bar>r\<bar> < pw 10 400" by simp
qed

subsection \<open>The length of a text\<close>

lemma length_strip_zeros: "length (strip_zeros s) \<le> length s"
  by (simp add: strip_zeros_def) (metis length_dropWhile_le length_rev)

lemma length_with_frac: "length (with_frac i f) \<le> length i + 1 + length f"
  by (simp add: with_frac_def)

text \<open>The digits: at most \<open>P\<close> of them.\<close>

lemma significand_bound:
  assumes "0 < a" and "0 < P" and "d0 = round_even (a / pw 10 (bexp 10 a - int P + 1))"
  shows "d0 \<le> 10 ^ P"
proof -
  let ?x = "bexp 10 a"
  have "pw 10 (?x + 1) = pw 10 (?x - int P + 1) * 10 ^ P"
    unfolding pw_powi by (simp flip: power_int_of_nat add: power_int_add [symmetric])
  moreover have "a < pw 10 (?x + 1)" using bexp_bracket(2) [of 10 a] assms(1) by simp
  ultimately have "a / pw 10 (?x - int P + 1) < of_int (10 ^ P)"
    by (simp add: divide_less_eq mult.commute)
  then show ?thesis unfolding assms(3) by (rule round_even_le)
qed

lemma length_fmt_g:
  assumes "pw 10 (- 400) \<le> \<bar>r\<bar>" and "\<bar>r\<bar> < pw 10 400" and "0 < P"
  shows "length (fmt_g P r) \<le> P + 7"
proof -
  let ?a = "\<bar>r\<bar>"
  have a: "0 < ?a" using assms(1) pw_pos [of 10 "- 400"] by linarith
  define x0 where "x0 = bexp 10 ?a"
  define d0 where "d0 = round_even (?a / pw 10 (x0 - int P + 1))"
  define d where "d = (if d0 = 10 ^ P then 10 ^ (P - 1) else d0)"
  define x where "x = (if d0 = 10 ^ P then x0 + 1 else x0)"
  have "x0 \<le> 399" "- 400 \<le> x0"
    using bexp_le [of 10 ?a 399] bexp_ge [of 10 ?a "- 400"] a assms(1,2) by (simp_all add: x0_def)
  then have x: "\<bar>x\<bar> < 10 ^ 3" by (cases "d0 = 10 ^ P") (simp_all add: x_def abs_less_iff)
  have "d0 \<le> 10 ^ P" using significand_bound [OF a assms(3)] by (simp add: d0_def x0_def)
  then have "d < 10 ^ P" using assms(3) by (auto simp: d_def power_strict_increasing)
  then have ds: "length (dec d) \<le> P" by (rule length_dec_le [OF _ assms(3)])
  let ?body = "if - 4 \<le> x \<and> x < int P
      then (if 0 \<le> x
            then with_frac (take (nat x + 1) (dec d)) (strip_zeros (drop (nat x + 1) (dec d)))
            else with_frac ''0'' (strip_zeros (replicate (nat (- x) - 1) (CHR ''0'') @ dec d)))
      else with_frac (take 1 (dec d)) (strip_zeros (drop 1 (dec d))) @
           (if x < 0 then ''e-'' else ''e+'') @ (if \<bar>x\<bar> < 10 then ''0'' else []) @ dec \<bar>x\<bar>"
  have frac: "length (with_frac (take k (dec d)) (strip_zeros (drop k (dec d)))) \<le> P + 1" for k
    using length_with_frac [of "take k (dec d)" "strip_zeros (drop k (dec d))"]
      length_strip_zeros [of "drop k (dec d)"] ds by simp
  have zeros: "length (with_frac ''0'' (strip_zeros (replicate (nat (- x) - 1) (CHR ''0'') @ dec d))) \<le> P + 5"
    if "- 4 \<le> x"
  proof -
    have "nat (- x) - 1 \<le> 3" using that by linarith
    then show ?thesis using length_with_frac [of "''0''" "strip_zeros (replicate (nat (- x) - 1) (CHR ''0'') @ dec d)"]
      length_strip_zeros [of "replicate (nat (- x) - 1) (CHR ''0'') @ dec d"] ds
      unfolding length_append length_replicate by simp
  qed
  have two: "length ((if x < 0 then ''e-'' else ''e+'') @ (if y < 10 then ''0'' else []) @ dec y) \<le> 5"
    if "y < 10 \<Longrightarrow> length (dec y) \<le> 1" "length (dec y) \<le> 3" for y
    using that by auto
  have "length (dec \<bar>x\<bar>) \<le> 1" if "\<bar>x\<bar> < 10" by (rule length_dec_le) (use that in simp_all)
  moreover have "length (dec \<bar>x\<bar>) \<le> 3" by (rule length_dec_le [OF x]) simp
  ultimately have exponent: "length ((if x < 0 then ''e-'' else ''e+'') @ (if \<bar>x\<bar> < 10 then ''0'' else []) @ dec \<bar>x\<bar>) \<le> 5"
    by (rule two)
  have "length ?body \<le> P + 6"
  proof (cases "- 4 \<le> x \<and> x < int P")
    case True
    show ?thesis
    proof (cases "0 \<le> x")
      case True
      with \<open>- 4 \<le> x \<and> x < int P\<close> show ?thesis
        using frac [of "nat x + 1"] unfolding if_P [OF True] if_P [OF \<open>- 4 \<le> x \<and> x < int P\<close>] by linarith
    next
      case False
      have "length ?body = length (with_frac ''0'' (strip_zeros (replicate (nat (- x) - 1) (CHR ''0'') @ dec d)))"
        unfolding if_P [OF True] if_not_P [OF False] by (rule refl)
      with zeros True show ?thesis using assms(3) by linarith
    qed
  next
    case False
    have "length ?body \<le> P + 1 + 5"
      unfolding if_not_P [OF False] length_append [of "with_frac _ _"]
      by (rule add_mono [OF frac exponent])
    then show ?thesis by linarith
  qed
  moreover have "fmt_g P r = (if r < 0 then CHR ''-'' # ?body else ?body)"
    unfolding fmt_g_def Let_def x0_def [symmetric] d0_def [symmetric] by (simp add: d_def x_def)
  ultimately show ?thesis by (simp del: append_assoc)
qed

end
