(* ===== verification/Cjson_Print.thy ===== *)
theory Cjson_Print
  imports Cjson_Tree C_Digits
begin

text \<open>
  The printer of \<^verbatim>\<open>src/cJSON/cJSON.c\<close> over its \<^verbatim>\<open>printbuffer\<close>, which grows or is the
  caller's, formatted and unformatted, and a reference printer without a buffer. The lemmas
  show that the buffered printer computes the reference text, never writes past the space it
  reserved, and fails only when the text is too long or an allocation fails.
\<close>

subsection \<open>The print buffer\<close>

text \<open>
  \<open>pb_out\<close> is what the buffer holds from its start up to the terminating NUL (or to the
  last byte written), \<open>pb_offset\<close> the write position, \<open>pb_length\<close> the size. \<open>pb_noalloc\<close>:
  the buffer is the caller's and cannot grow.
\<close>

record printbuffer =
  pb_out :: string
  pb_offset :: nat
  pb_length :: nat
  pb_depth :: nat
  pb_noalloc :: bool
  pb_format :: bool

definition ensure :: "platform \<Rightarrow> printbuffer \<Rightarrow> nat \<Rightarrow> printbuffer option" where
  "ensure P p needed =
     (if 0 < pb_length p \<and> pb_length p \<le> pb_offset p then None
      else if nat INT_MAX < needed then None
      else let needed' = needed + pb_offset p + 1
           in if needed' \<le> pb_length p then Some p
              else if pb_noalloc p then None
              else if nat INT_MAX div 2 < needed'
                   then (if needed' \<le> nat INT_MAX
                         then (if malloc_ok P (nat INT_MAX)
                               then Some (p\<lparr>pb_length := nat INT_MAX\<rparr>) else None)
                         else None)
                   else (if malloc_ok P (needed' * 2)
                         then Some (p\<lparr>pb_length := needed' * 2\<rparr>) else None))"

text \<open>Writing at the current position, with a terminator; the position does not move.\<close>

definition put :: "printbuffer \<Rightarrow> string \<Rightarrow> printbuffer" where
  "put p s = p\<lparr>pb_out := take (pb_offset p) (pb_out p) @ s\<rparr>"

definition advance :: "printbuffer \<Rightarrow> nat \<Rightarrow> printbuffer" where
  "advance p n = p\<lparr>pb_offset := pb_offset p + n\<rparr>"

text \<open>Writing and moving behind what was written, as most of the code does.\<close>

definition emit :: "printbuffer \<Rightarrow> string \<Rightarrow> printbuffer" where
  "emit p s = advance (put p s) (length s)"

definition deepen :: "printbuffer \<Rightarrow> printbuffer" where
  "deepen p = p\<lparr>pb_depth := pb_depth p + 1\<rparr>"

definition rise :: "printbuffer \<Rightarrow> printbuffer" where
  "rise p = p\<lparr>pb_depth := pb_depth p - 1\<rparr>"

definition update_offset :: "printbuffer \<Rightarrow> printbuffer" where
  "update_offset p =
     p\<lparr>pb_offset := pb_offset p + length (cstr (drop (pb_offset p) (pb_out p)))\<rparr>"

subsection \<open>Numbers\<close>

text \<open>The text \<^verbatim>\<open>print_number\<close> puts into its 26-byte buffer.\<close>

definition number_text :: "double \<Rightarrow> string" where
  "number_text d =
     (case d of
        Fin r \<Rightarrow>
          if r = of_int (valueint d) then dec_int (valueint d)
          else let s = fmt_g 15 r
               in if compare_double (fst (strtod s)) d then s else fmt_g 17 r
      | _ \<Rightarrow> ''null'')"

definition print_number :: "platform \<Rightarrow> double \<Rightarrow> printbuffer \<Rightarrow> printbuffer option" where
  "print_number P d p =
     (let s = number_text d
      in if 25 < length s then None
         else do {
           p \<leftarrow> ensure P p (length s + 1);
           Some (emit p s)
         })"

subsection \<open>Strings\<close>

text \<open>The extra characters \<^verbatim>\<open>print_string_ptr\<close> counts for a byte.\<close>

definition escape_extra :: "char \<Rightarrow> nat" where
  "escape_extra c =
     (if c \<in> {CHR 0x22, CHR 0x5C, CHR 0x08, CHR 0x0C, CHR 0x0A, CHR 0x0D, CHR 0x09} then 1
      else if code c < 32 then 5 else 0)"

definition hex_digit :: "nat \<Rightarrow> char" where
  "hex_digit n = (if n < 10 then char_of (48 + n) else char_of (87 + n))"

text \<open>\<^verbatim>\<open>sprintf("u%04x", c)\<close> of a byte.\<close>

definition u04x :: "char \<Rightarrow> string" where
  "u04x c = ''u00'' @ [hex_digit (code c div 16), hex_digit (code c mod 16)]"

definition escape_char :: "char \<Rightarrow> string" where
  "escape_char c =
     (if 31 < code c \<and> c \<noteq> CHR 0x22 \<and> c \<noteq> CHR 0x5C then [c]
      else CHR 0x5C #
        (if c = CHR 0x5C then [CHR 0x5C]
         else if c = CHR 0x22 then [CHR 0x22]
         else if c = CHR 0x08 then ''b''
         else if c = CHR 0x0C then ''f''
         else if c = CHR 0x0A then ''n''
         else if c = CHR 0x0D then ''r''
         else if c = CHR 0x09 then ''t''
         else u04x c))"

definition print_string_ptr :: "platform \<Rightarrow> string \<Rightarrow> printbuffer \<Rightarrow> printbuffer option" where
  "print_string_ptr P s p =
     (let escapes = sum_list (map escape_extra s);
          output_length = length s + escapes
      in do {
        p \<leftarrow> ensure P p (output_length + 3);
        if escapes = 0 then Some (put p (CHR 0x22 # s @ [CHR 0x22]))
        else Some (put p (CHR 0x22 # concat (map escape_char s) @ [CHR 0x22]))
      })"

subsection \<open>Values\<close>

text \<open>The punctuation of the two modes.\<close>

definition tabs :: "nat \<Rightarrow> string" where
  "tabs n = replicate n (CHR 0x09)"

definition comma :: "bool \<Rightarrow> string" where
  "comma fmt = (if fmt then '', '' else '','')"

definition brace :: "bool \<Rightarrow> string" where
  "brace fmt = (if fmt then ''{'' @ [NL] else ''{'')"

definition colon :: "bool \<Rightarrow> string" where
  "colon fmt = (if fmt then '':'' @ tabs 1 else '':'')"

definition ending :: "bool \<Rightarrow> bool \<Rightarrow> string" where
  "ending fmt final = (if final then [] else '','') @ (if fmt then [NL] else [])"

fun print_value :: "platform \<Rightarrow> cJSON \<Rightarrow> printbuffer \<Rightarrow> printbuffer option"
  and print_elements :: "platform \<Rightarrow> cJSON list \<Rightarrow> printbuffer \<Rightarrow> printbuffer option"
  and print_members :: "platform \<Rightarrow> (string \<times> cJSON) list \<Rightarrow> printbuffer \<Rightarrow> printbuffer option"
where
  "print_value P cJSON_NULL p = do { p \<leftarrow> ensure P p 5; Some (put p ''null'') }"
| "print_value P cJSON_False p = do { p \<leftarrow> ensure P p 6; Some (put p ''false'') }"
| "print_value P cJSON_True p = do { p \<leftarrow> ensure P p 5; Some (put p ''true'') }"
| "print_value P (cJSON_Number d) p = print_number P d p"
| "print_value P (cJSON_Raw s) p = do { p \<leftarrow> ensure P p (length s + 1); Some (put p s) }"
| "print_value P (cJSON_String s) p = print_string_ptr P s p"
| "print_value P (cJSON_Array xs) p = do {
     p \<leftarrow> ensure P p 1;
     p \<leftarrow> print_elements P xs (deepen (emit p ''[''));
     p \<leftarrow> ensure P p 2;
     Some (rise (put p '']''))
   }"
| "print_value P (cJSON_Object kvs) p = do {
     p \<leftarrow> ensure P p (length (brace (pb_format p)) + 1);
     p \<leftarrow> print_members P kvs (deepen (emit p (brace (pb_format p))));
     p \<leftarrow> ensure P p (if pb_format p then pb_depth p + 1 else 2);
     Some (rise (put p ((if pb_format p then tabs (pb_depth p - 1) else []) @ ''}'')))
   }"
| "print_elements P [] p = Some p"
| "print_elements P (x # xs) p = do {
     p \<leftarrow> print_value P x p;
     p \<leftarrow> (if xs = [] then Some (update_offset p)
          else do {
            p \<leftarrow> ensure P (update_offset p) (length (comma (pb_format p)) + 1);
            Some (emit p (comma (pb_format p)))
          });
     print_elements P xs p
   }"
| "print_members P [] p = Some p"
| "print_members P (kv # kvs) p = do {
     p \<leftarrow> (if pb_format p
          then do { p \<leftarrow> ensure P p (pb_depth p); Some (emit p (tabs (pb_depth p))) }
          else Some p);
     p \<leftarrow> print_string_ptr P (fst kv) p;
     p \<leftarrow> ensure P (update_offset p) (length (colon (pb_format p)));
     p \<leftarrow> print_value P (snd kv) (emit p (colon (pb_format p)));
     p \<leftarrow> ensure P (update_offset p) (length (ending (pb_format p) (kvs = [])) + 1);
     print_members P kvs (emit p (ending (pb_format p) (kvs = [])))
   }"

text \<open>\<^verbatim>\<open>print\<close>, with its first buffer of 256 bytes that is cut to the text's length in the
  end.\<close>

definition cJSON_print :: "platform \<Rightarrow> cJSON \<Rightarrow> bool \<Rightarrow> string option" where
  "cJSON_print P v fmt =
     (if malloc_ok P 256
      then do {
        p \<leftarrow> print_value P v \<lparr>pb_out = [], pb_offset = 0, pb_length = 256, pb_depth = 0,
                              pb_noalloc = False, pb_format = fmt\<rparr>;
        let p = update_offset p;
        if malloc_ok P (pb_offset p + 1) then Some (take (pb_offset p) (pb_out p)) else None
      }
      else None)"

definition cJSON_Print :: "platform \<Rightarrow> cJSON \<Rightarrow> string option" where
  "cJSON_Print P v = cJSON_print P v True"

definition cJSON_PrintUnformatted :: "platform \<Rightarrow> cJSON \<Rightarrow> string option" where
  "cJSON_PrintUnformatted P v = cJSON_print P v False"

definition cJSON_PrintBuffered :: "platform \<Rightarrow> cJSON \<Rightarrow> int \<Rightarrow> bool \<Rightarrow> string option" where
  "cJSON_PrintBuffered P v prebuffer fmt =
     (if prebuffer < 0 \<or> \<not> malloc_ok P (nat prebuffer) then None
      else map_option pb_out
        (print_value P v \<lparr>pb_out = [], pb_offset = 0, pb_length = nat prebuffer, pb_depth = 0,
                          pb_noalloc = False, pb_format = fmt\<rparr>))"

text \<open>The caller's buffer afterwards; \<open>None\<close> when the call fails.\<close>

definition cJSON_PrintPreallocated :: "platform \<Rightarrow> cJSON \<Rightarrow> int \<Rightarrow> bool \<Rightarrow> string option" where
  "cJSON_PrintPreallocated P v len fmt =
     (if len < 0 then None
      else map_option pb_out
        (print_value P v \<lparr>pb_out = [], pb_offset = 0, pb_length = nat len, pb_depth = 0,
                          pb_noalloc = True, pb_format = fmt\<rparr>))"

subsection \<open>The reference printer\<close>

definition quote :: "string \<Rightarrow> string" where
  "quote s = CHR 0x22 # concat (map escape_char s) @ [CHR 0x22]"

fun commas :: "string list \<Rightarrow> string" where
  "commas [] = []"
| "commas (s # ss) = s @ (if ss = [] then [] else CHR '','' # commas ss)"

fun render :: "cJSON \<Rightarrow> string" where
  "render cJSON_NULL = ''null''"
| "render cJSON_False = ''false''"
| "render cJSON_True = ''true''"
| "render (cJSON_Number d) = number_text d"
| "render (cJSON_String s) = quote s"
| "render (cJSON_Raw s) = s"
| "render (cJSON_Array xs) = CHR ''['' # commas (map render xs) @ '']''"
| "render (cJSON_Object kvs) =
     CHR ''{'' # commas (map (\<lambda>(k, v). quote k @ CHR '':'' # render v) kvs) @ ''}''"

subsection \<open>The reserved space is exact\<close>

lemma length_escape_char: "length (escape_char c) = 1 + escape_extra c"
proof -
  have "code c < 32 \<Longrightarrow> \<not> 31 < code c" by simp
  moreover have "code c < 32 \<or> 31 < code c" by linarith
  ultimately show ?thesis
    by (auto simp: escape_char_def escape_extra_def u04x_def)
qed

lemma length_escape:
  "length (concat (map escape_char s)) = length s + sum_list (map escape_extra s)"
  by (induction s) (simp_all add: length_escape_char)

lemma no_escapes: "sum_list (map escape_extra s) = 0 \<Longrightarrow> concat (map escape_char s) = s"
proof (induction s)
  case (Cons c s)
  then have "escape_extra c = 0" and IH: "concat (map escape_char s) = s" by auto
  then have "31 < code c \<and> c \<noteq> CHR 0x22 \<and> c \<noteq> CHR 0x5C"
    by (auto simp: escape_extra_def split: if_splits)
  then have "escape_char c = [c]" by (simp add: escape_char_def)
  then show ?case using IH by simp
qed simp

lemma length_quote: "length (quote s) = length s + sum_list (map escape_extra s) + 2"
  by (simp add: quote_def length_escape)

lemma c_string_escape_char: "c \<noteq> NUL \<Longrightarrow> c_string (escape_char c)"
proof -
  assume c: "c \<noteq> NUL"
  have "char_of (48 + n) \<noteq> NUL" if "n < 10" for n :: nat
  proof
    assume "char_of (48 + n) = NUL"
    then have "code (char_of (48 + n) :: char) = 0" by simp
    with that show False by simp
  qed
  moreover have "char_of (87 + n) \<noteq> NUL" if "n < 16" for n :: nat
  proof
    assume "char_of (87 + n) = NUL"
    then have "code (char_of (87 + n) :: char) = 0" by simp
    with that show False by simp
  qed
  ultimately have "hex_digit n \<noteq> NUL" if "n < 16" for n
    using that by (simp add: hex_digit_def)
  moreover have "code c div 16 < 16" "code c mod 16 < 16"
    using nat_of_char_less_256 [of c] by (auto simp: less_mult_imp_div_less)
  ultimately show ?thesis
    using c by (simp add: escape_char_def u04x_def)
qed

lemma c_string_quote: "c_string s \<Longrightarrow> c_string (quote s)"
  by (induction s) (simp_all add: quote_def c_string_escape_char)

lemma c_string_number_text [simp]: "c_string (number_text d)"
  by (simp add: number_text_def Let_def split: double.split)

text \<open>The text of both modes, at a nesting depth.\<close>

fun render_at :: "bool \<Rightarrow> nat \<Rightarrow> cJSON \<Rightarrow> string"
  and elements_at :: "bool \<Rightarrow> nat \<Rightarrow> cJSON list \<Rightarrow> string"
  and members_at :: "bool \<Rightarrow> nat \<Rightarrow> (string \<times> cJSON) list \<Rightarrow> string"
where
  "render_at f d cJSON_NULL = ''null''"
| "render_at f d cJSON_False = ''false''"
| "render_at f d cJSON_True = ''true''"
| "render_at f d (cJSON_Number x) = number_text x"
| "render_at f d (cJSON_String s) = quote s"
| "render_at f d (cJSON_Raw s) = s"
| "render_at f d (cJSON_Array xs) = ''['' @ elements_at f (Suc d) xs @ '']''"
| "render_at f d (cJSON_Object kvs) =
     brace f @ members_at f (Suc d) kvs @ (if f then tabs d else []) @ ''}''"
| "elements_at f d [] = []"
| "elements_at f d (x # xs) = render_at f d x @ (if xs = [] then [] else comma f) @ elements_at f d xs"
| "members_at f d [] = []"
| "members_at f d (kv # kvs) =
     (if f then tabs d else []) @ quote (fst kv) @ colon f @ render_at f d (snd kv) @
     ending f (kvs = []) @ members_at f d kvs"

lemma length_tabs [simp]: "length (tabs n) = n"
  by (simp add: tabs_def)

lemma c_string_tabs [simp]: "c_string (tabs n)"
  unfolding tabs_def by (induction n) simp_all

lemma punctuation_c_string [simp]:
  "c_string (comma f)" "c_string (brace f)" "c_string (colon f)" "c_string (ending f e)"
  by (simp_all add: comma_def brace_def colon_def ending_def)

lemma c_string_render_at:
  "json_wf v \<Longrightarrow> c_string (render_at f d v)"
  "list_all json_wf xs \<Longrightarrow> c_string (elements_at f d xs)"
  "list_all (\<lambda>(k, v). c_string k \<and> json_wf v) kvs \<Longrightarrow> c_string (members_at f d kvs)"
  by (induction f d v and f d xs and f d kvs rule: render_at_elements_at_members_at.induct)
     (auto simp: c_string_quote)

text \<open>What the two loops print: the elements, and the members, separated by commas.\<close>

definition member_text :: "string \<times> cJSON \<Rightarrow> string" where
  "member_text kv = quote (fst kv) @ CHR '':'' # render (snd kv)"

lemma render_object [simp]:
  "render (cJSON_Object kvs) = CHR ''{'' # commas (map member_text kvs) @ ''}''"
proof -
  have "member_text = (\<lambda>(k, v). quote k @ CHR '':'' # render v)"
    by (auto simp: member_text_def)
  then show ?thesis by simp
qed

declare render.simps(8) [simp del]

lemma render_at_unformatted [simp]:
  "render_at False d v = render v"
  "elements_at False d xs = commas (map render xs)"
  "members_at False d kvs = commas (map member_text kvs)"
  by (induction "False" d v and "False" d xs and "False" d kvs
      rule: render_at_elements_at_members_at.induct)
     (auto simp: brace_def comma_def colon_def ending_def member_text_def)

lemma c_string_render: "json_wf v \<Longrightarrow> c_string (render v)"
  using c_string_render_at(1) [of v False 0] by simp

subsection \<open>The buffered printer computes the reference text\<close>

text \<open>\<open>same_mode p q\<close>: the mode and the depth are kept, and the size where it is the caller's.\<close>

definition same_mode :: "printbuffer \<Rightarrow> printbuffer \<Rightarrow> bool" where
  "same_mode p q \<longleftrightarrow>
     pb_format q = pb_format p \<and> pb_depth q = pb_depth p \<and> pb_noalloc q = pb_noalloc p \<and>
     (pb_noalloc p \<longrightarrow> pb_length q = pb_length p)"

text \<open>
  \<open>settled\<close>: the position is at the end of the text, and the text with its terminator is
  inside the allocation. \<open>extended p s q\<close>: \<open>s\<close> has been printed in between.
\<close>

definition settled :: "printbuffer \<Rightarrow> bool" where
  "settled p \<longleftrightarrow> pb_offset p = length (pb_out p) \<and> length (pb_out p) < pb_length p"

definition extended :: "printbuffer \<Rightarrow> string \<Rightarrow> printbuffer \<Rightarrow> bool" where
  "extended p s q \<longleftrightarrow> settled q \<and> pb_out q = pb_out p @ s \<and> same_mode p q"

text \<open>\<open>appended p s q\<close>: \<open>q\<close> is \<open>p\<close> with \<open>s\<close> written at the end, the position
  somewhere in \<open>s\<close>, and everything inside the allocation.\<close>

definition appended :: "printbuffer \<Rightarrow> string \<Rightarrow> printbuffer \<Rightarrow> bool" where
  "appended p s q \<longleftrightarrow>
     pb_out q = pb_out p @ s \<and> length (pb_out q) < pb_length q \<and>
     length (pb_out p) \<le> pb_offset q \<and> pb_offset q \<le> length (pb_out q) \<and> same_mode p q"

lemma same_mode_trans: "same_mode p q \<Longrightarrow> same_mode q r \<Longrightarrow> same_mode p r"
  by (auto simp: same_mode_def)

lemma extended_refl: "settled p \<Longrightarrow> extended p [] p"
  by (simp add: extended_def same_mode_def)

lemma extended_trans [trans]: "extended p s q \<Longrightarrow> extended q s' r \<Longrightarrow> extended p (s @ s') r"
  by (auto simp: extended_def intro: same_mode_trans)

lemma extended_appended: "extended p s q \<Longrightarrow> appended q s' r \<Longrightarrow> appended p (s @ s') r"
  by (auto simp: extended_def appended_def intro: same_mode_trans)

lemma extendedD:
  assumes "extended p s q"
  shows "settled q" "pb_out q = pb_out p @ s" "pb_format q = pb_format p" "pb_depth q = pb_depth p"
  using assms by (simp_all add: extended_def same_mode_def)

text \<open>Behind a bracket the depth is one more, until \<^verbatim>\<open>depth--\<close>.\<close>

lemma deepen_simps [simp]:
  "pb_out (deepen p) = pb_out p" "pb_offset (deepen p) = pb_offset p" "pb_length (deepen p) = pb_length p"
  "pb_depth (deepen p) = Suc (pb_depth p)" "pb_format (deepen p) = pb_format p"
  "pb_noalloc (deepen p) = pb_noalloc p" "settled (deepen p) = settled p"
  by (simp_all add: deepen_def settled_def)

lemma put_simps [simp]:
  "pb_depth (put p s) = pb_depth p" "pb_format (put p s) = pb_format p" "pb_offset (put p s) = pb_offset p"
  "pb_depth (emit p s) = pb_depth p" "pb_format (emit p s) = pb_format p"
  by (simp_all add: put_def emit_def advance_def)

lemma enclosed:
  assumes "extended p s q" and "extended (deepen q) s' r" and "appended r s'' t"
  shows "appended p (s @ s' @ s'') (rise t)"
  using assms by (auto simp: extended_def appended_def same_mode_def rise_def)

lemma ensure_SomeD:
  assumes "ensure P p n = Some q"
  shows "pb_out q = pb_out p" and "pb_offset q = pb_offset p" and "n + pb_offset p < pb_length q"
    and "same_mode p q"
  using assms
  by (auto simp: ensure_def Let_def same_mode_def split: if_splits)

lemma update_offset_appended:
  "appended p s q \<Longrightarrow> c_string s \<Longrightarrow> extended p s (update_offset q)"
  by (auto simp: appended_def settled_def extended_def same_mode_def update_offset_def)

lemma put_appended:
  assumes "settled p" and "ensure P p n = Some q" and "length s \<le> n"
  shows "appended p s (put q s)"
  using assms ensure_SomeD [OF assms(2)]
  by (simp add: appended_def settled_def put_def same_mode_def)

lemma emit_extended:
  assumes "settled p" and "ensure P p n = Some q" and "length s \<le> n"
  shows "extended p s (emit q s)"
  using assms ensure_SomeD [OF assms(2)]
  by (simp add: extended_def settled_def emit_def put_def advance_def same_mode_def)

lemma print_string_appended:
  assumes "settled p" and "print_string_ptr P s p = Some q"
  shows "appended p (quote s) q"
proof -
  from assms(2) obtain r where r: "ensure P p (length s + sum_list (map escape_extra s) + 3) = Some r"
    and q: "q = put r (quote s)"
    by (auto simp: print_string_ptr_def Let_def quote_def no_escapes split: bind_splits if_splits)
  show ?thesis
    unfolding q by (rule put_appended [OF assms(1) r]) (simp add: length_quote)
qed

lemma print_number_appended:
  assumes "settled p" and "print_number P d p = Some q"
  shows "appended p (number_text d) q"
proof -
  from assms(2) obtain r where r: "ensure P p (length (number_text d) + 1) = Some r"
    and q: "q = emit r (number_text d)"
    by (auto simp: print_number_def Let_def split: bind_splits if_splits)
  from emit_extended [OF assms(1) r, of "number_text d"] show ?thesis
    unfolding q by (auto simp: appended_def settled_def extended_def)
qed

lemma print_appended:
  "settled p \<Longrightarrow> json_wf v \<Longrightarrow> print_value P v p = Some q \<Longrightarrow>
     appended p (render_at (pb_format p) (pb_depth p) v) q"
  "settled p \<Longrightarrow> list_all json_wf xs \<Longrightarrow> print_elements P xs p = Some q \<Longrightarrow>
     extended p (elements_at (pb_format p) (pb_depth p) xs) q"
  "settled p \<Longrightarrow> list_all (\<lambda>(k, v). c_string k \<and> json_wf v) kvs \<Longrightarrow>
     print_members P kvs p = Some q \<Longrightarrow>
     extended p (members_at (pb_format p) (pb_depth p) kvs) q"
proof (induction P v p and P xs p and P kvs p arbitrary: q and q and q
       rule: print_value_print_elements_print_members.induct)
  case (7 P xs p)
  from "7.prems" obtain a b c where a: "ensure P p 1 = Some a"
    and b: "print_elements P xs (deepen (emit a ''['')) = Some b"
    and c: "ensure P b 2 = Some c" and q: "q = rise (put c '']'')"
    by (auto split: bind_splits)
  have s: "extended p ''['' (emit a ''['')" by (rule emit_extended [OF "7.prems"(1) a]) simp
  have e: "extended (deepen (emit a ''['')) (elements_at (pb_format p) (Suc (pb_depth p)) xs) b"
    using "7.IH" [OF a _ _ b] extendedD [OF s] "7.prems"(2) by simp
  show ?case
    unfolding q using enclosed [OF s e put_appended [OF extendedD(1) [OF e] c, of "'']''"]] by simp
next
  case (8 P kvs p)
  let ?f = "pb_format p"
  from "8.prems" obtain a where a: "ensure P p (length (brace ?f) + 1) = Some a"
    by (auto split: bind_splits)
  have m: "pb_format a = ?f" using ensure_SomeD(4) [OF a] by (simp add: same_mode_def)
  with "8.prems" a obtain b c where
    b: "print_members P kvs (deepen (emit a (brace ?f))) = Some b"
    and c: "ensure P b (if pb_format b then pb_depth b + 1 else 2) = Some c"
    and q: "q = rise (put c ((if pb_format c then tabs (pb_depth c - 1) else []) @ ''}''))"
    by (auto split: bind_splits)
  have s: "extended p (brace ?f) (emit a (brace ?f))" by (rule emit_extended [OF "8.prems"(1) a]) simp
  have e: "extended (deepen (emit a (brace ?f))) (members_at ?f (Suc (pb_depth p)) kvs) b"
    using "8.IH" [OF a _ _, of b] b m extendedD [OF s] "8.prems"(2) by simp
  have d: "pb_depth c = Suc (pb_depth p)" "pb_format c = ?f" "pb_depth b = Suc (pb_depth p)" "pb_format b = ?f"
    using extendedD(3,4) [OF e] extendedD(3,4) [OF s] ensure_SomeD(4) [OF c] by (simp_all add: same_mode_def)
  have "appended b ((if ?f then tabs (pb_depth p) else []) @ ''}'')
      (put c ((if ?f then tabs (pb_depth p) else []) @ ''}''))"
    by (rule put_appended [OF extendedD(1) [OF e] c]) (use d in simp)
  from enclosed [OF s e this] show ?case by (cases ?f) (simp_all add: q d)
next
  case (10 P x xs p)
  let ?f = "pb_format p" and ?d = "pb_depth p"
  from "10.prems" obtain a b where a: "print_value P x p = Some a"
    and b: "(if xs = [] then Some (update_offset a)
             else do { r \<leftarrow> ensure P (update_offset a) (length (comma (pb_format a)) + 1);
                       Some (emit r (comma (pb_format r))) }) = Some b"
    and c: "print_elements P xs b = Some q"
    by (auto split: bind_splits)
  have x: "json_wf x" "list_all json_wf xs" using "10.prems"(2) by simp_all
  have u: "extended p (render_at ?f ?d x) (update_offset a)"
    by (rule update_offset_appended [OF "10.IH"(1) [OF "10.prems"(1) x(1) a] c_string_render_at(1) [OF x(1)]])
  have sb: "extended (update_offset a) (if xs = [] then [] else comma ?f) b"
  proof (cases "xs = []")
    case True
    with b extended_refl [OF extendedD(1) [OF u]] show ?thesis by simp
  next
    case False
    with b obtain r where r: "ensure P (update_offset a) (length (comma (pb_format a)) + 1) = Some r"
      and b': "b = emit r (comma (pb_format r))"
      by (auto split: bind_splits)
    have f: "pb_format a = ?f" "pb_format r = ?f"
      using extendedD(3) [OF u] ensure_SomeD(4) [OF r] by (simp_all add: same_mode_def update_offset_def)
    show ?thesis
      using emit_extended [OF extendedD(1) [OF u] r, of "comma ?f"] False by (simp add: b' f)
  qed
  note ub = extended_trans [OF u sb]
  from extended_trans [OF ub "10.IH"(2) [OF a b extendedD(1) [OF sb] x(2) c]] extendedD(3,4) [OF ub]
  show ?case by simp
next
  case (12 P kv kvs p)
  let ?f = "pb_format p" and ?d = "pb_depth p"
  from "12.prems" obtain i a b c e where i: "(if ?f
          then do { r \<leftarrow> ensure P p ?d; Some (emit r (tabs (pb_depth r))) } else Some p) = Some i"
    and a: "print_string_ptr P (fst kv) i = Some a"
    and b: "ensure P (update_offset a) (length (colon (pb_format a))) = Some b"
    and c: "print_value P (snd kv) (emit b (colon (pb_format b))) = Some c"
    and e: "ensure P (update_offset c) (length (ending (pb_format c) (kvs = [])) + 1) = Some e"
    and q: "print_members P kvs (emit e (ending (pb_format e) (kvs = []))) = Some q"
    by (auto split: bind_splits)
  have x: "c_string (fst kv)" "json_wf (snd kv)" "list_all (\<lambda>(k, v). c_string k \<and> json_wf v) kvs"
    using "12.prems"(2) by (simp_all add: case_prod_unfold)
  have si: "extended p (if ?f then tabs ?d else []) i"
  proof (cases ?f)
    case True
    with i obtain r where r: "ensure P p ?d = Some r" "i = emit r (tabs (pb_depth r))"
      by (auto split: bind_splits)
    with True emit_extended [OF "12.prems"(1) r(1), of "tabs ?d"] ensure_SomeD(4) [OF r(1)]
    show ?thesis by (simp add: same_mode_def)
  next
    case False
    with i extended_refl [OF "12.prems"(1)] show ?thesis by simp
  qed
  have u: "extended i (quote (fst kv)) (update_offset a)"
    by (rule update_offset_appended [OF print_string_appended [OF extendedD(1) [OF si] a] c_string_quote [OF x(1)]])
  note pu = extended_trans [OF si u]
  have f: "pb_format a = ?f" "pb_format b = ?f"
    using extendedD(3) [OF pu] ensure_SomeD(4) [OF b] by (simp_all add: same_mode_def update_offset_def)
  have w: "extended (update_offset a) (colon ?f) (emit b (colon ?f))"
    by (rule emit_extended [OF extendedD(1) [OF u] b]) (simp add: f)
  note pw = extended_trans [OF pu w]
  have c': "print_value P (snd kv) (emit b (colon ?f)) = Some c" using c f by simp
  have "appended (emit b (colon ?f)) (render_at ?f ?d (snd kv)) c"
    using "12.IH"(1) [OF i a b _ x(2), of c] c' f extendedD(1) [OF w] extendedD(3,4) [OF pw] by simp
  from update_offset_appended [OF this c_string_render_at(1) [OF x(2)]]
  have v: "extended (emit b (colon ?f)) (render_at ?f ?d (snd kv)) (update_offset c)" .
  note pv = extended_trans [OF pw v]
  have g: "pb_format c = ?f" "pb_format e = ?f"
    using extendedD(3) [OF pv] ensure_SomeD(4) [OF e] by (simp_all add: same_mode_def update_offset_def)
  have z: "extended (update_offset c) (ending ?f (kvs = [])) (emit e (ending ?f (kvs = [])))"
    by (rule emit_extended [OF extendedD(1) [OF v] e]) (simp add: g)
  note pz = extended_trans [OF pv z]
  have "extended (emit e (ending ?f (kvs = []))) (members_at ?f ?d kvs) q"
    using "12.IH"(2) [OF i a b c e _ x(3), of q] q g extendedD(1) [OF z] extendedD(3,4) [OF pz] by simp
  from extended_trans [OF pz this] show ?case by simp
qed (auto split: bind_splits dest: print_string_appended print_number_appended
       intro: put_appended extended_refl)

subsection \<open>The printer succeeds when there is room\<close>

text \<open>A text of \<open>n\<close> bytes is far below the buffer's limit of \<^verbatim>\<open>INT_MAX\<close>, and every
  reallocation up to that point succeeds.\<close>

definition roomy :: "platform \<Rightarrow> nat \<Rightarrow> bool" where
  "roomy P n \<longleftrightarrow> n + 5 \<le> nat INT_MAX div 2 \<and> mem_ok P (2 * (n + 5))"

lemma roomy_mono: "roomy P n \<Longrightarrow> m \<le> n \<Longrightarrow> roomy P m"
  by (auto simp: roomy_def mem_ok_def)

text \<open>A buffer can come to hold \<open>n\<close> bytes: the caller's has five bytes to spare, as the header
  file asks for, the growing one has memory.\<close>

definition fits :: "platform \<Rightarrow> printbuffer \<Rightarrow> nat \<Rightarrow> bool" where
  "fits P p n \<longleftrightarrow> (if pb_noalloc p then n + 5 \<le> pb_length p \<and> pb_length p \<le> nat INT_MAX else roomy P n)"

lemma fits_mono: "fits P p n \<Longrightarrow> m \<le> n \<Longrightarrow> fits P p m"
  by (auto simp: fits_def intro: roomy_mono)

lemma fits_same: "same_mode p q \<Longrightarrow> fits P q n = fits P p n"
  by (auto simp: fits_def same_mode_def)

lemma fits_extended: "extended p s q \<Longrightarrow> fits P q n = fits P p n"
  by (rule fits_same) (simp add: extended_def)

lemma fits_deepen [simp]: "fits P (deepen p) n = fits P p n"
  by (simp add: fits_def)

lemma ensure_fits:
  assumes "settled p" and "fits P p n" and "needed + length (pb_out p) + 1 \<le> n + 5"
  obtains q where "ensure P p needed = Some q"
proof -
  have "\<not> pb_length p \<le> pb_offset p" using assms(1) by (simp add: settled_def)
  moreover have "ensure P p needed \<noteq> None" if "pb_noalloc p"
  proof -
    have "needed + pb_offset p + 1 \<le> pb_length p" "needed \<le> nat INT_MAX"
      using assms that by (simp_all add: fits_def settled_def)
    then have "\<not> nat INT_MAX < needed" by simp
    with \<open>needed + pb_offset p + 1 \<le> pb_length p\<close> \<open>\<not> pb_length p \<le> pb_offset p\<close> show ?thesis
      unfolding ensure_def Let_def by (simp only: if_False if_True refl option.simps simp_thms not_False_eq_True)
  qed
  moreover have "ensure P p needed \<noteq> None" if "\<not> pb_noalloc p"
  proof -
    have "\<not> nat INT_MAX < needed" "\<not> nat INT_MAX div 2 < needed + pb_offset p + 1"
      "malloc_ok P ((needed + pb_offset p + 1) * 2)"
      using assms that by (auto simp: fits_def roomy_def settled_def)
    with that \<open>\<not> pb_length p \<le> pb_offset p\<close> show ?thesis
      unfolding ensure_def Let_def by (simp only: if_False if_True refl option.simps split: if_split) simp
  qed
  ultimately show ?thesis using that by blast
qed

lemma print_string_fits:
  assumes "settled p" and "fits P p (length (pb_out p) + length (quote s))"
  obtains q where "print_string_ptr P s p = Some q"
proof -
  obtain r where "ensure P p (length s + sum_list (map escape_extra s) + 3) = Some r"
    by (rule ensure_fits [OF assms, of "length s + sum_list (map escape_extra s) + 3"])
      (auto simp: length_quote)
  then have "print_string_ptr P s p \<noteq> None"
    by (simp add: print_string_ptr_def Let_def)
  then show ?thesis using that by blast
qed

lemma number_text_int_valued: "int_valued d \<Longrightarrow> number_text d = dec_int (valueint d)"
  by (auto elim!: int_valuedE simp: number_text_def)

lemma valueint_range: "INT_MIN \<le> valueint (Fin r)" "valueint (Fin r) \<le> INT_MAX"
proof -
  have "INT_MIN \<le> rtrunc r \<and> rtrunc r \<le> INT_MAX" if "r < of_int INT_MAX" "of_int INT_MIN < r"
    using that unfolding rtrunc_def by (simp add: floor_le_iff le_floor_iff ceiling_le_iff le_ceiling_iff)
  then show "INT_MIN \<le> valueint (Fin r)" "valueint (Fin r) \<le> INT_MAX"
    by (auto simp: valueint_def)
qed

text \<open>Every number fits into the 26 bytes of \<^verbatim>\<open>print_number\<close>.\<close>

lemma number_text_short: "is_double d \<Longrightarrow> length (number_text d) \<le> 25"
proof (cases d)
  case (Fin r)
  assume "is_double d"
  show ?thesis
  proof (cases "r = of_int (valueint d)")
    case True
    have "length (dec_int (valueint d)) \<le> 11"
      unfolding Fin by (intro length_dec_int valueint_range)
    with True Fin show ?thesis by (simp add: number_text_def)
  next
    case False
    show ?thesis
    proof (cases "r = 0")
      case True
      with False Fin show ?thesis by (simp add: valueint_def rtrunc_def)
    next
      case nz: False
      note r = double_range [OF _ nz]
      from \<open>is_double d\<close> Fin have "to_double r = Fin r" by (simp add: is_double_def)
      with length_fmt_g [OF r(1) r(2), of 15] length_fmt_g [OF r(1) r(2), of 17] False Fin
      show ?thesis by (simp add: number_text_def Let_def)
    qed
  qed
qed (simp_all add: number_text_def)

lemma print_number_fits:
  assumes "settled p" and "is_double d" and "fits P p (length (pb_out p) + length (number_text d))"
  obtains q where "print_number P d p = Some q"
proof -
  obtain r where "ensure P p (length (number_text d) + 1) = Some r"
    by (rule ensure_fits [OF assms(1,3), of "length (number_text d) + 1"]) auto
  with number_text_short [OF assms(2)] show ?thesis using that by (simp add: print_number_def Let_def)
qed

text \<open>Trees whose numbers are values of a \<^verbatim>\<open>double\<close>, as those of every C program are.\<close>

fun double_numbers :: "cJSON \<Rightarrow> bool" where
  "double_numbers (cJSON_Number d) = is_double d"
| "double_numbers (cJSON_Array xs) = list_all double_numbers xs"
| "double_numbers (cJSON_Object kvs) = list_all (\<lambda>(k, v). double_numbers v) kvs"
| "double_numbers _ = True"

lemma int_double_numbers: "int_numbers v \<Longrightarrow> double_numbers v"
proof (induction v rule: double_numbers.induct)
  case (1 d)
  then show ?case by (auto elim!: int_valuedE simp: is_double_def c_number)
qed (auto simp: list_all_iff)

lemma print_fits:
  "settled p \<Longrightarrow> json_wf v \<Longrightarrow> double_numbers v \<Longrightarrow>
     fits P p (length (pb_out p) + length (render_at (pb_format p) (pb_depth p) v)) \<Longrightarrow>
     \<exists>q. print_value P v p = Some q"
  "settled p \<Longrightarrow> list_all json_wf xs \<Longrightarrow> list_all double_numbers xs \<Longrightarrow>
     fits P p (length (pb_out p) + length (elements_at (pb_format p) (pb_depth p) xs)) \<Longrightarrow>
     \<exists>q. print_elements P xs p = Some q"
  "settled p \<Longrightarrow> list_all (\<lambda>(k, v). c_string k \<and> json_wf v) kvs \<Longrightarrow>
     list_all (\<lambda>(k, v). double_numbers v) kvs \<Longrightarrow>
     fits P p (length (pb_out p) + length (members_at (pb_format p) (pb_depth p) kvs)) \<Longrightarrow>
     \<exists>q. print_members P kvs p = Some q"
proof (induction P v p and P xs p and P kvs p
       rule: print_value_print_elements_print_members.induct)
  case (1 P p)
  show ?case by (rule ensure_fits [OF "1.prems"(1,4), of 5]) auto
next
  case (2 P p)
  show ?case by (rule ensure_fits [OF "2.prems"(1,4), of 6]) auto
next
  case (3 P p)
  show ?case by (rule ensure_fits [OF "3.prems"(1,4), of 5]) auto
next
  case (4 P d p)
  then show ?case by (auto elim: print_number_fits)
next
  case (5 P s p)
  show ?case by (rule ensure_fits [OF "5.prems"(1,4), of "length s + 1"]) auto
next
  case (6 P s p)
  then show ?case by (auto elim: print_string_fits)
next
  case (7 P xs p)
  let ?f = "pb_format p" and ?d = "pb_depth p"
  obtain a where a: "ensure P p 1 = Some a"
    by (rule ensure_fits [OF "7.prems"(1,4), of 1]) auto
  have s: "extended p ''['' (emit a ''['')" by (rule emit_extended [OF "7.prems"(1) a]) simp
  note sD = extendedD [OF s]
  have x: "list_all json_wf xs" "list_all double_numbers xs" using "7.prems"(2,3) by simp_all
  have "fits P (deepen (emit a ''['')) (length (pb_out (deepen (emit a ''[''))) + length (elements_at ?f (Suc ?d) xs))"
    unfolding fits_deepen fits_extended [OF s]
    by (rule fits_mono [OF "7.prems"(4)]) (use sD(2) in simp)
  with "7.IH" [OF a _ x] sD obtain b where b: "print_elements P xs (deepen (emit a ''['')) = Some b"
    by auto
  have e: "extended (deepen (emit a ''['')) (elements_at ?f (Suc ?d) xs) b"
    using print_appended(2) [OF _ x(1) b] sD by simp
  have "fits P b (length (pb_out p) + length (render_at ?f ?d (cJSON_Array xs)))"
    using "7.prems"(4) by (simp only: fits_extended [OF e] fits_deepen fits_extended [OF s])
  then obtain c where "ensure P b 2 = Some c"
    by (rule ensure_fits [OF extendedD(1) [OF e], of P _ 2]) (use extendedD(2) [OF e] sD(2) in simp)
  with a b show ?case by simp
next
  case (8 P kvs p)
  let ?f = "pb_format p" and ?d = "pb_depth p"
  obtain a where a: "ensure P p (length (brace ?f) + 1) = Some a"
    by (rule ensure_fits [OF "8.prems"(1,4), of "length (brace ?f) + 1"]) auto
  have s: "extended p (brace ?f) (emit a (brace ?f))" by (rule emit_extended [OF "8.prems"(1) a]) simp
  note sD = extendedD [OF s]
  have m: "pb_format a = ?f" using sD(3) by simp
  have x: "list_all (\<lambda>(k, v). c_string k \<and> json_wf v) kvs" "list_all (\<lambda>(k, v). double_numbers v) kvs"
    using "8.prems"(2,3) by simp_all
  have "fits P (deepen (emit a (brace ?f)))
      (length (pb_out (deepen (emit a (brace ?f)))) + length (members_at ?f (Suc ?d) kvs))"
    unfolding fits_deepen fits_extended [OF s]
    by (rule fits_mono [OF "8.prems"(4)]) (use sD(2) in simp)
  with "8.IH" [OF a _ x] sD m obtain b where b: "print_members P kvs (deepen (emit a (brace ?f))) = Some b"
    by auto
  have e: "extended (deepen (emit a (brace ?f))) (members_at ?f (Suc ?d) kvs) b"
    using print_appended(3) [OF _ x(1) b] sD by simp
  have d: "pb_depth b = Suc ?d" "pb_format b = ?f"
    using extendedD(3,4) [OF e] sD by simp_all
  have "fits P b (length (pb_out p) + length (render_at ?f ?d (cJSON_Object kvs)))"
    using "8.prems"(4) by (simp only: fits_extended [OF e] fits_deepen fits_extended [OF s])
  then obtain c where "ensure P b (if pb_format b then pb_depth b + 1 else 2) = Some c"
    by (rule ensure_fits [OF extendedD(1) [OF e], of P _ "if pb_format b then pb_depth b + 1 else 2"])
       (use extendedD(2) [OF e] sD(2) d in simp)
  with a b m show ?case by simp
next
  case (10 P x xs p)
  let ?f = "pb_format p" and ?d = "pb_depth p"
  have x: "json_wf x" "list_all json_wf xs" "double_numbers x" "list_all double_numbers xs"
    using "10.prems"(2,3) by simp_all
  have "fits P p (length (pb_out p) + length (render_at ?f ?d x))"
    by (rule fits_mono [OF "10.prems"(4)]) simp
  from "10.IH"(1) [OF "10.prems"(1) x(1,3) this] obtain a where a: "print_value P x p = Some a"
    by blast
  have u: "extended p (render_at ?f ?d x) (update_offset a)"
    by (rule update_offset_appended [OF print_appended(1) [OF "10.prems"(1) x(1) a] c_string_render_at(1) [OF x(1)]])
  note uD = extendedD [OF u]
  have f: "pb_format a = ?f" using uD(3) by (simp add: update_offset_def)
  show ?case
  proof (cases "xs = []")
    case True
    with a show ?thesis by simp
  next
    case False
    have "fits P (update_offset a) (length (pb_out p) + length (elements_at ?f ?d (x # xs)))"
      using "10.prems"(4) by (simp only: fits_extended [OF u])
    then obtain r where r: "ensure P (update_offset a) (length (comma (pb_format a)) + 1) = Some r"
      by (rule ensure_fits [OF uD(1), of P _ "length (comma (pb_format a)) + 1"]) (auto simp: uD(2) False f)
    have rf: "pb_format r = ?f" using ensure_SomeD(4) [OF r] uD(3) by (simp add: same_mode_def)
    have s: "extended (update_offset a) (comma ?f) (emit r (comma ?f))"
      by (rule emit_extended [OF uD(1) r]) (simp add: f)
    note v = extended_trans [OF u s]
    note vD = extendedD [OF v]
    have fit: "fits P (emit r (comma ?f)) (length (pb_out (emit r (comma ?f))) + length (elements_at ?f ?d xs))"
      unfolding fits_extended [OF v] by (rule fits_mono [OF "10.prems"(4)]) (simp add: vD(2) False)
    have step: "(if xs = [] then Some (update_offset a)
        else do { p \<leftarrow> ensure P (update_offset a) (length (comma (pb_format a)) + 1);
                  Some (emit p (comma (pb_format p))) }) = Some (emit r (comma ?f))"
      using False r rf by simp
    from "10.IH"(2) [OF a _ vD(1) x(2,4)] fit step vD(3,4) obtain q where
      "print_elements P xs (emit r (comma ?f)) = Some q" by (auto simp: update_offset_def f)
    with a r rf False show ?thesis by (simp add: update_offset_def f)
  qed
next
  case (12 P kv kvs p)
  let ?f = "pb_format p" and ?d = "pb_depth p"
  note room = "12.prems"(4)
  have x: "c_string (fst kv)" "json_wf (snd kv)" "list_all (\<lambda>(k, v). c_string k \<and> json_wf v) kvs"
    "double_numbers (snd kv)" "list_all (\<lambda>(k, v). double_numbers v) kvs"
    using "12.prems"(2,3) by (simp_all add: case_prod_unfold)
  obtain i where i: "(if ?f
          then do { r \<leftarrow> ensure P p ?d; Some (emit r (tabs (pb_depth r))) } else Some p) = Some i"
    and si: "extended p (if ?f then tabs ?d else []) i"
  proof (cases ?f)
    case True
    obtain r where r: "ensure P p ?d = Some r"
      by (rule ensure_fits [OF "12.prems"(1) room, of ?d]) (simp add: True)
    moreover have "pb_depth r = ?d" using ensure_SomeD(4) [OF r] by (simp add: same_mode_def)
    ultimately show ?thesis
      using that [of "emit r (tabs ?d)"] emit_extended [OF "12.prems"(1) r, of "tabs ?d"] True by simp
  next
    case False
    then show ?thesis using that [of p] extended_refl [OF "12.prems"(1)] by simp
  qed
  note iD = extendedD [OF si]
  have "fits P i (length (pb_out i) + length (quote (fst kv)))"
    unfolding fits_extended [OF si] by (rule fits_mono [OF room]) (simp add: iD(2))
  then obtain a where a: "print_string_ptr P (fst kv) i = Some a"
    by (rule print_string_fits [OF iD(1)])
  have u: "extended i (quote (fst kv)) (update_offset a)"
    by (rule update_offset_appended [OF print_string_appended [OF iD(1) a] c_string_quote [OF x(1)]])
  note pu = extended_trans [OF si u]
  note uD = extendedD [OF pu]
  have fa: "pb_format a = ?f" using uD(3) by (simp add: update_offset_def)
  have "fits P (update_offset a) (length (pb_out p) + length (members_at ?f ?d (kv # kvs)))"
    using room by (simp only: fits_extended [OF pu])
  then obtain b where b: "ensure P (update_offset a) (length (colon (pb_format a))) = Some b"
    by (rule ensure_fits [OF uD(1), of P _ "length (colon (pb_format a))"]) (simp add: uD(2) fa)
  have fb: "pb_format b = ?f" using ensure_SomeD(4) [OF b] uD(3) by (simp add: same_mode_def)
  have w: "extended (update_offset a) (colon ?f) (emit b (colon ?f))"
    by (rule emit_extended [OF uD(1) b]) (simp add: fa)
  note pw = extended_trans [OF pu w]
  note wD = extendedD [OF pw]
  have fit: "fits P (emit b (colon ?f)) (length (pb_out (emit b (colon ?f))) + length (render_at ?f ?d (snd kv)))"
    unfolding fits_extended [OF pw] by (rule fits_mono [OF room]) (simp add: wD(2))
  from "12.IH"(1) [OF i a b _ x(2,4)] fit fb wD
  obtain c where c: "print_value P (snd kv) (emit b (colon ?f)) = Some c" by auto
  have "appended (emit b (colon ?f)) (render_at ?f ?d (snd kv)) c"
    using print_appended(1) [OF wD(1) x(2) c] wD by simp
  from update_offset_appended [OF this c_string_render_at(1) [OF x(2)]]
  have v: "extended (emit b (colon ?f)) (render_at ?f ?d (snd kv)) (update_offset c)" .
  note pv = extended_trans [OF pw v]
  note vD = extendedD [OF pv]
  have fc: "pb_format c = ?f" using vD(3) by (simp add: update_offset_def)
  have "fits P (update_offset c) (length (pb_out p) + length (members_at ?f ?d (kv # kvs)))"
    using room by (simp only: fits_extended [OF pv])
  then obtain e where e: "ensure P (update_offset c) (length (ending (pb_format c) (kvs = [])) + 1) = Some e"
    by (rule ensure_fits [OF vD(1), of P _ "length (ending (pb_format c) (kvs = [])) + 1"]) (simp add: vD(2) fc)
  have fe: "pb_format e = ?f" using ensure_SomeD(4) [OF e] vD(3) by (simp add: same_mode_def)
  have z: "extended (update_offset c) (ending ?f (kvs = [])) (emit e (ending ?f (kvs = [])))"
    by (rule emit_extended [OF vD(1) e]) (simp add: fc)
  note pz = extended_trans [OF pv z]
  note zD = extendedD [OF pz]
  have fit: "fits P (emit e (ending ?f (kvs = [])))
      (length (pb_out (emit e (ending ?f (kvs = [])))) + length (members_at ?f ?d kvs))"
    unfolding fits_extended [OF pz] by (rule fits_mono [OF room]) (simp add: zD(2))
  have c': "print_value P (snd kv) (emit b (colon (pb_format b))) = Some c" using c fb by simp
  from "12.IH"(2) [OF i a b c' e _ x(3,5)] fit fe zD
  obtain q where "print_members P kvs (emit e (ending ?f (kvs = []))) = Some q" by auto
  with i a b c e fa fb fc fe show ?case by (simp add: update_offset_def)
qed auto

subsection \<open>Printing a whole tree\<close>

lemma print_render:
  assumes "json_wf v" and "cJSON_print P v fmt = Some s"
  shows "s = render_at fmt 0 v"
proof -
  let ?p = "\<lparr>pb_out = [], pb_offset = 0, pb_length = 256, pb_depth = 0, pb_noalloc = False, pb_format = fmt\<rparr>"
  have p: "settled ?p" by (simp add: settled_def)
  from assms(2) obtain q where q: "print_value P v ?p = Some q"
    and s: "s = take (pb_offset (update_offset q)) (pb_out (update_offset q))"
    by (auto simp: cJSON_print_def Let_def split: if_splits bind_splits)
  from update_offset_appended [OF print_appended(1) [OF p assms(1) q] c_string_render_at(1) [OF assms(1)]]
  show ?thesis by (simp add: s settled_def extended_def)
qed

lemma print_ok:
  assumes "json_wf v" and "double_numbers v" and "roomy P (length (render_at fmt 0 v))" and "malloc_ok P 256"
  shows "cJSON_print P v fmt = Some (render_at fmt 0 v)"
proof -
  let ?p = "\<lparr>pb_out = [], pb_offset = 0, pb_length = 256, pb_depth = 0, pb_noalloc = False, pb_format = fmt\<rparr>"
  have p: "settled ?p" by (simp add: settled_def)
  from print_fits(1) [OF p assms(1,2), of P] assms(3) obtain q where q: "print_value P v ?p = Some q"
    by (auto simp: fits_def)
  from update_offset_appended [OF print_appended(1) [OF p assms(1) q] c_string_render_at(1) [OF assms(1)]]
  have "settled (update_offset q)" "pb_out (update_offset q) = render_at fmt 0 v" by (simp_all add: extended_def)
  moreover from this assms(3) have "malloc_ok P (pb_offset (update_offset q) + 1)"
    by (auto simp: roomy_def settled_def)
  ultimately show ?thesis
    using assms(4) q by (simp add: cJSON_print_def Let_def settled_def)
qed

lemma print_unformatted_render:
  "json_wf v \<Longrightarrow> cJSON_PrintUnformatted P v = Some s \<Longrightarrow> s = render v"
  using print_render [of v P False s] by (simp add: cJSON_PrintUnformatted_def)

lemma print_unformatted_ok:
  "json_wf v \<Longrightarrow> int_numbers v \<Longrightarrow> roomy P (length (render v)) \<Longrightarrow> malloc_ok P 256 \<Longrightarrow>
     cJSON_PrintUnformatted P v = Some (render v)"
  using print_ok [of v P False] int_double_numbers [of v] by (simp add: cJSON_PrintUnformatted_def)

lemma print_buffered_render:
  assumes "json_wf v" and "0 < prebuffer" and "cJSON_PrintBuffered P v prebuffer fmt = Some s"
  shows "s = render_at fmt 0 v"
proof -
  let ?p = "\<lparr>pb_out = [], pb_offset = 0, pb_length = nat prebuffer, pb_depth = 0, pb_noalloc = False, pb_format = fmt\<rparr>"
  obtain q where q: "print_value P v ?p = Some q" "s = pb_out q"
    using assms(2,3) by (auto simp: cJSON_PrintBuffered_def split: if_splits)
  have "settled ?p" using assms(2) by (simp add: settled_def)
  from print_appended(1) [OF this assms(1) q(1)] q(2) show ?thesis by (simp add: appended_def)
qed

lemma print_buffered_ok:
  assumes "json_wf v" and "double_numbers v" and "roomy P (length (render_at fmt 0 v))"
    and "0 < prebuffer" and "malloc_ok P (nat prebuffer)"
  shows "cJSON_PrintBuffered P v prebuffer fmt = Some (render_at fmt 0 v)"
proof -
  let ?p = "\<lparr>pb_out = [], pb_offset = 0, pb_length = nat prebuffer, pb_depth = 0, pb_noalloc = False, pb_format = fmt\<rparr>"
  have p: "settled ?p" using assms(4) by (simp add: settled_def)
  obtain q where "print_value P v ?p = Some q"
    using print_fits(1) [OF p assms(1,2), of P] assms(3) by (auto simp: fits_def)
  moreover from print_appended(1) [OF p assms(1) this] have "pb_out q = render_at fmt 0 v"
    by (simp add: appended_def)
  ultimately show ?thesis using assms(4,5) by (simp add: cJSON_PrintBuffered_def)
qed

text \<open>In the caller's buffer: what is printed is the text and stays inside, and five bytes more
  than the text is room enough.\<close>

lemma print_preallocated_render:
  assumes "json_wf v" and "0 < len" and "cJSON_PrintPreallocated P v len fmt = Some s"
  shows "s = render_at fmt 0 v \<and> int (length s) < len"
proof -
  let ?p = "\<lparr>pb_out = [], pb_offset = 0, pb_length = nat len, pb_depth = 0, pb_noalloc = True, pb_format = fmt\<rparr>"
  obtain q where q: "print_value P v ?p = Some q" "s = pb_out q"
    using assms(2,3) by (auto simp: cJSON_PrintPreallocated_def split: if_splits)
  have "settled ?p" using assms(2) by (simp add: settled_def)
  from print_appended(1) [OF this assms(1) q(1)] q(2)
  have "s = render_at fmt 0 v" "length s < nat len" by (auto simp: appended_def same_mode_def)
  with assms(2) show ?thesis by linarith
qed

lemma print_preallocated_ok:
  assumes "json_wf v" and "double_numbers v" and "int (length (render_at fmt 0 v)) + 5 \<le> len" and "len \<le> INT_MAX"
  shows "cJSON_PrintPreallocated P v len fmt = Some (render_at fmt 0 v)"
proof -
  let ?p = "\<lparr>pb_out = [], pb_offset = 0, pb_length = nat len, pb_depth = 0, pb_noalloc = True, pb_format = fmt\<rparr>"
  have p: "settled ?p" using assms(3) by (simp add: settled_def)
  have "length (render_at fmt 0 v) + 5 \<le> nat len" "nat len \<le> nat INT_MAX" using assms(3,4) by linarith+
  then obtain q where "print_value P v ?p = Some q"
    using print_fits(1) [OF p assms(1,2), of P] by (auto simp: fits_def)
  moreover from print_appended(1) [OF p assms(1) this] have "pb_out q = render_at fmt 0 v"
    by (simp add: appended_def)
  ultimately show ?thesis using assms(3) by (simp add: cJSON_PrintPreallocated_def)
qed

end
