(* ===== verification/Cjson_Parse.thy ===== *)
theory Cjson_Parse
  imports Cjson_Tree
begin

unbundle bit_operations_syntax

text \<open>
  \<^verbatim>\<open>cJSON_Parse\<close>: the recursive-descent parser of \<^verbatim>\<open>src/cJSON/cJSON.c\<close>. The parse
  buffer is represented by what is left of it, from the current offset to its end; the
  buffer of \<^verbatim>\<open>cJSON_Parse\<close> includes the terminating NUL of its argument. A parser returns
  the tree and what is left, or \<^verbatim>\<open>None\<close> for the C function's \<^verbatim>\<open>false\<close>. The position
  that \<^verbatim>\<open>cJSON_GetErrorPtr\<close> would report after a failure is not represented, since the
  library never asks for it.
\<close>

abbreviation QUOTE :: char where "QUOTE \<equiv> CHR 0x22"
abbreviation BSL :: char where "BSL \<equiv> CHR 0x5C"

subsection \<open>White space and the byte order mark\<close>

text \<open>\<^verbatim>\<open>buffer_skip_whitespace\<close>; when it reaches the end of the buffer it steps back to
  the last byte.\<close>

definition skip_whitespace :: "byte list \<Rightarrow> byte list" where
  "skip_whitespace r =
     (if r = [] then []
      else let s = dropWhile (\<lambda>c. code c \<le> 32) r in if s = [] then [last r] else s)"

definition skip_utf8_bom :: "byte list \<Rightarrow> byte list" where
  "skip_utf8_bom r =
     (if 4 < length r \<and> take 3 r = [CHR 0xEF, CHR 0xBB, CHR 0xBF] then drop 3 r else r)"

subsection \<open>Numbers\<close>

definition is_number_char :: "char \<Rightarrow> bool" where
  "is_number_char c \<longleftrightarrow> isdigit c \<or> c \<in> {CHR ''+'', CHR ''-'', CHR ''e'', CHR ''E'', CHR ''.''}"

text \<open>At most 63 characters are copied for \<^verbatim>\<open>strtod\<close>; the offset moves by what it consumed.\<close>

definition parse_number :: "byte list \<Rightarrow> (cJSON \<times> byte list) option" where
  "parse_number r =
     (let number_c_string = takeWhile is_number_char (take 63 r)
      in case strtod number_c_string of
           (number, n) \<Rightarrow> if n = 0 then None else Some (cJSON_Number number, drop n r))"

subsection \<open>Strings\<close>

text \<open>\<^verbatim>\<open>parse_hex4\<close>: four hexadecimal digits, 0 when one is not.\<close>

definition hex_value :: "char \<Rightarrow> 32 word option" where
  "hex_value c =
     (if 48 \<le> code c \<and> code c \<le> 57 then Some (of_nat (code c) - 48)
      else if 65 \<le> code c \<and> code c \<le> 70 then Some (10 + of_nat (code c) - 65)
      else if 97 \<le> code c \<and> code c \<le> 102 then Some (10 + of_nat (code c) - 97)
      else None)"

fun parse_hex4_from :: "nat \<Rightarrow> 32 word \<Rightarrow> string \<Rightarrow> 32 word" where
  "parse_hex4_from i h (c # s) =
     (case hex_value c of
        None \<Rightarrow> 0
      | Some x \<Rightarrow>
          (if i < 3 then parse_hex4_from (Suc i) (push_bit 4 (h + x)) s else h + x))"
| "parse_hex4_from i h [] = 0"

definition parse_hex4 :: "string \<Rightarrow> 32 word" where
  "parse_hex4 s = parse_hex4_from 0 0 s"

text \<open>The trailing bytes of a UTF-8 sequence: the last byte takes the low six bits.\<close>

fun utf8_tail :: "nat \<Rightarrow> 64 word \<Rightarrow> byte list \<Rightarrow> byte list \<times> 64 word" where
  "utf8_tail 0 cp acc = (acc, cp)"
| "utf8_tail (Suc n) cp acc =
     utf8_tail n (drop_bit 6 cp) (char_of (unat ((cp OR 0x80) AND 0xBF)) # acc)"

definition utf8_encode :: "64 word \<Rightarrow> byte list option" where
  "utf8_encode cp =
     (let enc = (\<lambda>len mark.
            (case utf8_tail (len - 1) cp [] of
               (tail, cp') \<Rightarrow>
                 (if 1 < len then char_of (unat ((cp' OR mark) AND 0xFF)) # tail
                  else char_of (unat (cp' AND 0x7F)) # tail)))
      in if cp < 0x80 then Some (enc 1 0)
         else if cp < 0x800 then Some (enc 2 0xC0)
         else if cp < 0x10000 then Some (enc 3 0xE0)
         else if cp \<le> 0x10FFFF then Some (enc 4 0xF0)
         else None)"

text \<open>
  \<^verbatim>\<open>utf16_literal_to_utf8\<close> on the input from the backslash to the closing quote: the
  bytes written and the number of characters consumed, or \<^verbatim>\<open>None\<close> for failure.
\<close>

definition utf16_literal_to_utf8 :: "string \<Rightarrow> (byte list \<times> nat) option" where
  "utf16_literal_to_utf8 s =
     (if length s < 6 then None
      else let first_code = parse_hex4 (take 4 (drop 2 s))
           in if 0xDC00 \<le> first_code \<and> first_code \<le> 0xDFFF then None
              else if 0xD800 \<le> first_code \<and> first_code \<le> 0xDBFF
              then let second = drop 6 s
                   in if length second < 6 then None
                      else if take 2 second \<noteq> [BSL, CHR ''u''] then None
                      else let second_code = parse_hex4 (take 4 (drop 2 second))
                           in if second_code < 0xDC00 \<or> 0xDFFF < second_code then None
                              else map_option (\<lambda>u. (u, 12))
                                     (utf8_encode
                                        (0x10000 + ucast (push_bit 10 (first_code AND 0x3FF)
                                                          OR (second_code AND 0x3FF))))
              else map_option (\<lambda>u. (u, 6)) (utf8_encode (ucast first_code)))"

text \<open>
  The first loop of \<^verbatim>\<open>parse_string\<close>, from after the opening quote: the characters up to
  the closing quote, the number of escapes skipped, and the buffer from the closing quote.
\<close>

fun scan_string :: "byte list \<Rightarrow> (string \<times> nat \<times> byte list) option" where
  "scan_string [] = None"
| "scan_string (c # t) =
     (if c = QUOTE then Some ([], 0, c # t)
      else if c = BSL
      then (case t of
              [] \<Rightarrow> None
            | e # u \<Rightarrow> map_option (\<lambda>(b, k, q). (c # e # b, Suc k, q)) (scan_string u))
      else map_option (\<lambda>(b, k, q). (c # b, k, q)) (scan_string t))"

text \<open>
  The second loop: the characters before the closing quote, with the escapes replaced. A
  backslash that is the last of them (after a literal whose digits were not hexadecimal)
  reads the closing quote as its escape character.
\<close>

function unescape :: "string \<Rightarrow> byte list option" where
  "unescape [] = Some []"
| "unescape (c # t) =
     (if c \<noteq> BSL then map_option ((#) c) (unescape t)
      else let e = (case t of [] \<Rightarrow> QUOTE | x # _ \<Rightarrow> x)
           in if e = CHR ''b'' then map_option ((#) (CHR 0x08)) (unescape (drop 1 t))
              else if e = CHR ''f'' then map_option ((#) (CHR 0x0C)) (unescape (drop 1 t))
              else if e = CHR ''n'' then map_option ((#) (CHR 0x0A)) (unescape (drop 1 t))
              else if e = CHR ''r'' then map_option ((#) (CHR 0x0D)) (unescape (drop 1 t))
              else if e = CHR ''t'' then map_option ((#) (CHR 0x09)) (unescape (drop 1 t))
              else if e = QUOTE \<or> e = BSL \<or> e = CHR ''/''
              then map_option ((#) e) (unescape (drop 1 t))
              else if e = CHR ''u''
              then (case utf16_literal_to_utf8 (c # t) of
                      None \<Rightarrow> None
                    | Some (u, n) \<Rightarrow> map_option ((@) u) (unescape (drop (n - 1) t)))
              else None)"
  by pat_completeness auto
termination
  by (relation "measure length") auto

definition parse_string :: "platform \<Rightarrow> byte list \<Rightarrow> (string \<times> byte list) option" where
  "parse_string P r =
     (case r of
        [] \<Rightarrow> None
      | c # t \<Rightarrow>
          if c \<noteq> QUOTE then None
          else (case scan_string t of
                  None \<Rightarrow> None
                | Some (body, skipped, q) \<Rightarrow>
                    if malloc_ok P (length body + 1 - skipped + 1)
                    then (case unescape body of
                            None \<Rightarrow> None
                          | Some out \<Rightarrow> Some (cstr out, drop 1 q))
                    else None))"

lemma scan_string_shorter:
  "scan_string t = Some (b, k, q) \<Longrightarrow> length q \<le> length t \<and> q \<noteq> []"
proof (induction t arbitrary: b k q rule: scan_string.induct)
  case (2 c t)
  show ?case
  proof (cases "c = QUOTE")
    case True
    with "2.prems" show ?thesis by auto
  next
    case q: False
    show ?thesis
    proof (cases "c = BSL")
      case True
      show ?thesis
      proof (cases t)
        case (Cons e u)
        with "2.prems" True obtain b' k' where "scan_string u = Some (b', k', q)" by auto
        from "2.IH"(1) [OF q True Cons this] Cons show ?thesis by simp
      qed (use "2.prems" True in simp)
    next
      case False
      with "2.prems" q obtain b' where "scan_string t = Some (b', k, q)" by auto
      from "2.IH"(2) [OF q False this] show ?thesis by simp
    qed
  qed
qed simp

lemma parse_string_shorter: "parse_string P r = Some (s, q) \<Longrightarrow> length q < length r"
  by (auto simp: parse_string_def split: list.splits if_splits option.splits
      dest!: scan_string_shorter)

lemma parse_number_shorter: "parse_number r = Some (v, q) \<Longrightarrow> length q < length r \<or> r = []"
  by (auto simp: parse_number_def Let_def split: prod.splits if_splits)

lemma skip_whitespace_length: "length (skip_whitespace r) \<le> length r"
  by (cases r) (auto simp: skip_whitespace_def Let_def le_SucI length_dropWhile_le)

subsection \<open>Values\<close>

abbreviation CJSON_NESTING_LIMIT :: nat where
  "CJSON_NESTING_LIMIT \<equiv> 1000"

text \<open>
  The first argument after the platform is the nesting depth. In the two loops the buffer is
  just behind the bracket or comma.
\<close>

function parse_value :: "platform \<Rightarrow> nat \<Rightarrow> byte list \<Rightarrow> (cJSON \<times> byte list) option"
  and parse_elements :: "platform \<Rightarrow> nat \<Rightarrow> byte list \<Rightarrow> (cJSON list \<times> byte list) option"
  and parse_members :: "platform \<Rightarrow> nat \<Rightarrow> byte list \<Rightarrow> ((string \<times> cJSON) list \<times> byte list) option"
where
  "parse_value P d r =
     (if take 4 r = ''null'' then Some (cJSON_NULL, drop 4 r)
      else if take 5 r = ''false'' then Some (cJSON_False, drop 5 r)
      else if take 4 r = ''true'' then Some (cJSON_True, drop 4 r)
      else (case r of
              [] \<Rightarrow> None
            | c # t \<Rightarrow>
                if c = QUOTE
                then map_option (\<lambda>(s, q). (cJSON_String s, q)) (parse_string P r)
                else if c = CHR ''-'' \<or> isdigit c then parse_number r
                else if c = CHR ''[''
                then (if CJSON_NESTING_LIMIT \<le> d then None
                      else (case skip_whitespace t of
                              [] \<Rightarrow> None
                            | e # u \<Rightarrow>
                                if e = CHR '']'' then Some (cJSON_Array [], u)
                                else map_option (\<lambda>(xs, q). (cJSON_Array xs, q))
                                       (parse_elements P (Suc d) (e # u))))
                else if c = CHR ''{''
                then (if CJSON_NESTING_LIMIT \<le> d then None
                      else (case skip_whitespace t of
                              [] \<Rightarrow> None
                            | e # u \<Rightarrow>
                                if e = CHR ''}'' then Some (cJSON_Object [], u)
                                else map_option (\<lambda>(kvs, q). (cJSON_Object kvs, q))
                                       (parse_members P (Suc d) (e # u))))
                else None))"
| "parse_elements P d r =
     (if \<not> malloc_ok P sizeof_cJSON then None
      else (case parse_value P d (skip_whitespace r) of
              None \<Rightarrow> None
            | Some (v, q) \<Rightarrow>
                (case skip_whitespace q of
                   [] \<Rightarrow> None
                 | c # t \<Rightarrow>
                     if c = CHR '',''
                     then map_option (\<lambda>(vs, u). (v # vs, u)) (parse_elements P d t)
                     else if c = CHR '']'' then Some ([v], t)
                     else None)))"
| "parse_members P d r =
     (if \<not> malloc_ok P sizeof_cJSON \<or> r = [] then None
      else (case parse_string P (skip_whitespace r) of
              None \<Rightarrow> None
            | Some (k, q) \<Rightarrow>
                (case skip_whitespace q of
                   [] \<Rightarrow> None
                 | c # t \<Rightarrow>
                     if c \<noteq> CHR '':'' then None
                     else (case parse_value P d (skip_whitespace t) of
                             None \<Rightarrow> None
                           | Some (v, w) \<Rightarrow>
                               (case skip_whitespace w of
                                  [] \<Rightarrow> None
                                | e # u \<Rightarrow>
                                    if e = CHR '',''
                                    then map_option (\<lambda>(kvs, z). ((k, v) # kvs, z))
                                           (parse_members P d u)
                                    else if e = CHR ''}'' then Some ([(k, v)], u)
                                    else None)))))"
  by pat_completeness auto

text \<open>Every successful call consumes input: proved on the functions' domain first, then used
  for their termination.\<close>

lemma skip_whitespace_SomeD: "skip_whitespace r = c # t \<Longrightarrow> length t < length r"
  using skip_whitespace_length [of r] by simp

lemma parse_shrinks:
  "parse_value_parse_elements_parse_members_dom (Inl (P, d, r)) \<Longrightarrow>
     (\<And>v q. parse_value P d r = Some (v, q) \<Longrightarrow> length q < length r)"
  "parse_value_parse_elements_parse_members_dom (Inr (Inl (P, d, r))) \<Longrightarrow>
     (\<And>vs q. parse_elements P d r = Some (vs, q) \<Longrightarrow> length q < length r)"
  "parse_value_parse_elements_parse_members_dom (Inr (Inr (P, d, r))) \<Longrightarrow>
     (\<And>kvs q. parse_members P d r = Some (kvs, q) \<Longrightarrow> length q < length r)"
proof (induction P d r and P d r and P d r
       rule: parse_value_parse_elements_parse_members.pinduct)
  case (1 P d r)
  note res = "1.prems" [unfolded parse_value.psimps [OF "1.hyps"]]
  show ?case
  proof (cases "take 4 r = ''null'' \<or> take 5 r = ''false'' \<or> take 4 r = ''true''")
    case True
    then have "r \<noteq> []" by auto
    with True res show ?thesis by (auto split: if_splits)
  next
    case lit: False
    then have l: "take 4 r \<noteq> ''null''" "take 5 r \<noteq> ''false''" "take 4 r \<noteq> ''true''" by simp_all
    note res = res [unfolded if_not_P [OF l(1)] if_not_P [OF l(2)] if_not_P [OF l(3)]]
    show ?thesis
    proof (cases r)
      case Nil
      with res show ?thesis by simp
    next
      case (Cons c t)
      note res = res [unfolded Cons list.case]
      consider "c = QUOTE" | "c \<noteq> QUOTE" "c = CHR ''-'' \<or> isdigit c"
        | "c = CHR ''[''" | "c = CHR ''{''" | "c \<noteq> QUOTE" "\<not> (c = CHR ''-'' \<or> isdigit c)"
          "c \<noteq> CHR ''[''" "c \<noteq> CHR ''{''"
        by blast
      then consider (arr) e u xs where "c = CHR ''[''" "\<not> CJSON_NESTING_LIMIT \<le> d"
          "skip_whitespace t = e # u" "e \<noteq> CHR '']''" "parse_elements P (Suc d) (e # u) = Some (xs, q)"
        | (obj) e u kvs where "c = CHR ''{''" "\<not> CJSON_NESTING_LIMIT \<le> d"
          "skip_whitespace t = e # u" "e \<noteq> CHR ''}''" "parse_members P (Suc d) (e # u) = Some (kvs, q)"
        | (flat) "length q < length r"
      proof cases
        case 1
        with res Cons obtain s where "parse_string P r = Some (s, q)" by auto
        from that(3) [OF parse_string_shorter [OF this]] show ?thesis .
      next
        case 2
        with res Cons have "parse_number r = Some (v, q)" by simp
        from that(3) parse_number_shorter [OF this] Cons show ?thesis by simp
      next
        case 3
        with res Cons that(1,3) show ?thesis
          by (simp add: isdigit_def split: if_splits list.splits) (auto dest!: skip_whitespace_SomeD)
      next
        case 4
        with res Cons that(2,3) show ?thesis
          by (simp add: isdigit_def split: if_splits list.splits) (auto dest!: skip_whitespace_SomeD)
      next
        case 5
        with res show ?thesis by simp
      qed
      then show ?thesis
      proof cases
        case arr
        with "1.IH"(1) lit Cons have "length q < length (e # u)" by (auto simp: isdigit_def)
        with arr(3) Cons skip_whitespace_length [of t] show ?thesis by simp
      next
        case obj
        with "1.IH"(2) lit Cons have "length q < length (e # u)" by (auto simp: isdigit_def)
        with obj(3) Cons skip_whitespace_length [of t] show ?thesis by simp
      qed
    qed
  qed
next
  case (2 P d r)
  note res = "2.prems" [unfolded parse_elements.psimps [OF "2.hyps"]]
  from res obtain v w where m: "malloc_ok P sizeof_cJSON"
    and v: "parse_value P d (skip_whitespace r) = Some (v, w)"
    by (auto split: if_splits option.splits)
  have w: "length w < length r"
    using "2.IH"(1) [OF _ v] m skip_whitespace_length [of r] by simp
  obtain c t where c: "skip_whitespace w = c # t"
    using res m v by (cases "skip_whitespace w") auto
  have t: "length t < length r"
    using w skip_whitespace_SomeD [OF c] by simp
  show ?case
  proof (cases "c = CHR '',''")
    case True
    with res m v c obtain us where "parse_elements P d t = Some (us, q)" by auto
    with "2.IH"(2) [OF _ v refl c True] m t show ?thesis by force
  next
    case False
    with res m v c t show ?thesis by (auto split: if_splits)
  qed
next
  case (3 P d r)
  note res = "3.prems" [unfolded parse_members.psimps [OF "3.hyps"]]
  from res have m: "\<not> (\<not> malloc_ok P sizeof_cJSON \<or> r = [])" by (auto split: if_splits)
  obtain k w where k: "parse_string P (skip_whitespace r) = Some (k, w)"
    using res m by (cases "parse_string P (skip_whitespace r)") auto
  have w: "length w < length r"
    using parse_string_shorter [OF k] skip_whitespace_length [of r] by simp
  obtain c t where c: "skip_whitespace w = c # t"
    using res m k by (cases "skip_whitespace w") auto
  have t: "length t < length r" using w skip_whitespace_SomeD [OF c] by simp
  have colon: "\<not> c \<noteq> CHR '':''" using res m k c by (auto split: if_splits)
  obtain v y where v: "parse_value P d (skip_whitespace t) = Some (v, y)"
    using res m k c colon by (cases "parse_value P d (skip_whitespace t)") auto
  have y: "length y < length r"
    using "3.IH"(1) [OF m k refl c colon v] skip_whitespace_length [of t] t by simp
  obtain e u where e: "skip_whitespace y = e # u"
    using res m k c colon v by (cases "skip_whitespace y") auto
  have u: "length u < length r" using y skip_whitespace_SomeD [OF e] by simp
  show ?case
  proof (cases "e = CHR '',''")
    case True
    with res m k c colon v e obtain us where "parse_members P d u = Some (us, q)" by auto
    with "3.IH"(2) [OF m k refl c colon v refl e True] u show ?thesis by force
  next
    case False
    with res m k c colon v e u show ?thesis by (auto split: if_splits)
  qed
qed

termination parse_value
  apply (relation "measure (\<lambda>x. case x of
        Inl (P, d, r) \<Rightarrow> 2 * length r
      | Inr (Inl (P, d, r)) \<Rightarrow> Suc (2 * length r)
      | Inr (Inr (P, d, r)) \<Rightarrow> Suc (2 * length r))")
         apply (auto dest!: skip_whitespace_SomeD parse_shrinks parse_string_shorter)
  subgoal for P r using skip_whitespace_length [of r] by linarith
  subgoal for P d r using skip_whitespace_length [of r] by linarith
  subgoal for P r b u using skip_whitespace_length [of r] skip_whitespace_length [of u] by linarith
  subgoal for P d r b u using skip_whitespace_length [of r] skip_whitespace_length [of u] by linarith
  done

declare parse_value.simps [simp del] parse_elements.simps [simp del] parse_members.simps [simp del]

subsection \<open>Documents\<close>

text \<open>What follows the value is looked at only when a terminating NUL is required.\<close>

definition cJSON_ParseWithLengthOpts :: "platform \<Rightarrow> byte list \<Rightarrow> bool \<Rightarrow> cJSON option" where
  "cJSON_ParseWithLengthOpts P content require_null_terminated =
     (if content = [] \<or> \<not> malloc_ok P sizeof_cJSON then None
      else (case parse_value P 0 (skip_whitespace (skip_utf8_bom content)) of
              None \<Rightarrow> None
            | Some (item, r) \<Rightarrow>
                if require_null_terminated \<and>
                   (skip_whitespace r = [] \<or> hd (skip_whitespace r) \<noteq> NUL)
                then None else Some item))"

text \<open>The buffer of \<^verbatim>\<open>cJSON_Parse\<close> is the C string with its NUL.\<close>

definition cJSON_Parse :: "platform \<Rightarrow> byte list \<Rightarrow> cJSON option" where
  "cJSON_Parse P value = cJSON_ParseWithLengthOpts P (cstr value @ [NUL]) False"

end
