(* ===== verification/Cjson_Roundtrip.thy ===== *)
theory Cjson_Roundtrip
  imports Cjson_Print Cjson_Parse
begin

text \<open>
  The parser inverts the printer: on the text that \<^verbatim>\<open>cJSON_Print\<close> or
  \<^verbatim>\<open>cJSON_PrintUnformatted\<close> produces for a tree of the kind the library sends,
  \<^verbatim>\<open>cJSON_Parse\<close> gives the tree back. The
  proof follows the parser: escapes, strings, numbers, then values by induction on the tree.
\<close>

subsection \<open>Escapes\<close>

lemma hex_value_hex_digit: "n < 16 \<Longrightarrow> hex_value (hex_digit n) = Some (of_nat n)"
  by (auto simp: hex_value_def hex_digit_def)

lemma hex_digit_plain: "n < 16 \<Longrightarrow> hex_digit n \<noteq> QUOTE \<and> hex_digit n \<noteq> BSL"
proof -
  assume n: "n < 16"
  have "code (hex_digit n) \<noteq> code QUOTE \<and> code (hex_digit n) \<noteq> code BSL"
    using n by (auto simp: hex_digit_def)
  then show ?thesis by metis
qed

lemma parse_hex4_u00:
  assumes "n < 256"
  shows "parse_hex4 [CHR ''0'', CHR ''0'', hex_digit (n div 16), hex_digit (n mod 16)] = of_nat n"
proof -
  have z: "hex_value (CHR ''0'') = Some 0" by (simp add: hex_value_def)
  have d: "n div 16 < 16" "n mod 16 < 16" using assms by auto
  have "parse_hex4 [CHR ''0'', CHR ''0'', hex_digit (n div 16), hex_digit (n mod 16)] =
      push_bit 4 (of_nat (n div 16)) + of_nat (n mod 16)"
    by (simp add: parse_hex4_def z hex_value_hex_digit [OF d(1)] hex_value_hex_digit [OF d(2)])
  also have "\<dots> = of_nat ((n div 16) * 16 + n mod 16)"
    by (simp only: of_nat_add of_nat_mult) (simp add: push_bit_eq_mult)
  finally show ?thesis by (simp only: div_mult_mod_eq)
qed

lemma utf8_encode_ascii: "n < 128 \<Longrightarrow> utf8_encode (of_nat n) = Some [char_of n]"
proof -
  assume n: "n < 128"
  have "(of_nat n :: 64 word) < 0x80"
    using n by (simp add: word_less_nat_alt unat_of_nat)
  moreover have "unat ((of_nat n :: 64 word) AND 0x7F) = n"
  proof -
    have "unat ((of_nat n :: 64 word) AND 0x7F) = n AND mask 7"
      using n by (simp add: unsigned_and_eq unat_of_nat mask_numeral)
    also have "\<dots> = n mod 2 ^ 7"
      by (simp only: take_bit_eq_mask [symmetric] take_bit_eq_mod)
    finally show ?thesis using n by simp
  qed
  ultimately show ?thesis by (simp add: utf8_encode_def Let_def)
qed

lemma utf16_u04x:
  assumes "code c < 128"
  shows "utf16_literal_to_utf8 (BSL # u04x c @ t) = Some ([c], 6)"
proof -
  have "parse_hex4 [CHR ''0'', CHR ''0'', hex_digit (code c div 16), hex_digit (code c mod 16)] =
      of_nat (code c)"
    using assms by (intro parse_hex4_u00) simp
  moreover have "\<not> (0xDC00 :: 32 word) \<le> of_nat (code c)" "\<not> (0xD800 :: 32 word) \<le> of_nat (code c)"
    using assms by (auto simp: word_le_nat_alt unat_of_nat)
  moreover have "ucast (of_nat (code c) :: 32 word) = (of_nat (code c) :: 64 word)"
    using assms by (simp add: unsigned_of_nat take_bit_nat_eq_self)
  ultimately show ?thesis
    using assms
    by (simp add: utf16_literal_to_utf8_def u04x_def Let_def utf8_encode_ascii)
qed

lemma unescape_escape_char:
  "unescape (escape_char c @ t) = map_option ((#) c) (unescape t)"
proof (cases "31 < code c \<and> c \<noteq> QUOTE \<and> c \<noteq> BSL")
  case True
  then show ?thesis by (simp add: escape_char_def)
next
  case False
  consider "c \<in> {BSL, QUOTE, CHR 0x08, CHR 0x0C, CHR 0x0A, CHR 0x0D, CHR 0x09}"
    | "c \<notin> {BSL, QUOTE, CHR 0x08, CHR 0x0C, CHR 0x0A, CHR 0x0D, CHR 0x09}"
    by blast
  then show ?thesis
  proof cases
    case 1
    then show ?thesis by (auto simp: escape_char_def)
  next
    case 2
    with False have c: "code c < 128" "escape_char c = BSL # u04x c"
      by (auto simp: escape_char_def)
    have "u04x c = CHR ''u'' # tl (u04x c)" "length (u04x c) = 5" by (simp_all add: u04x_def)
    then show ?thesis
      using c utf16_u04x [OF c(1), of t]
      by (simp add: map_option_case split: option.split) (simp add: u04x_def)
  qed
qed

lemma unescape_escape: "unescape (concat (map escape_char s)) = Some s"
  by (induction s) (simp_all add: unescape_escape_char)

subsection \<open>Strings and numbers\<close>

lemma scan_escape_char:
  assumes "scan_string t = Some (b, k, q)"
  shows "\<exists>k'. scan_string (escape_char c @ t) = Some (escape_char c @ b, k', q)"
proof (cases "31 < code c \<and> c \<noteq> QUOTE \<and> c \<noteq> BSL")
  case True
  then show ?thesis using assms by (simp add: escape_char_def)
next
  case False
  have "code c div 16 < 16" "code c mod 16 < 16"
    using nat_of_char_less_256 [of c] by (auto simp: less_mult_imp_div_less)
  then have "hex_digit (code c div 16) \<noteq> QUOTE" "hex_digit (code c div 16) \<noteq> BSL"
    "hex_digit (code c mod 16) \<noteq> QUOTE" "hex_digit (code c mod 16) \<noteq> BSL"
    using hex_digit_plain by blast+
  with False assms show ?thesis by (auto simp: escape_char_def u04x_def)
qed

lemma scan_escape:
  "\<exists>k. scan_string (concat (map escape_char s) @ QUOTE # rest) =
     Some (concat (map escape_char s), k, QUOTE # rest)"
proof (induction s)
  case (Cons c s)
  then obtain k where "scan_string (concat (map escape_char s) @ QUOTE # rest) =
     Some (concat (map escape_char s), k, QUOTE # rest)" by blast
  from scan_escape_char [OF this, of c] show ?case by simp
qed simp

lemma parse_quote:
  assumes "c_string s" and "mem_ok P (length (quote s))"
  shows "parse_string P (quote s @ rest) = Some (s, rest)"
proof -
  obtain k where k: "scan_string (concat (map escape_char s) @ QUOTE # rest) =
     Some (concat (map escape_char s), k, QUOTE # rest)"
    using scan_escape by blast
  have "malloc_ok P (length (concat (map escape_char s)) + 1 - k + 1)"
    by (rule mem_okD [OF assms(2)]) (simp add: quote_def)
  then show ?thesis
    using assms(1) by (simp add: quote_def parse_string_def k unescape_escape)
qed

text \<open>What may follow a number: anything that does not continue it.\<close>

definition ends_number :: "byte list \<Rightarrow> bool" where
  "ends_number rest \<longleftrightarrow> rest = [] \<or> \<not> is_number_char (hd rest)"

lemma ends_number_simps [simp]:
  "ends_number []"
  "ends_number (c # t) \<longleftrightarrow> \<not> is_number_char c"
  by (simp_all add: ends_number_def)

lemma not_number_char [simp]:
  "\<not> is_number_char (CHR '','')" "\<not> is_number_char (CHR '']'')" "\<not> is_number_char (CHR ''}'')"
  "\<not> is_number_char NUL"
  by (simp_all add: is_number_char_def isdigit_def)

lemma parse_dec_int:
  assumes "INT_MIN \<le> i" and "i \<le> INT_MAX" and "ends_number rest"
  shows "parse_number (dec_int i @ rest) = Some (cJSON_Number (Fin (of_int i)), rest)"
proof -
  have len: "length (dec_int i) \<le> 63" using length_dec_int [OF assms(1,2)] by simp
  have "takeWhile is_number_char (dec_int i @ take (63 - length (dec_int i)) rest) = dec_int i"
  proof (rule takeWhile_append_stop(1))
    show "is_number_char c" if "c \<in> set (dec_int i)" for c
      using dec_int_chars [OF that] by (auto simp: is_number_char_def)
    show "take (63 - length (dec_int i)) rest = [] \<or>
        \<not> is_number_char (hd (take (63 - length (dec_int i)) rest))"
      using assms(3) by (cases rest; cases "63 - length (dec_int i)") auto
  qed
  moreover have "strtod (dec_int i) = (Fin (of_int i), length (dec_int i))"
    using assms(1,2) by (intro strtod_dec_int) auto
  ultimately show ?thesis using len by (simp add: parse_number_def)
qed

subsection \<open>Values\<close>

text \<open>The first character of a printed value is no white space and closes no bracket.\<close>

lemma dec_int_first:
  obtains c t where "dec_int i = c # t" and "c = CHR ''-'' \<or> isdigit c"
  using dec_int_chars [of "hd (dec_int i)" i] by (cases "dec_int i") auto

lemma render_at_first:
  assumes "int_numbers v"
  obtains c t where "render_at f k v = c # t" and "32 < code c" and "c \<noteq> CHR '']''" and "c \<noteq> CHR 0xEF"
proof (cases v)
  case (cJSON_Number d)
  with assms have "int_valued d" by simp
  moreover obtain c t where "dec_int (valueint d) = c # t" "c = CHR ''-'' \<or> isdigit c"
    by (rule dec_int_first)
  ultimately show ?thesis
    using that cJSON_Number
    by (cases "c = CHR '']''"; cases "c = CHR 0xEF") (auto simp: number_text_int_valued isdigit_def)
next
  case (cJSON_Object kvs)
  with that show ?thesis by (cases f) (auto simp: brace_def)
qed (use assms that in \<open>auto simp: quote_def\<close>)

lemma render_first:
  assumes "int_numbers v"
  obtains c t where "render v = c # t" and "32 < code c" and "c \<noteq> CHR '']''" and "c \<noteq> CHR 0xEF"
  by (rule render_at_first [OF assms, of False 0]) (auto intro: that)

lemma skip_whitespace_id: "32 < code c \<Longrightarrow> skip_whitespace (c # t) = c # t"
  by (simp add: skip_whitespace_def)

text \<open>White space, as the formatted mode puts it around keys and values.\<close>

definition blank :: "string \<Rightarrow> bool" where
  "blank b \<longleftrightarrow> list_all (\<lambda>c. code c \<le> 32) b"

lemma blank_simps [simp]:
  "blank []" "blank (c # b) \<longleftrightarrow> code c \<le> 32 \<and> blank b" "blank (b @ b') \<longleftrightarrow> blank b \<and> blank b'" "blank (tabs n)"
  by (auto simp: blank_def tabs_def list_all_iff)

lemma skip_blank: "blank b \<Longrightarrow> 32 < code c \<Longrightarrow> skip_whitespace (b @ c # t) = c # t"
proof -
  assume "blank b" and c: "32 < code c"
  then have "dropWhile (\<lambda>c. code c \<le> 32) (b @ c # t) = c # t"
    by (simp add: blank_def list_all_iff dropWhile_append)
  then show ?thesis by (simp add: skip_whitespace_def)
qed

lemma skip_to_value:
  "int_numbers v \<Longrightarrow> blank b \<Longrightarrow> skip_whitespace (b @ render_at f k v @ t) = render_at f k v @ t"
  by (erule render_at_first [of v f k]) (simp add: skip_blank)

lemma skip_to_quote: "blank b \<Longrightarrow> skip_whitespace (b @ quote s @ t) = quote s @ t"
  by (simp add: quote_def skip_blank)

lemma ends_number_blank:
  assumes "blank b" and "32 < code c" and "\<not> is_number_char c"
  shows "ends_number (b @ c # t)"
proof (cases b)
  case (Cons e u)
  with assms(1) have "code e \<le> 32" by simp
  then have "\<not> is_number_char e" by (auto simp: is_number_char_def isdigit_def)
  with Cons show ?thesis by simp
qed (use assms in simp)

text \<open>The punctuation is a character with white space behind it.\<close>

lemma punctuation:
  obtains b where "comma f = CHR '','' # b" and "blank b"
  by (cases f) (auto simp: comma_def intro: that)

lemma colon_blank:
  obtains b where "colon f = CHR '':'' # b" and "blank b"
  by (cases f) (auto simp: colon_def intro: that)

lemma ending_blank:
  obtains b where "ending f True = b" and "ending f False = CHR '','' # b" and "blank b"
  by (cases f) (auto simp: ending_def intro: that)

lemma brace_blank:
  obtains b where "brace f = CHR ''{'' # b" and "blank b"
  by (cases f) (auto simp: brace_def intro: that)

text \<open>A value is read back from its text in both modes, at any printing depth.\<close>

definition reads_back :: "platform \<Rightarrow> nat \<Rightarrow> cJSON \<Rightarrow> bool" where
  "reads_back P d v \<longleftrightarrow>
     (\<forall>f k rest. ends_number rest \<longrightarrow> parse_value P d (render_at f k v @ rest) = Some (v, rest))"

lemma reads_backD:
  "reads_back P d v \<Longrightarrow> ends_number rest \<Longrightarrow> parse_value P d (render_at f k v @ rest) = Some (v, rest)"
  by (simp add: reads_back_def)

lemma parse_elements_render:
  assumes "malloc_ok P sizeof_cJSON"
  shows "xs \<noteq> [] \<Longrightarrow> (\<And>x. x \<in> set xs \<Longrightarrow> int_numbers x \<and> reads_back P d x) \<Longrightarrow> blank b \<Longrightarrow>
     parse_elements P d (b @ elements_at f k xs @ CHR '']'' # rest) = Some (xs, rest)"
proof (induction xs arbitrary: b)
  case (Cons x xs)
  have x: "int_numbers x" "reads_back P d x" using Cons.prems(2) by simp_all
  show ?case
  proof (cases "xs = []")
    case True
    with assms x Cons.prems(3) show ?thesis
      by (subst parse_elements.simps)
        (simp add: skip_to_value skip_whitespace_id reads_backD)
  next
    case False
    obtain g where g: "comma f = CHR '','' # g" "blank g" by (rule punctuation)
    have "parse_elements P d (g @ elements_at f k xs @ CHR '']'' # rest) = Some (xs, rest)"
      by (rule Cons.IH [OF False _ g(2)]) (use Cons.prems(2) in simp)
    with assms x False g(1) Cons.prems(3) show ?thesis
      by (subst parse_elements.simps)
        (simp add: skip_to_value skip_whitespace_id reads_backD)
  qed
qed simp

lemma parse_members_render:
  assumes "malloc_ok P sizeof_cJSON" and "blank b'"
  shows "kvs \<noteq> [] \<Longrightarrow>
     (\<And>k v. (k, v) \<in> set kvs \<Longrightarrow>
        c_string k \<and> mem_ok P (length (quote k)) \<and> int_numbers v \<and> reads_back P d v) \<Longrightarrow> blank b \<Longrightarrow>
     parse_members P d (b @ members_at f n kvs @ b' @ CHR ''}'' # rest) = Some (kvs, rest)"
proof (induction kvs arbitrary: b)
  case (Cons kv kvs)
  obtain k v where kv: "kv = (k, v)" by (cases kv)
  with Cons.prems(2) [of k v] have x: "c_string k" "mem_ok P (length (quote k))" "int_numbers v"
    "reads_back P d v" by auto
  obtain g where g: "colon f = CHR '':'' # g" "blank g" by (rule colon_blank)
  obtain e where e: "ending f True = e" "ending f False = CHR '','' # e" "blank e" by (rule ending_blank)
  define i where "i = b @ (if f then tabs n else [])"
  have i: "blank i" using Cons.prems(3) by (simp add: i_def)
  define tail where "tail = ending f (kvs = []) @ members_at f n kvs @ b' @ CHR ''}'' # rest"
  have whole: "b @ members_at f n (kv # kvs) @ b' @ CHR ''}'' # rest =
      i @ quote k @ CHR '':'' # g @ render_at f n v @ tail"
    by (simp add: kv i_def g(1) tail_def)
  have ends: "ends_number tail"
    using e assms(2) ends_number_blank [of "e @ b'" "CHR ''}''" rest] by (cases "kvs = []") (simp_all add: tail_def)
  have ne: "i @ quote k @ t \<noteq> []" for t by (simp add: quote_def)
  have head: "parse_string P (skip_whitespace (i @ quote k @ CHR '':'' # g @ render_at f n v @ tail)) =
      Some (k, CHR '':'' # g @ render_at f n v @ tail)"
    using skip_to_quote [OF i] parse_quote [OF x(1,2)] by simp
  have body: "parse_value P d (skip_whitespace (g @ render_at f n v @ tail)) = Some (v, tail)"
    using skip_to_value [OF x(3) g(2)] reads_backD [OF x(4) ends] by simp
  have shut: "skip_whitespace tail =
      (if kvs = [] then CHR ''}'' # rest else CHR '','' # e @ members_at f n kvs @ b' @ CHR ''}'' # rest)"
    using e assms(2) skip_blank [of "e @ b'" "CHR ''}''" rest] by (simp add: tail_def skip_whitespace_id)
  have more: "parse_members P d (e @ members_at f n kvs @ b' @ CHR ''}'' # rest) = Some (kvs, rest)" if "kvs \<noteq> []"
    by (rule Cons.IH [OF that _ e(3)]) (use Cons.prems(2) in auto)
  show ?case
    unfolding whole using assms(1) more ne head body shut
    by (subst parse_members.simps) (simp add: skip_whitespace_id kv)
qed simp

lemma parse_members_skip:
  assumes "r \<noteq> []" and "r' \<noteq> []" and "skip_whitespace r = skip_whitespace r'"
  shows "parse_members P d r = parse_members P d r'"
  by (subst (1 2) parse_members.simps) (simp add: assms)

lemma parse_value_number:
  "c = CHR ''-'' \<or> isdigit c \<Longrightarrow> parse_value P d (c # t) = parse_number (c # t)"
  by (subst parse_value.simps) (auto simp: isdigit_def)

lemma length_commas_bound: "s \<in> set ss \<Longrightarrow> length s \<le> length (commas ss)"
  by (induction ss) auto

lemma length_commas_ends:
  "ss \<noteq> [] \<Longrightarrow> (\<And>s. s \<in> set ss \<Longrightarrow> s \<noteq> []) \<Longrightarrow> commas ss = hd (hd ss) # tl (commas ss)"
  by (cases ss) auto

lemma value_reads_back:
  assumes "mem_ok P n" and "64 \<le> n"
  shows "json_wf v \<Longrightarrow> int_numbers v \<Longrightarrow> nested (CJSON_NESTING_LIMIT - d) v \<Longrightarrow>
     length (render v) \<le> n \<Longrightarrow> reads_back P d v"
proof (induction v arbitrary: d)
  case (cJSON_Number x)
  then obtain i where i: "x = Fin (of_int i)" "INT_MIN \<le> i" "i \<le> INT_MAX"
    by (auto elim: int_valuedE)
  obtain c t where c: "dec_int i = c # t" "c = CHR ''-'' \<or> isdigit c" by (rule dec_int_first)
  have "number_text x = dec_int i" using i by (simp add: number_text_int_valued)
  with parse_dec_int [OF i(2,3)] i(1) c show ?case
    by (simp add: reads_back_def parse_value_number [OF c(2)])
next
  case (cJSON_String s)
  have "mem_ok P (length (quote s))"
    by (rule mem_ok_mono [OF assms(1)]) (use cJSON_String in simp)
  with parse_quote [of s P] cJSON_String show ?case
    by (subst reads_back_def, subst parse_value.simps) (simp add: quote_def isdigit_def)
next
  case (cJSON_Array xs)
  have m: "malloc_ok P sizeof_cJSON" using assms by simp
  have d: "\<not> CJSON_NESTING_LIMIT \<le> d" using cJSON_Array.prems(3) by auto
  have x: "int_numbers x \<and> reads_back P (Suc d) x" if "x \<in> set xs" for x
  proof -
    have "length (render x) \<le> length (commas (map render xs))"
      using that by (intro length_commas_bound) simp
    with cJSON_Array.prems(4) have "length (render x) \<le> n" by simp
    then show ?thesis
      using cJSON_Array.IH [OF that, of "Suc d"] cJSON_Array.prems that d
      by (auto simp: list_all_iff diff_diff_eq)
  qed
  show ?case
  proof (cases "xs = []")
    case True
    with d show ?thesis
      by (subst reads_back_def, subst parse_value.simps) (simp add: isdigit_def skip_whitespace_id)
  next
    case False
    have "parse_value P d (render_at f k (cJSON_Array xs) @ rest) = Some (cJSON_Array xs, rest)" for f k rest
    proof -
      obtain y ys where y: "xs = y # ys" using False by (cases xs) auto
      obtain c t where c: "render_at f (Suc k) y = c # t" "32 < code c" "c \<noteq> CHR '']''"
        using x [of y] y by (auto intro: render_at_first)
      then obtain w where w: "elements_at f (Suc k) xs = c # w" using y by simp
      have "parse_elements P (Suc d) (c # w @ CHR '']'' # rest) = Some (xs, rest)"
        using parse_elements_render [OF m False, of "Suc d" "[]" f "Suc k" rest] x by (simp add: w)
      with d c(2,3) w show ?thesis
        by (subst parse_value.simps) (simp add: isdigit_def skip_whitespace_id)
    qed
    then show ?thesis by (simp only: reads_back_def) blast
  qed
next
  case (cJSON_Object kvs)
  have m: "malloc_ok P sizeof_cJSON" using assms by simp
  have d: "\<not> CJSON_NESTING_LIMIT \<le> d" using cJSON_Object.prems(3) by auto
  have x: "c_string k \<and> mem_ok P (length (quote k)) \<and> int_numbers v \<and> reads_back P (Suc d) v"
    if kv: "(k, v) \<in> set kvs" for k v
  proof -
    have "length (member_text (k, v)) \<le> length (commas (map member_text kvs))"
      using kv by (intro length_commas_bound) auto
    with cJSON_Object.prems(4) have "length (quote k) \<le> n" "length (render v) \<le> n"
      by (simp_all add: member_text_def)
    then show ?thesis
      using cJSON_Object.IH [OF kv, of v "Suc d"] cJSON_Object.prems kv d mem_ok_mono [OF assms(1)]
      by (fastforce simp: list_all_iff diff_diff_eq)
  qed
  have "parse_value P d (render_at f k (cJSON_Object kvs) @ rest) = Some (cJSON_Object kvs, rest)" for f k rest
  proof -
    obtain b where b: "brace f = CHR ''{'' # b" "blank b" by (rule brace_blank)
    define b' where "b' = (if f then tabs k else [])"
    have b': "blank b'" by (simp add: b'_def)
    have whole: "render_at f k (cJSON_Object kvs) @ rest =
        CHR ''{'' # b @ members_at f (Suc k) kvs @ b' @ CHR ''}'' # rest"
      by (simp add: b(1) b'_def)
    show ?thesis
    proof (cases kvs)
      case Nil
      have "skip_whitespace (b @ b' @ CHR ''}'' # rest) = CHR ''}'' # rest"
        using skip_blank [of "b @ b'" "CHR ''}''" rest] b(2) b' by simp
      with d show ?thesis
        unfolding whole by (subst parse_value.simps) (simp add: isdigit_def Nil)
    next
      case (Cons kv kvs')
      obtain w where w: "members_at f (Suc k) kvs = (if f then tabs (Suc k) else []) @ QUOTE # w"
        by (simp add: Cons quote_def)
      have "skip_whitespace (b @ members_at f (Suc k) kvs @ b' @ CHR ''}'' # rest) = QUOTE # w @ b' @ CHR ''}'' # rest"
        using skip_blank [of "b @ (if f then tabs (Suc k) else [])" QUOTE "w @ b' @ CHR ''}'' # rest"] b(2) by (simp add: w)
      moreover have "parse_members P (Suc d) (QUOTE # w @ b' @ CHR ''}'' # rest) = Some (kvs, rest)"
      proof -
        have "skip_whitespace (members_at f (Suc k) kvs @ b' @ CHR ''}'' # rest) = QUOTE # w @ b' @ CHR ''}'' # rest"
          using skip_blank [of "if f then tabs (Suc k) else []" QUOTE "w @ b' @ CHR ''}'' # rest"]
          unfolding w by simp
        then have "parse_members P (Suc d) (QUOTE # w @ b' @ CHR ''}'' # rest) =
            parse_members P (Suc d) (members_at f (Suc k) kvs @ b' @ CHR ''}'' # rest)"
          by (intro parse_members_skip) (simp_all add: w skip_whitespace_id)
        also have "\<dots> = Some (kvs, rest)"
          using parse_members_render [OF m b', of kvs "Suc d" "[]" f "Suc k" rest] x Cons by simp
        finally show ?thesis .
      qed
      ultimately show ?thesis
        using d unfolding whole by (subst parse_value.simps) (simp add: isdigit_def)
    qed
  qed
  then show ?case by (simp only: reads_back_def) blast
qed (auto simp: reads_back_def parse_value.simps)

subsection \<open>Documents\<close>

lemma skip_utf8_bom_render_at: "int_numbers v \<Longrightarrow> skip_utf8_bom (render_at f k v @ t) = render_at f k v @ t"
  by (erule render_at_first [of v f k]) (auto simp: skip_utf8_bom_def)

text \<open>Enough memory to print and to read back a text of \<open>n\<close> bytes.\<close>

definition ample :: "platform \<Rightarrow> nat \<Rightarrow> bool" where
  "ample P n \<longleftrightarrow> roomy P n \<and> mem_ok P (266 + 2 * n)"

lemma parse_render_at:
  assumes "json_wf v" and "int_numbers v" and "nested CJSON_NESTING_LIMIT v"
    and "mem_ok P n" and "64 \<le> n" and "length (render v) \<le> n"
  shows "cJSON_Parse P (render_at f 0 v) = Some v"
proof -
  have "parse_value P 0 (render_at f 0 v @ [NUL]) = Some (v, [NUL])"
    using value_reads_back [OF assms(4,5,1,2), of 0] assms by (simp add: reads_back_def)
  moreover have "skip_whitespace (render_at f 0 v @ [NUL]) = render_at f 0 v @ [NUL]"
    using skip_to_value [OF assms(2), of "[]" f 0 "[NUL]"] by simp
  ultimately show ?thesis
    using assms(4,5) c_string_render_at(1) [OF assms(1)]
    by (simp add: cJSON_Parse_def cJSON_ParseWithLengthOpts_def skip_utf8_bom_render_at [OF assms(2)])
qed

lemmas parse_render = parse_render_at [where f = False, simplified render_at_unformatted]

text \<open>The two together, for callers that only care that memory is no issue.\<close>

lemma ample_mono: "ample P n \<Longrightarrow> m \<le> n \<Longrightarrow> ample P m"
  by (auto simp: ample_def intro: roomy_mono mem_ok_mono)

lemma ample_malloc: "ample P n \<Longrightarrow> k \<le> 266 + 2 * n \<Longrightarrow> malloc_ok P k"
  by (auto simp: ample_def)

text \<open>The formatted text is the longer one.\<close>

lemma length_member_text: "length (member_text kv) = length (quote (fst kv)) + 1 + length (render (snd kv))"
  by (simp add: member_text_def)

lemma render_at_longer:
  "length (render v) \<le> length (render_at f d v)"
  "length (commas (map render xs)) \<le> length (elements_at f d xs)"
  "length (commas (map member_text kvs)) \<le> length (members_at f d kvs)"
  by (induction f d v and f d xs and f d kvs rule: render_at_elements_at_members_at.induct)
     (auto simp: comma_def brace_def colon_def ending_def length_member_text)

lemma print_ample:
  "json_wf v \<Longrightarrow> int_numbers v \<Longrightarrow> ample P (length (render v)) \<Longrightarrow>
     cJSON_PrintUnformatted P v = Some (render v)"
  by (rule print_unformatted_ok) (auto simp: ample_def)

lemma print_formatted_ample:
  "json_wf v \<Longrightarrow> int_numbers v \<Longrightarrow> ample P (length (render_at True 0 v)) \<Longrightarrow>
     cJSON_Print P v = Some (render_at True 0 v)"
  unfolding cJSON_Print_def by (rule print_ok) (auto simp: ample_def int_double_numbers)

lemma parse_ample_at:
  assumes "json_wf v" and "int_numbers v" and "nested CJSON_NESTING_LIMIT v"
    and "ample P (length (render_at f 0 v))"
  shows "cJSON_Parse P (render_at f 0 v) = Some v"
proof (rule parse_render_at [OF assms(1-3)])
  show "mem_ok P (max 256 (length (render_at f 0 v)))"
    using ample_malloc [OF assms(4)] by (auto simp: mem_ok_def)
  show "length (render v) \<le> max 256 (length (render_at f 0 v))"
    using render_at_longer(1) [of v f 0] by simp
qed simp

lemmas parse_ample = parse_ample_at [where f = False, simplified render_at_unformatted]

end
