(* ===== verification/Wy_Io.thy ===== *)
theory Wy_Io
  imports Cjson_Tree
begin

text \<open>
  Sockets and the buffered reader of \<^verbatim>\<open>src/event.c\<close>: \<^verbatim>\<open>iobuf_read_line\<close>,
  \<^verbatim>\<open>iobuf_read_exact\<close> and \<^verbatim>\<open>write_all\<close>.

  What the kernel will do with a descriptor is a script: for reading, the arrival of bytes,
  an interruption by a signal, or a failure (a receive timeout among them), in the order the
  program will meet them; the end of the script is the end of the stream. For writing, the
  number of bytes the kernel takes, an interruption, or a failure; at the end of that script
  every write is taken whole. How arrivals are cut into chunks is up to the network, and the
  theorems at the end say that it does not matter.
\<close>

subsection \<open>Descriptors\<close>

datatype rx_step = Chunk "byte list" | RIntr | RFail

datatype tx_step = Accept nat | WIntr | WFail

record sock =
  rx :: "rx_step list"
  ws :: "tx_step list"
  tx :: "byte list"

datatype sys_result = Data "byte list" | Eof | Eintr | Failed

text \<open>\<^verbatim>\<open>read(fd, buf, cap)\<close>. An empty chunk is no arrival.\<close>

fun sys_read :: "nat \<Rightarrow> rx_step list \<Rightarrow> sys_result \<times> rx_step list" where
  "sys_read cap [] = (Eof, [])"
| "sys_read cap (Chunk bs # r) =
     (if bs = [] then sys_read cap r
      else (Data (take cap bs), if length bs \<le> cap then r else Chunk (drop cap bs) # r))"
| "sys_read cap (RIntr # r) = (Eintr, r)"
| "sys_read cap (RFail # r) = (Failed, r)"

text \<open>\<^verbatim>\<open>write(fd, p, n)\<close> of a non-empty \<open>p\<close>: the number of bytes taken, or \<open>None\<close> with
  whether the call was interrupted.\<close>

definition sys_write :: "byte list \<Rightarrow> sock \<Rightarrow> (bool + nat) \<times> sock" where
  "sys_write p s =
     (case ws s of
        [] \<Rightarrow> (Inr (length p), s\<lparr>tx := tx s @ p\<rparr>)
      | Accept n # w \<Rightarrow> (Inr (min n (length p)), s\<lparr>ws := w, tx := tx s @ take n p\<rparr>)
      | WIntr # w \<Rightarrow> (Inl True, s\<lparr>ws := w\<rparr>)
      | WFail # w \<Rightarrow> (Inl False, s\<lparr>ws := w\<rparr>))"

text \<open>Upper bound on the reads a script can serve.\<close>

fun rx_size :: "rx_step list \<Rightarrow> nat" where
  "rx_size [] = 0"
| "rx_size (Chunk bs # r) = Suc (length bs) + rx_size r"
| "rx_size (_ # r) = Suc (rx_size r)"

text \<open>A read repeated while it is interrupted.\<close>

function read_retry :: "nat \<Rightarrow> rx_step list \<Rightarrow> sys_result \<times> rx_step list" where
  "read_retry cap r =
     (case sys_read cap r of
        (Eintr, r') \<Rightarrow> read_retry cap r'
      | (x, r') \<Rightarrow> (x, r'))"
  by pat_completeness auto

lemma sys_read_size:
  "sys_read cap r = (x, r') \<Longrightarrow> x \<noteq> Eof \<Longrightarrow> 0 < cap \<or> x = Eintr \<Longrightarrow> rx_size r' < rx_size r"
  by (induction cap r rule: sys_read.induct) (auto split: if_splits)

termination read_retry
  by (relation "measure (\<lambda>(cap, r). rx_size r)") (auto dest!: sym [of "(_, _)"] sys_read_size)

declare read_retry.simps [simp del]

subsection \<open>The buffered reader\<close>

text \<open>\<^verbatim>\<open>wyoming_iobuf_t\<close>: the descriptor with its socket, the valid bytes of the buffer
  (\<^verbatim>\<open>len\<close> of them) and the read position.\<close>

record iobuf =
  io_fd :: sock
  io_buf :: "byte list"
  io_pos :: nat

abbreviation WYOMING_READBUF_SIZE :: nat where
  "WYOMING_READBUF_SIZE \<equiv> 8192"

definition iobuf_init :: "sock \<Rightarrow> iobuf" where
  "iobuf_init fd = \<lparr>io_fd = fd, io_buf = [], io_pos = 0\<rparr>"

abbreviation set_rx :: "rx_step list \<Rightarrow> iobuf \<Rightarrow> iobuf" where
  "set_rx r io \<equiv> io\<lparr>io_fd := (io_fd io)\<lparr>rx := r\<rparr>\<rparr>"

lemma read_retry_size:
  "read_retry cap r = (Data bs, r') \<Longrightarrow> 0 < cap \<Longrightarrow> rx_size r' < rx_size r"
proof (induction cap r rule: read_retry.induct)
  case (1 cap r)
  obtain x r1 where x: "sys_read cap r = (x, r1)" by force
  show ?case
  proof (cases "x = Eintr")
    case True
    with x "1.prems" have "read_retry cap r1 = (Data bs, r')"
      by (simp add: read_retry.simps [of cap r])
    with "1.IH" [OF x [symmetric] True] "1.prems"(2) have "rx_size r' < rx_size r1" by simp
    with sys_read_size [OF x] True show ?thesis by simp
  next
    case False
    with x "1.prems" have "x = Data bs \<and> r1 = r'"
      by (cases x) (simp_all add: read_retry.simps [of cap r])
    with sys_read_size [OF x] "1.prems"(2) show ?thesis by simp
  qed
qed

text \<open>
  \<^verbatim>\<open>iobuf_read_line\<close>. The dynamic line buffer holds \<open>line\<close> (\<^verbatim>\<open>line_used\<close> bytes) in
  an allocation of \<open>line_sz\<close> bytes, 0 for none.
\<close>

function read_line_loop ::
  "platform \<Rightarrow> byte list \<Rightarrow> nat \<Rightarrow> iobuf \<Rightarrow> (wyoming_error + byte list) \<times> iobuf" where
  "read_line_loop P line line_sz io =
     (let avail = drop (io_pos io) (io_buf io)
      in if NL \<in> set avail
         then (let chunk = takeWhile (\<lambda>c. c \<noteq> NL) avail;
                   total = length line + length chunk
               in if malloc_ok P (total + 1)
                  then (Inr (line @ chunk), io\<lparr>io_pos := io_pos io + length chunk + 1\<rparr>)
                  else (Inl WYOMING_ERR_NOMEM, io))
         else (let need = length line + length avail;
                   grow = 0 < length avail \<and> line_sz < need;
                   line_sz' = (if grow then max 256 (need * 2) else line_sz)
               in if grow \<and> \<not> malloc_ok P line_sz' then (Inl WYOMING_ERR_NOMEM, io)
                  else (case read_retry WYOMING_READBUF_SIZE (rx (io_fd io)) of
                          (Data bs, r) \<Rightarrow>
                            read_line_loop P (line @ avail) line_sz'
                              ((set_rx r io)\<lparr>io_buf := bs, io_pos := 0\<rparr>)
                        | (Eof, r) \<Rightarrow>
                            (Inl WYOMING_ERR_EOF, (set_rx r io)\<lparr>io_buf := [], io_pos := 0\<rparr>)
                        | (_, r) \<Rightarrow>
                            (Inl WYOMING_ERR_IO, (set_rx r io)\<lparr>io_buf := [], io_pos := 0\<rparr>))))"
  by pat_completeness auto
termination
  by (relation "measure (\<lambda>(P, line, line_sz, io). rx_size (rx (io_fd io)))")
     (auto dest!: sym [of "(_, _)"] read_retry_size)

declare read_line_loop.simps [simp del]

definition iobuf_read_line ::
  "platform \<Rightarrow> iobuf \<Rightarrow> (wyoming_error + byte list) \<times> iobuf" where
  "iobuf_read_line P io = read_line_loop P [] 0 io"

text \<open>\<^verbatim>\<open>iobuf_read_exact\<close>: the buffered bytes first, the rest straight from the socket.\<close>

function read_exact_loop ::
  "nat \<Rightarrow> byte list \<Rightarrow> rx_step list \<Rightarrow> (wyoming_error + byte list) \<times> rx_step list" where
  "read_exact_loop count dest r =
     (if length dest < count
      then (case sys_read (count - length dest) r of
              (Data bs, r') \<Rightarrow> read_exact_loop count (dest @ bs) r'
            | (Eof, r') \<Rightarrow> (Inl WYOMING_ERR_EOF, r')
            | (Eintr, r') \<Rightarrow> read_exact_loop count dest r'
            | (Failed, r') \<Rightarrow> (Inl WYOMING_ERR_IO, r'))
      else (Inr dest, r))"
  by pat_completeness auto
termination
  by (relation "measure (\<lambda>(count, dest, r). rx_size r)")
     (auto dest!: sym [of "(_, _)"] sys_read_size)

declare read_exact_loop.simps [simp del]

definition iobuf_read_exact ::
  "iobuf \<Rightarrow> nat \<Rightarrow> (wyoming_error + byte list) \<times> iobuf" where
  "iobuf_read_exact io count =
     (let buffered = take count (drop (io_pos io) (io_buf io));
          io' = io\<lparr>io_pos := io_pos io + length buffered\<rparr>
      in case read_exact_loop count buffered (rx (io_fd io')) of
           (res, r) \<Rightarrow> (res, set_rx r io'))"

subsection \<open>Writing\<close>

function write_all :: "sock \<Rightarrow> byte list \<Rightarrow> wyoming_error \<times> sock" where
  "write_all fd p =
     (if p = [] then (WYOMING_OK, fd)
      else (case sys_write p fd of
              (Inr n, fd') \<Rightarrow> write_all fd' (drop n p)
            | (Inl interrupted, fd') \<Rightarrow>
                if interrupted then write_all fd' p else (WYOMING_ERR_IO, fd')))"
  by pat_completeness auto
termination
  by (relation "measure (\<lambda>(fd, p). length (ws fd) + length p)")
     (auto simp: sys_write_def split: list.splits tx_step.splits)

declare write_all.simps [simp del]

subsection \<open>What a descriptor has yet to deliver\<close>

text \<open>The bytes that arrive before the stream ends or a read fails, and how it ends.\<close>

fun rx_bytes :: "rx_step list \<Rightarrow> byte list" where
  "rx_bytes [] = []"
| "rx_bytes (Chunk bs # r) = bs @ rx_bytes r"
| "rx_bytes (RIntr # r) = rx_bytes r"
| "rx_bytes (RFail # r) = []"

fun rx_end :: "rx_step list \<Rightarrow> wyoming_error" where
  "rx_end [] = WYOMING_ERR_EOF"
| "rx_end (Chunk bs # r) = rx_end r"
| "rx_end (RIntr # r) = rx_end r"
| "rx_end (RFail # r) = WYOMING_ERR_IO"

text \<open>The stream of a reader: what is buffered, then what arrives.\<close>

definition pending :: "iobuf \<Rightarrow> byte list" where
  "pending io = drop (io_pos io) (io_buf io) @ rx_bytes (rx (io_fd io))"

definition stream_end :: "iobuf \<Rightarrow> wyoming_error" where
  "stream_end io = rx_end (rx (io_fd io))"

text \<open>The buffer is within its 8192 bytes, the position within the valid bytes.\<close>

definition iobuf_ok :: "iobuf \<Rightarrow> bool" where
  "iobuf_ok io \<longleftrightarrow> io_pos io \<le> length (io_buf io) \<and> length (io_buf io) \<le> WYOMING_READBUF_SIZE"

text \<open>\<open>reads io data io'\<close>: from \<open>io\<close> to \<open>io'\<close> exactly \<open>data\<close> was consumed, and nothing
  else of the descriptor changed.\<close>

definition reads :: "iobuf \<Rightarrow> byte list \<Rightarrow> iobuf \<Rightarrow> bool" where
  "reads io data io' \<longleftrightarrow>
     pending io = data @ pending io' \<and> stream_end io' = stream_end io \<and>
     ws (io_fd io') = ws (io_fd io) \<and> tx (io_fd io') = tx (io_fd io) \<and>
     (iobuf_ok io \<longrightarrow> iobuf_ok io')"

lemma reads_trans [trans]: "reads a d b \<Longrightarrow> reads b e c \<Longrightarrow> reads a (d @ e) c"
  by (simp add: reads_def)

lemma reads_refl [simp]: "reads io [] io"
  by (simp add: reads_def)

lemma iobuf_init_ok [simp]: "iobuf_ok (iobuf_init fd)" "pending (iobuf_init fd) = rx_bytes (rx fd)"
  "stream_end (iobuf_init fd) = rx_end (rx fd)"
  by (simp_all add: iobuf_ok_def iobuf_init_def pending_def stream_end_def)

lemma rx_end_cases: "rx_end r = WYOMING_ERR_EOF \<or> rx_end r = WYOMING_ERR_IO"
  by (induction r rule: rx_end.induct) auto

text \<open>What the outcome \<open>x\<close> of a read says of the streams before and after it.\<close>

fun arrives :: "nat \<Rightarrow> rx_step list \<Rightarrow> sys_result \<Rightarrow> rx_step list \<Rightarrow> bool" where
  "arrives cap r (Data bs) r' =
     (bs \<noteq> [] \<and> length bs \<le> cap \<and> rx_bytes r = bs @ rx_bytes r' \<and> rx_end r' = rx_end r)"
| "arrives cap r Eof r' = (rx_bytes r = [] \<and> rx_end r = WYOMING_ERR_EOF)"
| "arrives cap r Eintr r' = (rx_bytes r' = rx_bytes r \<and> rx_end r' = rx_end r)"
| "arrives cap r Failed r' = (rx_bytes r = [] \<and> rx_end r = WYOMING_ERR_IO)"

lemma arrives_cong:
  "rx_bytes r = rx_bytes s \<Longrightarrow> rx_end r = rx_end s \<Longrightarrow> arrives cap r x r' = arrives cap s x r'"
  by (cases x) simp_all

lemma sys_read_spec: "0 < cap \<Longrightarrow> sys_read cap r = (x, r') \<Longrightarrow> arrives cap r x r'"
proof (induction cap r rule: sys_read.induct)
  case (2 cap bs r)
  show ?case
  proof (cases "bs = []")
    case True
    with 2 have "arrives cap r x r'" by simp
    with True show ?thesis using arrives_cong [of r "Chunk bs # r"] by simp
  next
    case False
    with 2 show ?thesis by (auto split: if_splits)
  qed
qed auto

lemma read_retry_spec:
  "0 < cap \<Longrightarrow> read_retry cap r = (x, r') \<Longrightarrow> arrives cap r x r' \<and> x \<noteq> Eintr"
proof (induction cap r rule: read_retry.induct)
  case (1 cap r)
  obtain y r1 where y: "sys_read cap r = (y, r1)" by force
  note spec = sys_read_spec [OF "1.prems"(1) y]
  show ?case
  proof (cases "y = Eintr")
    case True
    with y "1.prems" have "read_retry cap r1 = (x, r')"
      by (simp add: read_retry.simps [of cap r])
    from "1.IH" [OF y [symmetric] True "1.prems"(1) this] spec True show ?thesis
      using arrives_cong [of r1 r] by simp
  next
    case False
    with y "1.prems" have "y = x \<and> r1 = r'"
      by (cases y) (simp_all add: read_retry.simps [of cap r])
    with spec False show ?thesis by auto
  qed
qed

subsection \<open>Reading a line\<close>

text \<open>Memory for a line of \<open>n\<close> bytes: its buffer is at most twice as long, and at least 256.\<close>

definition line_room :: "platform \<Rightarrow> nat \<Rightarrow> bool" where
  "line_room P n \<longleftrightarrow> mem_ok P (256 + 2 * n)"


lemma line_room_mono: "line_room P n \<Longrightarrow> m \<le> n \<Longrightarrow> line_room P m"
  by (auto simp: line_room_def intro: mem_ok_mono)

lemma line_room_malloc: "line_room P n \<Longrightarrow> k \<le> 256 + 2 * n \<Longrightarrow> malloc_ok P k"
  by (auto simp: line_room_def)

lemma split_at_NL:
  assumes "a @ b = l @ NL # rest" and "NL \<notin> set l"
  shows "NL \<in> set a \<Longrightarrow> \<exists>c. a = l @ NL # c \<and> rest = c @ b"
    and "NL \<notin> set a \<Longrightarrow> \<exists>l'. l = a @ l' \<and> b = l' @ NL # rest"
  using assms by (auto simp: append_eq_append_conv2 append_eq_Cons_conv Cons_eq_append_conv)

text \<open>The three ways on when the buffer holds no newline.\<close>

lemma read_line_refill:
  assumes "NL \<notin> set (drop (io_pos io) (io_buf io))"
    and x: "read_retry WYOMING_READBUF_SIZE (rx (io_fd io)) = (x, r)"
  obtains (nomem) "\<not> malloc_ok P (max 256 ((length line + length (drop (io_pos io) (io_buf io))) * 2))"
        "read_line_loop P line sz io = (Inl WYOMING_ERR_NOMEM, io)"
    | (data) bs sz' where "x = Data bs"
        "read_line_loop P line sz io =
           read_line_loop P (line @ drop (io_pos io) (io_buf io)) sz'
             ((set_rx r io)\<lparr>io_buf := bs, io_pos := 0\<rparr>)"
    | (stop) e where "x = Eof \<and> e = WYOMING_ERR_EOF \<or> x = Failed \<and> e = WYOMING_ERR_IO"
        "read_line_loop P line sz io = (Inl e, (set_rx r io)\<lparr>io_buf := [], io_pos := 0\<rparr>)"
proof -
  define avail where "avail = drop (io_pos io) (io_buf io)"
  define grow where "grow \<longleftrightarrow> 0 < length avail \<and> sz < length line + length avail"
  define sz' where "sz' = (if grow then max 256 ((length line + length avail) * 2) else sz)"
  have NL: "NL \<notin> set avail" and xE: "x \<noteq> Eintr"
    using assms read_retry_spec [OF _ x] by (simp_all add: avail_def)
  have step: "read_line_loop P line sz io =
     (if grow \<and> \<not> malloc_ok P sz' then (Inl WYOMING_ERR_NOMEM, io)
      else (case (x, r) of
              (Data bs, r) \<Rightarrow>
                read_line_loop P (line @ avail) sz' ((set_rx r io)\<lparr>io_buf := bs, io_pos := 0\<rparr>)
            | (Eof, r) \<Rightarrow> (Inl WYOMING_ERR_EOF, (set_rx r io)\<lparr>io_buf := [], io_pos := 0\<rparr>)
            | (_, r) \<Rightarrow> (Inl WYOMING_ERR_IO, (set_rx r io)\<lparr>io_buf := [], io_pos := 0\<rparr>)))"
    by (subst read_line_loop.simps, simp only: avail_def [symmetric] Let_def if_not_P [OF NL] x
        flip: grow_def) (simp only: sz'_def)
  show ?thesis
  proof (cases "grow \<and> \<not> malloc_ok P sz'")
    case True
    then have "\<not> malloc_ok P (max 256 ((length line + length avail) * 2))"
      by (cases grow) (simp_all add: sz'_def)
    moreover have "read_line_loop P line sz io = (Inl WYOMING_ERR_NOMEM, io)"
      using step by (simp only: if_P [OF True])
    ultimately show ?thesis using nomem unfolding avail_def by blast
  next
    case False
    with step nomem data stop xE show ?thesis by (cases x) (simp_all add: avail_def [symmetric])
  qed
qed

lemma takeWhile_NL: "NL \<notin> set l \<Longrightarrow> takeWhile (\<lambda>c. c \<noteq> NL) (l @ NL # c) = l"
  by (rule takeWhile_append_stop(1)) auto

lemma read_line_found:
  "pending io = l @ NL # rest \<Longrightarrow> NL \<notin> set l \<Longrightarrow> line_room P (length line + length l) \<Longrightarrow>
     \<exists>io'. read_line_loop P line sz io = (Inr (line @ l), io') \<and> reads io (l @ [NL]) io'"
proof (induction "rx_size (rx (io_fd io))" arbitrary: line sz io l rule: less_induct)
  case less
  define avail where "avail = drop (io_pos io) (io_buf io)"
  have split: "avail @ rx_bytes (rx (io_fd io)) = l @ NL # rest"
    using less.prems(1) by (simp add: pending_def avail_def)
  note room = line_room_malloc [OF less.prems(3)]
  show ?case
  proof (cases "NL \<in> set avail")
    case True
    with split_at_NL(1) [OF split less.prems(2)] obtain c where
      c: "avail = l @ NL # c" "rest = c @ rx_bytes (rx (io_fd io))" by blast
    let ?io' = "io\<lparr>io_pos := io_pos io + length l + 1\<rparr>"
    have "takeWhile (\<lambda>c. c \<noteq> NL) avail = l"
      unfolding c(1) by (rule takeWhile_NL [OF less.prems(2)])
    then have run: "read_line_loop P line sz io = (Inr (line @ l), ?io')"
      using True room [of "length line + length l + 1"]
      by (subst read_line_loop.simps) (simp add: avail_def [symmetric] Let_def)
    have "drop (io_pos io + length l + 1) (io_buf io) = drop (length l + 1) avail"
      by (simp add: avail_def add_ac)
    also have "\<dots> = c" by (simp add: c(1))
    finally have p: "pending ?io' = rest" by (simp add: pending_def c(2))
    have "length avail \<le> length (io_buf io) - io_pos io" by (simp add: avail_def)
    then have "iobuf_ok io \<longrightarrow> iobuf_ok ?io'" by (auto simp: iobuf_ok_def c(1))
    with p less.prems(1) have "reads io (l @ [NL]) ?io'" by (simp add: reads_def stream_end_def)
    with run show ?thesis by blast
  next
    case False
    with split_at_NL(2) [OF split less.prems(2)] obtain l' where
      l: "l = avail @ l'" "rx_bytes (rx (io_fd io)) = l' @ NL # rest" by blast
    obtain x r where x: "read_retry WYOMING_READBUF_SIZE (rx (io_fd io)) = (x, r)" by force
    from read_retry_spec [OF _ x] l(2) obtain bs where
      bs: "x = Data bs" "length bs \<le> WYOMING_READBUF_SIZE" "bs @ rx_bytes r = l' @ NL # rest"
      "rx_end r = rx_end (rx (io_fd io))"
      by (cases x) auto
    let ?io1 = "(set_rx r io)\<lparr>io_buf := bs, io_pos := 0\<rparr>"
    have m: "malloc_ok P (max 256 ((length line + length avail) * 2))"
      by (rule room) (simp add: l(1))
    obtain sz' where step: "read_line_loop P line sz io = read_line_loop P (line @ avail) sz' ?io1"
      using m bs(1)
      by (rule_tac read_line_refill [OF False [unfolded avail_def] x, of P line sz])
        (auto simp: avail_def)
    have "\<exists>io'. read_line_loop P (line @ avail) sz' ?io1 = (Inr ((line @ avail) @ l'), io') \<and>
        reads ?io1 (l' @ [NL]) io'"
    proof (rule less.hyps)
      show "rx_size (rx (io_fd ?io1)) < rx_size (rx (io_fd io))"
        using x bs(1) read_retry_size by simp
    qed (use l less.prems bs(3) in \<open>simp_all add: pending_def add.assoc\<close>)
    then obtain io' where io': "read_line_loop P (line @ avail) sz' ?io1 = (Inr ((line @ avail) @ l'), io')"
      "reads ?io1 (l' @ [NL]) io'" by blast
    have "pending io' = rest" using io'(2) bs(3) by (simp add: reads_def pending_def)
    then have "reads io (l @ [NL]) io'"
      using io'(2) less.prems(1) bs(2,4) by (auto simp: reads_def stream_end_def iobuf_ok_def)
    with step io'(1) l(1) show ?thesis by simp
  qed
qed

text \<open>Whatever happens, a read leaves what was and will be written alone, and the buffer in
  shape.\<close>

definition only_reads :: "iobuf \<Rightarrow> iobuf \<Rightarrow> bool" where
  "only_reads io io' \<longleftrightarrow>
     ws (io_fd io') = ws (io_fd io) \<and> tx (io_fd io') = tx (io_fd io) \<and>
     (iobuf_ok io \<longrightarrow> iobuf_ok io')"

lemma only_reads_refl [simp]: "only_reads io io"
  by (simp add: only_reads_def)

lemma only_reads_trans [trans]: "only_reads a b \<Longrightarrow> only_reads b c \<Longrightarrow> only_reads a c"
  by (simp add: only_reads_def)

lemma reads_only [intro]: "reads io d io' \<Longrightarrow> only_reads io io'"
  by (simp add: reads_def only_reads_def)

lemma refill_only: "length bs \<le> WYOMING_READBUF_SIZE \<Longrightarrow>
    only_reads io ((set_rx r io)\<lparr>io_buf := bs, io_pos := 0\<rparr>)"
  by (simp add: only_reads_def iobuf_ok_def)

text \<open>The outcome of reading a line, with any memory: the line and nothing more is consumed,
  or the stream ended before a newline, or an allocation failed.\<close>

definition line_outcome :: "byte list \<Rightarrow> iobuf \<Rightarrow> wyoming_error + byte list \<Rightarrow> iobuf \<Rightarrow> bool" where
  "line_outcome line io res io' \<longleftrightarrow>
     only_reads io io' \<and>
     (case res of
        Inr s \<Rightarrow> \<exists>l. s = line @ l \<and> NL \<notin> set l \<and> reads io (l @ [NL]) io'
      | Inl e \<Rightarrow> e = WYOMING_ERR_NOMEM \<or> e = stream_end io \<and> NL \<notin> set (pending io))"

lemma line_outcome_more:
  assumes "line_outcome (line @ a) io1 res io'" and "pending io = a @ pending io1"
    and "stream_end io1 = stream_end io" and "only_reads io io1" and "NL \<notin> set a"
  shows "line_outcome line io res io'"
proof (cases res)
  case (Inl e)
  with assms show ?thesis by (auto simp: line_outcome_def intro: only_reads_trans)
next
  case (Inr s)
  with assms(1) obtain l where l: "s = line @ a @ l" "NL \<notin> set l" "reads io1 (l @ [NL]) io'"
    "only_reads io1 io'" by (auto simp: line_outcome_def)
  have "reads io (a @ l @ [NL]) io'" using l(3) assms(2-4) by (simp add: reads_def only_reads_def)
  with Inr l assms(4,5) show ?thesis
    by (auto simp: line_outcome_def intro: only_reads_trans intro!: exI [of _ "a @ l"])
qed

lemma read_line_loop_outcome:
  "read_line_loop P line sz io = (res, io') \<Longrightarrow> line_outcome line io res io'"
proof (induction "rx_size (rx (io_fd io))" arbitrary: line sz io rule: less_induct)
  case less
  define avail where "avail = drop (io_pos io) (io_buf io)"
  have pend: "pending io = avail @ rx_bytes (rx (io_fd io))" by (simp add: pending_def avail_def)
  show ?case
  proof (cases "NL \<in> set avail")
    case True
    define l where "l = takeWhile (\<lambda>c. c \<noteq> NL) avail"
    obtain c where c: "avail = l @ NL # c" "NL \<notin> set l"
      using split_list_first [OF True] by (auto simp: l_def takeWhile_NL)
    let ?io' = "io\<lparr>io_pos := io_pos io + length l + 1\<rparr>"
    have "drop (io_pos io + length l + 1) (io_buf io) = drop (length l + 1) avail"
      by (simp add: avail_def add_ac)
    also have "\<dots> = c" by (simp add: c(1))
    finally have "pending ?io' = c @ rx_bytes (rx (io_fd io))" by (simp add: pending_def)
    moreover have "length avail \<le> length (io_buf io) - io_pos io" by (simp add: avail_def)
    then have "iobuf_ok io \<longrightarrow> iobuf_ok ?io'" by (auto simp: iobuf_ok_def c(1))
    ultimately have "reads io (l @ [NL]) ?io'" by (simp add: reads_def stream_end_def pend c(1))
    moreover from this have "only_reads io ?io'" by blast
    moreover have "res = Inl WYOMING_ERR_NOMEM \<and> io' = io \<or> res = Inr (line @ l) \<and> io' = ?io'"
      using less.prems True
      by (simp add: read_line_loop.simps [of P line sz io] Let_def l_def [symmetric]
          avail_def [symmetric] split: if_splits)
    ultimately show ?thesis using c(2) by (auto simp: line_outcome_def)
  next
    case False
    obtain x r where x: "read_retry WYOMING_READBUF_SIZE (rx (io_fd io)) = (x, r)" by force
    note spec = read_retry_spec [OF _ x, simplified]
    from False have NL: "NL \<notin> set (drop (io_pos io) (io_buf io))" by (simp add: avail_def)
    from NL x show ?thesis
    proof (rule read_line_refill [of io x r P line sz])
      assume "read_line_loop P line sz io = (Inl WYOMING_ERR_NOMEM, io)"
      with less.prems show ?thesis by (auto simp: line_outcome_def)
    next
      fix bs sz'
      let ?io1 = "(set_rx r io)\<lparr>io_buf := bs, io_pos := 0\<rparr>"
      assume bs: "x = Data bs" and step: "read_line_loop P line sz io =
         read_line_loop P (line @ drop (io_pos io) (io_buf io)) sz' ?io1"
      have p1: "pending io = avail @ pending ?io1" "stream_end ?io1 = stream_end io"
        "only_reads io ?io1"
        using spec bs by (simp_all add: avail_def pending_def stream_end_def refill_only)
      have "rx_size (rx (io_fd ?io1)) < rx_size (rx (io_fd io))"
        using x bs read_retry_size by simp
      moreover have "read_line_loop P (line @ avail) sz' ?io1 = (res, io')"
        using step less.prems by (simp add: avail_def)
      ultimately have "line_outcome (line @ avail) ?io1 res io'" by (rule less.hyps)
      from line_outcome_more [OF this p1 False] show ?thesis .
    next
      fix e
      assume e: "x = Eof \<and> e = WYOMING_ERR_EOF \<or> x = Failed \<and> e = WYOMING_ERR_IO"
        and stop: "read_line_loop P line sz io =
           (Inl e, (set_rx r io)\<lparr>io_buf := [], io_pos := 0\<rparr>)"
      then have "res = Inl e" "only_reads io io'"
        using less.prems refill_only [of "[]"] by auto
      with e spec False show ?thesis
        by (auto simp: line_outcome_def stream_end_def pend)
    qed
  qed
qed

lemma iobuf_read_line_outcome:
  "iobuf_read_line P io = (res, io') \<Longrightarrow> line_outcome [] io res io'"
  unfolding iobuf_read_line_def by (rule read_line_loop_outcome)

lemma read_line_memory:
  "line_room P (length line + length (pending io) + 1) \<Longrightarrow>
     fst (read_line_loop P line sz io) \<noteq> Inl WYOMING_ERR_NOMEM"
proof (induction "rx_size (rx (io_fd io))" arbitrary: line sz io rule: less_induct)
  case less
  define avail where "avail = drop (io_pos io) (io_buf io)"
  have pend: "pending io = avail @ rx_bytes (rx (io_fd io))" by (simp add: pending_def avail_def)
  note room = line_room_malloc [OF less.prems]
  show ?case
  proof (cases "NL \<in> set avail")
    case True
    have "malloc_ok P (length line + length (takeWhile (\<lambda>c. c \<noteq> NL) avail) + 1)"
      using length_takeWhile_le [of "\<lambda>c. c \<noteq> NL" avail] by (intro room) (simp add: pend)
    with True show ?thesis
      by (simp add: read_line_loop.simps [of P line sz io] Let_def avail_def)
  next
    case False
    obtain x r where x: "read_retry WYOMING_READBUF_SIZE (rx (io_fd io)) = (x, r)" by force
    have m: "malloc_ok P (max 256 ((length line + length avail) * 2))"
      by (rule room) (simp add: pend)
    from False have "NL \<notin> set (drop (io_pos io) (io_buf io))" by (simp add: avail_def)
    then show ?thesis using x
    proof (rule read_line_refill [of io x r P line sz])
      fix bs sz'
      let ?io1 = "(set_rx r io)\<lparr>io_buf := bs, io_pos := 0\<rparr>"
      assume bs: "x = Data bs" and step: "read_line_loop P line sz io =
         read_line_loop P (line @ drop (io_pos io) (io_buf io)) sz' ?io1"
      have "rx_size (rx (io_fd ?io1)) < rx_size (rx (io_fd io))"
        using x bs read_retry_size by simp
      moreover have "pending io = avail @ pending ?io1"
        using read_retry_spec [OF _ x] bs by (simp add: avail_def pending_def)
      then have "length line + length (pending io) = length (line @ avail) + length (pending ?io1)"
        by simp
      with less.prems have "line_room P (length (line @ avail) + length (pending ?io1) + 1)"
        by (simp only:)
      ultimately have "fst (read_line_loop P (line @ avail) sz' ?io1) \<noteq> Inl WYOMING_ERR_NOMEM"
        by (rule less.hyps)
      with step show ?thesis by (simp add: avail_def)
    qed (use m in \<open>auto simp: avail_def\<close>)
  qed
qed

lemma iobuf_read_line_found:
  "pending io = l @ NL # rest \<Longrightarrow> NL \<notin> set l \<Longrightarrow> line_room P (length l) \<Longrightarrow>
     \<exists>io'. iobuf_read_line P io = (Inr l, io') \<and> reads io (l @ [NL]) io'"
  unfolding iobuf_read_line_def using read_line_found [of io l rest P "[]"] by simp

lemma iobuf_read_line_ended:
  assumes "NL \<notin> set (pending io)" and "line_room P (length (pending io) + 1)"
  shows "\<exists>io'. iobuf_read_line P io = (Inl (stream_end io), io') \<and> only_reads io io'"
proof -
  obtain res io' where r: "iobuf_read_line P io = (res, io')" by force
  from iobuf_read_line_outcome [OF r] have out: "line_outcome [] io res io'" .
  moreover have "res \<noteq> Inl WYOMING_ERR_NOMEM"
    using read_line_memory [of P "[]" io 0] assms(2) r by (simp add: iobuf_read_line_def)
  ultimately have "res = Inl (stream_end io) \<and> only_reads io io'"
    using assms(1) by (cases res) (auto simp: line_outcome_def reads_def)
  with r show ?thesis by simp
qed

subsection \<open>Reading a count of bytes\<close>

lemma read_exact_loop_spec:
  "length dest \<le> count \<Longrightarrow>
     (if count \<le> length dest + length (rx_bytes r)
      then \<exists>r'. read_exact_loop count dest r = (Inr (dest @ take (count - length dest) (rx_bytes r)), r') \<and>
             rx_bytes r' = drop (count - length dest) (rx_bytes r) \<and> rx_end r' = rx_end r
      else \<exists>r'. read_exact_loop count dest r = (Inl (rx_end r), r'))"
proof (induction count dest r rule: read_exact_loop.induct)
  case (1 count dest r)
  show ?case
  proof (cases "length dest < count")
    case False
    with "1.prems" show ?thesis by (simp add: read_exact_loop.simps [of count dest r])
  next
    case True
    obtain x r1 where x: "sys_read (count - length dest) r = (x, r1)" by force
    have spec: "arrives (count - length dest) r x r1"
      using True by (intro sys_read_spec [OF _ x]) simp
    show ?thesis
    proof (cases x)
      case (Data bs)
      with spec have bs: "length (dest @ bs) \<le> count" "rx_bytes r = bs @ rx_bytes r1"
        "rx_end r1 = rx_end r" using True by auto
      have "read_exact_loop count dest r = read_exact_loop count (dest @ bs) r1"
        using True x Data by (simp add: read_exact_loop.simps [of count dest r])
      with "1.IH"(1) [OF True x [symmetric] Data bs(1)] bs True show ?thesis
        by (auto simp: diff_diff_add split: if_splits)
    next
      case Eintr
      have "read_exact_loop count dest r = read_exact_loop count dest r1"
        using True x Eintr by (simp add: read_exact_loop.simps [of count dest r])
      with "1.IH"(2) [OF True x [symmetric] Eintr "1.prems"] spec Eintr show ?thesis
        by (auto split: if_splits)
    qed (use True x spec in \<open>simp_all add: read_exact_loop.simps [of count dest r]\<close>)
  qed
qed

lemma iobuf_read_exact_spec:
  assumes "iobuf_read_exact io n = (res, io')"
  shows "only_reads io io' \<and>
    (if n \<le> length (pending io)
     then res = Inr (take n (pending io)) \<and> reads io (take n (pending io)) io'
     else res = Inl (stream_end io))"
proof -
  define avail where "avail = drop (io_pos io) (io_buf io)"
  define b where "b = take n avail"
  have pend: "pending io = avail @ rx_bytes (rx (io_fd io))" by (simp add: pending_def avail_def)
  obtain r where r: "read_exact_loop n b (rx (io_fd io)) = (res, r)"
    and io': "io' = set_rx r (io\<lparr>io_pos := io_pos io + length b\<rparr>)"
    using assms by (auto simp: iobuf_read_exact_def Let_def avail_def b_def split: prod.splits)
  have drop_b: "drop (io_pos io + length b) (io_buf io) = drop n avail"
    by (simp add: b_def avail_def min_def add.commute)
  have "length b \<le> length (io_buf io) - io_pos io" by (simp add: b_def avail_def)
  then have "iobuf_ok io \<longrightarrow> iobuf_ok io'" by (auto simp: io' iobuf_ok_def)
  then have only: "only_reads io io'" by (simp add: io' only_reads_def)
  have "length b \<le> n" by (simp add: b_def)
  note spec = read_exact_loop_spec [OF this, of "rx (io_fd io)", unfolded r]
  show ?thesis
  proof (cases "n \<le> length (pending io)")
    case True
    then have "n \<le> length b + length (rx_bytes (rx (io_fd io)))"
      by (auto simp: pend b_def min_def)
    with spec have res: "res = Inr (b @ take (n - length b) (rx_bytes (rx (io_fd io))))"
      and r': "rx_bytes r = drop (n - length b) (rx_bytes (rx (io_fd io)))"
        "rx_end r = rx_end (rx (io_fd io))"
      by auto
    have "n - length b = n - length avail" by (simp add: b_def min_def)
    with res r' have "res = Inr (take n (pending io))" and
      "drop n (pending io) = drop n avail @ rx_bytes r"
      by (simp_all add: pend b_def)
    moreover have "pending io' = drop n avail @ rx_bytes r"
      by (simp add: io' pending_def drop_b)
    ultimately have "res = Inr (take n (pending io))" and "pending io' = drop n (pending io)"
      by simp_all
    with True only r'(2) show ?thesis by (simp add: reads_def only_reads_def stream_end_def io')
  next
    case False
    then have "\<not> n \<le> length b + length (rx_bytes (rx (io_fd io)))"
      by (auto simp: pend b_def min_def)
    with spec False only show ?thesis by (simp add: stream_end_def)
  qed
qed

subsection \<open>Reading uses up the stream\<close>

text \<open>What is left to read, counting what lies behind a failure too.\<close>

definition io_size :: "iobuf \<Rightarrow> nat" where
  "io_size io = length (drop (io_pos io) (io_buf io)) + rx_size (rx (io_fd io))"

lemma sys_read_uses:
  "sys_read cap r = (x, r') \<Longrightarrow> rx_size r' + (case x of Data bs \<Rightarrow> length bs | _ \<Rightarrow> 0) \<le> rx_size r"
  by (induction cap r rule: sys_read.induct) (auto split: if_splits)

lemma read_retry_uses:
  "read_retry cap r = (x, r') \<Longrightarrow> rx_size r' + (case x of Data bs \<Rightarrow> length bs | _ \<Rightarrow> 0) \<le> rx_size r"
proof (induction cap r rule: read_retry.induct)
  case (1 cap r)
  obtain y r1 where y: "sys_read cap r = (y, r1)" by force
  note use1 = sys_read_uses [OF y]
  show ?case
  proof (cases "y = Eintr")
    case True
    with y "1.prems" have "read_retry cap r1 = (x, r')"
      by (simp add: read_retry.simps [of cap r])
    from "1.IH" [OF y [symmetric] True this] use1 show ?thesis by simp
  next
    case False
    with y "1.prems" have "y = x \<and> r1 = r'"
      by (cases y) (simp_all add: read_retry.simps [of cap r])
    with use1 show ?thesis by simp
  qed
qed

lemma read_line_loop_uses:
  "read_line_loop P line sz io = (res, io') \<Longrightarrow>
     io_size io' \<le> io_size io \<and> (\<forall>l. res = Inr l \<longrightarrow> io_size io' < io_size io)"
proof (induction "rx_size (rx (io_fd io))" arbitrary: line sz io rule: less_induct)
  case less
  define avail where "avail = drop (io_pos io) (io_buf io)"
  show ?case
  proof (cases "NL \<in> set avail")
    case True
    define l where "l = takeWhile (\<lambda>c. c \<noteq> NL) avail"
    have "length l < length avail"
      using split_list_first [OF True] by (auto simp: l_def takeWhile_NL)
    moreover have "res = Inl WYOMING_ERR_NOMEM \<and> io' = io \<or> io' = io\<lparr>io_pos := io_pos io + length l + 1\<rparr>"
      using less.prems True
      by (auto simp: read_line_loop.simps [of P line sz io] Let_def l_def [symmetric]
          avail_def [symmetric] split: if_splits)
    ultimately show ?thesis by (auto simp: io_size_def avail_def)
  next
    case False
    then have NL: "NL \<notin> set (drop (io_pos io) (io_buf io))" by (simp add: avail_def)
    obtain x r where x: "read_retry WYOMING_READBUF_SIZE (rx (io_fd io)) = (x, r)" by force
    note use1 = read_retry_uses [OF x]
    from NL x show ?thesis
    proof (rule read_line_refill [of io x r P line sz])
      fix bs sz'
      let ?io1 = "(set_rx r io)\<lparr>io_buf := bs, io_pos := 0\<rparr>"
      assume bs: "x = Data bs" and step: "read_line_loop P line sz io =
         read_line_loop P (line @ drop (io_pos io) (io_buf io)) sz' ?io1"
      have "rx_size (rx (io_fd ?io1)) < rx_size (rx (io_fd io))"
        using x bs read_retry_size by simp
      from less.hyps [OF this step [symmetric, THEN trans, OF less.prems]] use1 bs
      show ?thesis by (auto simp: io_size_def)
    qed (use less.prems use1 in \<open>auto simp: io_size_def split: sys_result.splits\<close>)
  qed
qed

lemma read_exact_loop_uses:
  "read_exact_loop count dest r = (res, r') \<Longrightarrow> rx_size r' \<le> rx_size r"
proof (induction count dest r rule: read_exact_loop.induct)
  case (1 count dest r)
  obtain x r1 where x: "sys_read (count - length dest) r = (x, r1)" by force
  note use1 = sys_read_uses [OF x]
  show ?case
  proof (cases "length dest < count")
    case False
    with "1.prems" show ?thesis by (simp add: read_exact_loop.simps [of count dest r])
  next
    case True
    show ?thesis
    proof (cases x)
      case (Data bs)
      with True x "1.prems" have "read_exact_loop count (dest @ bs) r1 = (res, r')"
        by (simp add: read_exact_loop.simps [of count dest r])
      from "1.IH"(1) [OF True x [symmetric] Data this] use1 Data show ?thesis by simp
    next
      case Eintr
      with True x "1.prems" have "read_exact_loop count dest r1 = (res, r')"
        by (simp add: read_exact_loop.simps [of count dest r])
      from "1.IH"(2) [OF True x [symmetric] Eintr this] use1 Eintr show ?thesis by simp
    qed (use True x "1.prems" use1 in \<open>simp_all add: read_exact_loop.simps [of count dest r]\<close>)
  qed
qed

lemma iobuf_read_line_uses:
  "iobuf_read_line P io = (res, io') \<Longrightarrow> io_size io' \<le> io_size io"
  "iobuf_read_line P io = (Inr l, io') \<Longrightarrow> io_size io' < io_size io"
  using read_line_loop_uses [of P "[]" 0 io] by (auto simp: iobuf_read_line_def)

lemma iobuf_read_exact_uses:
  "iobuf_read_exact io n = (res, io') \<Longrightarrow> io_size io' \<le> io_size io"
  by (auto simp: iobuf_read_exact_def Let_def io_size_def split: prod.splits
      dest!: read_exact_loop_uses)

subsection \<open>Writing everything\<close>

text \<open>A write changes only what was written and what the kernel will do next.\<close>

lemma write_all_spec:
  "write_all fd p = (rc, fd') \<Longrightarrow>
     rx fd' = rx fd \<and>
     (rc = WYOMING_OK \<and> tx fd' = tx fd @ p \<or>
      rc = WYOMING_ERR_IO \<and> (\<exists>k<length p. tx fd' = tx fd @ take k p) \<and> WFail \<in> set (ws fd)) \<and>
     set (ws fd') \<subseteq> set (ws fd)"
proof (induction fd p rule: write_all.induct)
  case (1 fd p)
  show ?case
  proof (cases "p = []")
    case True
    with "1.prems" show ?thesis by (simp add: write_all.simps [of fd "[]"])
  next
    case False
    obtain y fd1 where y: "sys_write p fd = (y, fd1)" by force
    show ?thesis
    proof (cases y)
      case (Inr n)
      with y have n: "n \<le> length p" "rx fd1 = rx fd" "tx fd1 = tx fd @ take n p"
        "set (ws fd1) \<subseteq> set (ws fd)"
        by (auto simp: sys_write_def min_def split: list.splits tx_step.splits)
      from y Inr False "1.prems" have "write_all fd1 (drop n p) = (rc, fd')"
        by (simp add: write_all.simps [of fd p])
      from "1.IH"(2) [OF False y [symmetric] Inr this] have IH: "rx fd' = rx fd1"
        "set (ws fd') \<subseteq> set (ws fd1)"
        "rc = WYOMING_OK \<and> tx fd' = tx fd1 @ drop n p \<or>
         rc = WYOMING_ERR_IO \<and> (\<exists>k<length (drop n p). tx fd' = tx fd1 @ take k (drop n p)) \<and>
         WFail \<in> set (ws fd1)" by auto
      from IH(3) have "rc = WYOMING_OK \<and> tx fd' = tx fd @ p \<or>
         rc = WYOMING_ERR_IO \<and> (\<exists>k<length p. tx fd' = tx fd @ take k p) \<and> WFail \<in> set (ws fd)"
      proof (elim disjE conjE exE)
        fix k
        assume k: "k < length (drop n p)" "tx fd' = tx fd1 @ take k (drop n p)"
          "rc = WYOMING_ERR_IO" "WFail \<in> set (ws fd1)"
        then have "tx fd' = tx fd @ take (n + k) p" "n + k < length p"
          by (simp_all add: n(3) take_add)
        with k n(4) show ?thesis by blast
      qed (simp add: n(3))
      with IH n show ?thesis by auto
    next
      case (Inl i)
      with y have i: "rx fd1 = rx fd" "tx fd1 = tx fd" "set (ws fd1) \<subseteq> set (ws fd)"
        "\<not> i \<Longrightarrow> WFail \<in> set (ws fd)"
        by (auto simp: sys_write_def split: list.splits tx_step.splits)
      show ?thesis
      proof (cases i)
        case True
        with y Inl False "1.prems" have "write_all fd1 p = (rc, fd')"
          by (simp add: write_all.simps [of fd p])
        from "1.IH"(1) [OF False y [symmetric] Inl True this] i show ?thesis by auto
      next
        case no: False
        with y Inl False "1.prems" have "rc = WYOMING_ERR_IO" "fd' = fd1"
          by (simp_all add: write_all.simps [of fd p])
        with i no False show ?thesis by (auto intro!: exI [of _ 0])
      qed
    qed
  qed
qed

text \<open>A peer that keeps reading: no write fails.\<close>

definition writable :: "sock \<Rightarrow> bool" where
  "writable fd \<longleftrightarrow> WFail \<notin> set (ws fd)"

lemma write_all_ok:
  "writable fd \<Longrightarrow> \<exists>fd'. write_all fd p = (WYOMING_OK, fd') \<and> rx fd' = rx fd \<and> tx fd' = tx fd @ p \<and> writable fd'"
  using write_all_spec [of fd p] by (cases "write_all fd p") (auto simp: writable_def)

subsection \<open>The interface the event reader uses\<close>

text \<open>
  A source of bytes with the two ways of reading the event code uses. \<open>room\<close> says for which
  line lengths memory suffices, \<open>fate\<close> how the stream ends.
\<close>

locale byte_source =
  fixes pend :: "'s \<Rightarrow> byte list"
    and fate :: "'s \<Rightarrow> wyoming_error"
    and consumed :: "'s \<Rightarrow> byte list \<Rightarrow> 's \<Rightarrow> bool"
    and line :: "'s \<Rightarrow> (wyoming_error + byte list) \<times> 's"
    and exact :: "'s \<Rightarrow> nat \<Rightarrow> (wyoming_error + byte list) \<times> 's"
    and room :: "nat \<Rightarrow> bool"
  assumes consumed_pend: "consumed s d s' \<Longrightarrow> pend s = d @ pend s' \<and> fate s' = fate s"
    and consumed_trans: "consumed s d s' \<Longrightarrow> consumed s' d' s'' \<Longrightarrow> consumed s (d @ d') s''"
    and line_found: "pend s = l @ NL # rest \<Longrightarrow> NL \<notin> set l \<Longrightarrow> room (length l) \<Longrightarrow>
          \<exists>s'. line s = (Inr l, s') \<and> consumed s (l @ [NL]) s'"
    and line_ended: "NL \<notin> set (pend s) \<Longrightarrow> room (length (pend s) + 1) \<Longrightarrow>
          \<exists>s'. line s = (Inl (fate s), s')"
    and exact_found: "n \<le> length (pend s) \<Longrightarrow>
          \<exists>s'. exact s n = (Inr (take n (pend s)), s') \<and> consumed s (take n (pend s)) s'"
    and exact_ended: "length (pend s) < n \<Longrightarrow> \<exists>s'. exact s n = (Inl (fate s), s')"
begin

lemma line_step:
  assumes "pend s = l @ NL # rest" and "NL \<notin> set l" and "room (length l)"
  obtains s' where "line s = (Inr l, s')" and "consumed s (l @ [NL]) s'" and "pend s' = rest"
    and "fate s' = fate s"
proof -
  obtain s' where s': "line s = (Inr l, s')" "consumed s (l @ [NL]) s'"
    using line_found [OF assms] by blast
  with consumed_pend [OF s'(2)] assms(1) that show ?thesis by simp
qed

lemma exact_step:
  assumes "pend s = d @ rest"
  obtains s' where "exact s (length d) = (Inr d, s')" and "consumed s d s'" and "pend s' = rest"
    and "fate s' = fate s"
proof -
  obtain s' where s': "exact s (length d) = (Inr d, s')" "consumed s d s'"
    using exact_found [of "length d" s] assms by auto
  with consumed_pend [OF s'(2)] assms that show ?thesis by simp
qed

lemma exact_cut:
  assumes "pend s = d" and "length d < n"
  obtains s' where "exact s n = (Inl (fate s), s')"
  using exact_ended [of s n] assms by auto

end

interpretation io: byte_source pending stream_end reads "iobuf_read_line P" iobuf_read_exact "line_room P"
  for P
proof
  fix s s' s'' :: iobuf and d d' l rest n
  show "reads s d s' \<Longrightarrow> pending s = d @ pending s' \<and> stream_end s' = stream_end s"
    by (simp add: reads_def)
  show "reads s d s' \<Longrightarrow> reads s' d' s'' \<Longrightarrow> reads s (d @ d') s''"
    by (rule reads_trans)
  show "pending s = l @ NL # rest \<Longrightarrow> NL \<notin> set l \<Longrightarrow> line_room P (length l) \<Longrightarrow>
      \<exists>s'. iobuf_read_line P s = (Inr l, s') \<and> reads s (l @ [NL]) s'"
    by (rule iobuf_read_line_found)
  show "NL \<notin> set (pending s) \<Longrightarrow> line_room P (length (pending s) + 1) \<Longrightarrow>
      \<exists>s'. iobuf_read_line P s = (Inl (stream_end s), s')"
    using iobuf_read_line_ended by blast
  show "n \<le> length (pending s) \<Longrightarrow>
      \<exists>s'. iobuf_read_exact s n = (Inr (take n (pending s)), s') \<and> reads s (take n (pending s)) s'"
    using iobuf_read_exact_spec [of s n] by (cases "iobuf_read_exact s n") auto
  show "length (pending s) < n \<Longrightarrow> \<exists>s'. iobuf_read_exact s n = (Inl (stream_end s), s')"
    using iobuf_read_exact_spec [of s n] by (cases "iobuf_read_exact s n") auto
qed

end
