(* ===== verification/Wy_Event.thy ===== *)
theory Wy_Event
  imports Cjson_Roundtrip Wy_Io
begin

text \<open>
  Wyoming events on the wire (\<^verbatim>\<open>src/event.c\<close>): a header line of JSON with the type, the
  protocol version and the lengths of what follows, then the data as JSON, then the raw
  payload. \<^verbatim>\<open>wyoming_event_write_fd\<close> sends an event, \<^verbatim>\<open>wyoming_event_read_iobuf\<close>
  receives one; the theorems at the end say that the second inverts the first, however the
  bytes are cut up on the way.
\<close>

subsection \<open>Events\<close>

text \<open>\<^verbatim>\<open>wyoming_event_t\<close>; \<^verbatim>\<open>payload_len\<close> is the length of the payload, 0 for NULL.\<close>

record event =
  ev_type :: "string option"
  ev_data :: "cJSON option"
  ev_payload :: "byte list option"

definition wyoming_event_init :: event where
  "wyoming_event_init = \<lparr>ev_type = None, ev_data = None, ev_payload = None\<rparr>"

text \<open>\<^verbatim>\<open>wyoming_event_free\<close> clears every field it releases.\<close>

definition wyoming_event_free :: "event \<Rightarrow> event" where
  "wyoming_event_free event =
     event\<lparr>ev_type := None, ev_data := None, ev_payload := None\<rparr>"

definition payload_len :: "event \<Rightarrow> nat" where
  "payload_len event = (case ev_payload event of None \<Rightarrow> 0 | Some p \<Rightarrow> length p)"

subsection \<open>Receiving\<close>

text \<open>A length of the header: a positive number, converted to \<^verbatim>\<open>size_t\<close>; otherwise 0.\<close>

definition header_length :: "platform \<Rightarrow> cJSON option \<Rightarrow> nat" where
  "header_length P item =
     (case number_of item of
        Some d \<Rightarrow> if dbl_pos d then to_size_t P d else 0
      | None \<Rightarrow> 0)"

text \<open>Steps 4 and 5 of \<^verbatim>\<open>wyoming_event_read_iobuf\<close>: the data block and the payload.\<close>

definition read_data :: "platform \<Rightarrow> nat \<Rightarrow> event \<Rightarrow> iobuf \<Rightarrow> wyoming_error \<times> event \<times> iobuf" where
  "read_data P data_length event io =
     (if data_length = 0 then (WYOMING_OK, event, io)
      else if \<not> malloc_ok P ((data_length + 1) mod 2 ^ 64)
      then (WYOMING_ERR_NOMEM, wyoming_event_free event, io)
      else (case iobuf_read_exact io data_length of
              (Inl rc, io) \<Rightarrow> (rc, wyoming_event_free event, io)
            | (Inr data_buf, io) \<Rightarrow>
                (case cJSON_Parse P data_buf of
                   None \<Rightarrow> (WYOMING_ERR_PARSE, wyoming_event_free event, io)
                 | Some d \<Rightarrow> (WYOMING_OK, event\<lparr>ev_data := Some d\<rparr>, io))))"

definition read_payload :: "platform \<Rightarrow> nat \<Rightarrow> event \<Rightarrow> iobuf \<Rightarrow> wyoming_error \<times> event \<times> iobuf" where
  "read_payload P payload_length event io =
     (if payload_length = 0 then (WYOMING_OK, event, io)
      else if \<not> malloc_ok P payload_length
      then (WYOMING_ERR_NOMEM, wyoming_event_free event, io)
      else (case iobuf_read_exact io payload_length of
              (Inl rc, io) \<Rightarrow> (rc, wyoming_event_free event, io)
            | (Inr payload, io) \<Rightarrow> (WYOMING_OK, event\<lparr>ev_payload := Some payload\<rparr>, io)))"

definition wyoming_event_read_iobuf :: "platform \<Rightarrow> iobuf \<Rightarrow> wyoming_error \<times> event \<times> iobuf" where
  "wyoming_event_read_iobuf P io =
     (let event = wyoming_event_init
      in case iobuf_read_line P io of
           (Inl rc, io) \<Rightarrow> (rc, event, io)
         | (Inr line, io) \<Rightarrow>
             (case cJSON_Parse P line of
                None \<Rightarrow> (WYOMING_ERR_PARSE, event, io)
              | Some header \<Rightarrow>
                  (case string_of (cJSON_GetObjectItemCaseSensitive (Some header) ''type'') of
                     None \<Rightarrow> (WYOMING_ERR_PARSE, event, io)
                   | Some s \<Rightarrow>
                       (case strdup P s of
                          None \<Rightarrow> (WYOMING_ERR_NOMEM, event, io)
                        | Some type \<Rightarrow>
                            let event = event\<lparr>ev_type := Some type\<rparr>;
                                data_length = header_length P
                                  (cJSON_GetObjectItemCaseSensitive (Some header) ''data_length'');
                                payload_length = header_length P
                                  (cJSON_GetObjectItemCaseSensitive (Some header) ''payload_length'')
                            in case read_data P data_length event io of
                                 (rc, event, io) \<Rightarrow>
                                   if rc \<noteq> WYOMING_OK then (rc, event, io)
                                   else read_payload P payload_length event io))))"

subsection \<open>Sending\<close>

text \<open>The header. A member that cannot be added for lack of memory is left out.\<close>

definition event_header :: "platform \<Rightarrow> string \<Rightarrow> nat \<Rightarrow> nat \<Rightarrow> cJSON option" where
  "event_header P type data_len pl_len =
     (let header = cJSON_CreateObject P;
          header = cJSON_AddStringToObject P header ''type'' type;
          header = cJSON_AddStringToObject P header ''version'' (lib_version P);
          header = (if 0 < data_len
                    then cJSON_AddNumberToObject P header ''data_length''
                           (to_double (of_nat data_len))
                    else header);
          header = (if 0 < pl_len
                    then cJSON_AddNumberToObject P header ''payload_length''
                           (to_double (of_nat pl_len))
                    else header)
      in header)"

text \<open>Writing the segments one after the other, stopping at the first that fails.\<close>

fun write_segments :: "sock \<Rightarrow> byte list list \<Rightarrow> wyoming_error \<times> sock" where
  "write_segments fd [] = (WYOMING_OK, fd)"
| "write_segments fd (p # ps) =
     (case write_all fd p of
        (rc, fd) \<Rightarrow> if rc = WYOMING_OK then write_segments fd ps else (rc, fd))"

text \<open>\<^verbatim>\<open>wyoming_event_write_fd\<close>. An event without a type and a NULL event are refused alike.\<close>

definition wyoming_event_write_fd :: "platform \<Rightarrow> sock \<Rightarrow> event \<Rightarrow> wyoming_error \<times> sock" where
  "wyoming_event_write_fd P fd event =
     (case ev_type event of
        None \<Rightarrow> (WYOMING_ERR_INVAL, fd)
      | Some type \<Rightarrow>
          (case (case ev_data event of
                   None \<Rightarrow> Some None
                 | Some d \<Rightarrow> map_option Some (cJSON_PrintUnformatted P d)) of
             None \<Rightarrow> (WYOMING_ERR_NOMEM, fd)
           | Some data_str \<Rightarrow>
               let data_len = (case data_str of None \<Rightarrow> 0 | Some s \<Rightarrow> length s)
               in case event_header P type data_len (payload_len event) of
                    None \<Rightarrow> (WYOMING_ERR_NOMEM, fd)
                  | Some header \<Rightarrow>
                      (case cJSON_PrintUnformatted P header of
                         None \<Rightarrow> (WYOMING_ERR_NOMEM, fd)
                       | Some header_str \<Rightarrow>
                           write_segments fd
                             ([header_str, [NL]] @
                              (case data_str of
                                 Some s \<Rightarrow> if 0 < data_len then [s] else []
                               | None \<Rightarrow> []) @
                              (case ev_payload event of
                                 Some p \<Rightarrow> if 0 < length p then [p] else []
                               | None \<Rightarrow> [])))))"

subsection \<open>Frames\<close>

text \<open>What an event looks like on the wire.\<close>

definition header_json :: "string \<Rightarrow> string \<Rightarrow> nat \<Rightarrow> nat \<Rightarrow> cJSON" where
  "header_json type version data_len pl_len =
     cJSON_Object
       ([(''type'', cJSON_String type), (''version'', cJSON_String version)] @
        (if 0 < data_len then [(''data_length'', cJSON_Number (Fin (of_nat data_len)))] else []) @
        (if 0 < pl_len then [(''payload_length'', cJSON_Number (Fin (of_nat pl_len)))] else []))"

definition data_text :: "event \<Rightarrow> byte list" where
  "data_text event = (case ev_data event of None \<Rightarrow> [] | Some d \<Rightarrow> render d)"

definition payload_text :: "event \<Rightarrow> byte list" where
  "payload_text event = (case ev_payload event of None \<Rightarrow> [] | Some p \<Rightarrow> p)"

definition header_text :: "platform \<Rightarrow> event \<Rightarrow> byte list" where
  "header_text P event =
     render (header_json (the (ev_type event)) (lib_version P)
       (length (data_text event)) (length (payload_text event)))"

definition frame :: "platform \<Rightarrow> event \<Rightarrow> byte list" where
  "frame P event = header_text P event @ NL # data_text event @ payload_text event"

text \<open>An event as the library builds them, and a platform with memory for it. An empty payload
  is not told from none on the wire.\<close>

definition event_wf :: "event \<Rightarrow> bool" where
  "event_wf event \<longleftrightarrow>
     (case ev_type event of None \<Rightarrow> False | Some type \<Rightarrow> c_string type) \<and>
     (case ev_data event of
        None \<Rightarrow> True
      | Some d \<Rightarrow> json_wf d \<and> int_numbers d \<and> nested CJSON_NESTING_LIMIT d) \<and>
     ev_payload event \<noteq> Some []"

definition event_room :: "platform \<Rightarrow> event \<Rightarrow> bool" where
  "event_room P event \<longleftrightarrow> c_string (lib_version P) \<and> ample P (length (frame P event))"

lemma event_wfE:
  assumes "event_wf event"
  obtains type where "ev_type event = Some type" and "c_string type"
  using assms by (auto simp: event_wf_def split: option.splits)

lemma no_NL_escape: "NL \<notin> set (escape_char c)"
proof -
  have "hex_digit n \<noteq> NL" if "n < 16" for n
  proof -
    have "code (hex_digit n) \<noteq> code NL" using that by (auto simp: hex_digit_def)
    then show ?thesis by metis
  qed
  moreover have "code c div 16 < 16" "code c mod 16 < 16"
    using nat_of_char_less_256 [of c] by (auto simp: less_mult_imp_div_less)
  ultimately have "NL \<noteq> hex_digit (code c div 16)" "NL \<noteq> hex_digit (code c mod 16)"
    by metis+
  then show ?thesis by (auto simp: escape_char_def u04x_def)
qed

lemma no_NL_quote: "NL \<notin> set (quote s)"
  using no_NL_escape by (auto simp: quote_def)

lemma no_NL_commas: "(\<And>s. s \<in> set ss \<Longrightarrow> NL \<notin> set s) \<Longrightarrow> NL \<notin> set (commas ss)"
  by (induction ss) auto

text \<open>Printed JSON is one line.\<close>

lemma no_NL_render: "int_numbers v \<Longrightarrow> NL \<notin> set (render v)"
proof (induction v)
  case (cJSON_Number d)
  have "NL \<notin> set (dec_int i)" for i using dec_int_chars [of NL i] by (auto simp: isdigit_def)
  with cJSON_Number show ?case by (simp add: number_text_int_valued)
next
  case (cJSON_Array xs)
  then have "NL \<notin> set (commas (map render xs))"
    by (intro no_NL_commas) (auto simp: list_all_iff)
  then show ?case by simp
next
  case (cJSON_Object kvs)
  have "NL \<notin> set (member_text kv)" if "kv \<in> set kvs" for kv
    using cJSON_Object.IH [of kv "snd kv"] cJSON_Object.prems that no_NL_quote [of "fst kv"]
    by (cases kv) (auto simp: member_text_def list_all_iff)
  then have "NL \<notin> set (commas (map member_text kvs))" by (intro no_NL_commas) auto
  then show ?case by simp
qed (simp_all add: no_NL_quote)

subsection \<open>Sending puts the frame on the wire\<close>

lemma write_segments_spec:
  "write_segments fd ps = (rc, fd') \<Longrightarrow>
     rx fd' = rx fd \<and>
     (rc = WYOMING_OK \<and> tx fd' = tx fd @ concat ps \<or>
      rc = WYOMING_ERR_IO \<and> (\<exists>k<length (concat ps). tx fd' = tx fd @ take k (concat ps)) \<and>
      WFail \<in> set (ws fd)) \<and>
     set (ws fd') \<subseteq> set (ws fd)"
proof (induction fd ps rule: write_segments.induct)
  case (2 fd p ps)
  obtain rc1 fd1 where w: "write_all fd p = (rc1, fd1)" by force
  note spec = write_all_spec [OF w]
  show ?case
  proof (cases "rc1 = WYOMING_OK")
    case True
    with w "2.prems" have rest: "write_segments fd1 ps = (rc, fd')" by simp
    have fd1: "rx fd1 = rx fd" "tx fd1 = tx fd @ p" "set (ws fd1) \<subseteq> set (ws fd)"
      using spec True by auto
    from "2.IH" [OF w [symmetric] True rest] have IH: "rx fd' = rx fd1"
      "set (ws fd') \<subseteq> set (ws fd1)"
      "rc = WYOMING_OK \<and> tx fd' = tx fd1 @ concat ps \<or> rc = WYOMING_ERR_IO \<and>
       (\<exists>k<length (concat ps). tx fd' = tx fd1 @ take k (concat ps)) \<and> WFail \<in> set (ws fd1)"
      by auto
    from IH(3) have "rc = WYOMING_OK \<and> tx fd' = tx fd @ concat (p # ps) \<or> rc = WYOMING_ERR_IO \<and>
       (\<exists>k<length (concat (p # ps)). tx fd' = tx fd @ take k (concat (p # ps))) \<and>
       WFail \<in> set (ws fd)"
    proof (elim disjE conjE exE)
      fix k
      assume k: "rc = WYOMING_ERR_IO" "k < length (concat ps)" "WFail \<in> set (ws fd1)"
        "tx fd' = tx fd1 @ take k (concat ps)"
      then have "length p + k < length (concat (p # ps))"
        "tx fd' = tx fd @ take (length p + k) (concat (p # ps))"
        by (simp_all add: fd1(2))
      with k fd1(3) show ?thesis by blast
    qed (simp add: fd1(2))
    with IH fd1 show ?thesis by auto
  next
    case False
    with w "2.prems" have "rc1 = rc" "fd1 = fd'" by simp_all
    with spec False obtain k where "k < length p" "tx fd' = tx fd @ take k p" "rc = WYOMING_ERR_IO"
      "WFail \<in> set (ws fd)" by auto
    moreover from this have "k < length (concat (p # ps))"
      "tx fd' = tx fd @ take k (concat (p # ps))" by simp_all
    ultimately show ?thesis using spec \<open>fd1 = fd'\<close> by blast
  qed
qed simp

lemma ample_header:
  assumes "c_string type" and "c_string version"
    and "ample P (length (render (header_json type version n m)) + n + m)"
    and "lib_version P = version"
  shows "event_header P type n m = Some (header_json type version n m)"
proof -
  let ?len = "length (render (header_json type version n m))"
  have m: "malloc_ok P k" if "k \<le> 256 \<or> k \<le> ?len" for k
    using ample_malloc [OF assms(3), of k] that by auto
  have q: "length s \<le> length (quote s)" for s by (simp add: length_quote)
  have "length type + 1 \<le> ?len" "length version + 1 \<le> ?len"
    using q [of type] q [of version] by (auto simp: header_json_def member_text_def)
  then have "malloc_ok P (length type + 1)" "malloc_ok P (length version + 1)"
    by (blast intro: m)+
  moreover have small: "k \<le> 256 \<Longrightarrow> malloc_ok P k" for k
    by (rule m) simp
  moreover have "n < 2 ^ 53" "m < 2 ^ 53"
    using assms(3) by (auto simp: ample_def roomy_def)
  then have "to_double (of_nat n) = Fin (of_nat n)" "to_double (of_nat m) = Fin (of_nat m)"
    using to_double_of_int [of "int n"] to_double_of_int [of "int m"] by simp_all
  ultimately show ?thesis
    using assms(4)
    by (cases "0 < n"; cases "0 < m") (simp_all add: event_header_def header_json_def Let_def cjson_build small)
qed

lemma header_json_wf:
  assumes "c_string type" and "c_string version" and "n \<le> nat INT_MAX" and "m \<le> nat INT_MAX"
  shows "json_wf (header_json type version n m)" "int_numbers (header_json type version n m)"
    "nested CJSON_NESTING_LIMIT (header_json type version n m)"
proof -
  have "int_valued (Fin (of_nat k))" if "k \<le> nat INT_MAX" for k
    using int_valued_of_int [of "int k"] that by simp
  with assms show "json_wf (header_json type version n m)" "int_numbers (header_json type version n m)"
    "nested CJSON_NESTING_LIMIT (header_json type version n m)"
    by (auto simp: header_json_def)
qed

text \<open>The segments of a frame, and the sizes that follow from room for it.\<close>

definition frame_segments :: "platform \<Rightarrow> event \<Rightarrow> byte list list" where
  "frame_segments P event =
     [header_text P event, [NL]] @
     (if data_text event = [] then [] else [data_text event]) @
     (if payload_text event = [] then [] else [payload_text event])"

lemma concat_frame_segments [simp]: "concat (frame_segments P event) = frame P event"
  by (simp add: frame_segments_def frame_def)

lemma frame_sizes:
  assumes "event_wf event" and "event_room P event"
  shows "length (data_text event) \<le> nat INT_MAX" "length (payload_text event) \<le> nat INT_MAX"
    "ample P (length (data_text event))" "ample P (length (header_text P event))"
    "ample P (length (header_text P event) + length (data_text event) + length (payload_text event))"
    "malloc_ok P (length (data_text event) + 1)" "malloc_ok P (length (payload_text event))"
proof -
  have a: "ample P (length (frame P event))" using assms(2) by (simp add: event_room_def)
  show "length (data_text event) \<le> nat INT_MAX" "length (payload_text event) \<le> nat INT_MAX"
    using a by (auto simp: ample_def roomy_def frame_def)
  show "ample P (length (data_text event))" "ample P (length (header_text P event))"
    "ample P (length (header_text P event) + length (data_text event) + length (payload_text event))"
    by (rule ample_mono [OF a]; simp add: frame_def)+
  show "malloc_ok P (length (data_text event) + 1)" "malloc_ok P (length (payload_text event))"
    by (rule ample_malloc [OF a]; simp add: frame_def)+
qed

lemma header_of_event:
  assumes "event_wf event" and "event_room P event" and "ev_type event = Some type"
  defines "h \<equiv> header_json type (lib_version P) (length (data_text event)) (length (payload_text event))"
  shows "json_wf h" "int_numbers h" "nested CJSON_NESTING_LIMIT h" "header_text P event = render h"
    "event_header P type (length (data_text event)) (length (payload_text event)) = Some h"
proof -
  have c: "c_string type" "c_string (lib_version P)"
    using assms(1-3) by (auto simp: event_wf_def event_room_def)
  note s = frame_sizes [OF assms(1,2)]
  show "json_wf h" "int_numbers h" "nested CJSON_NESTING_LIMIT h"
    unfolding h_def by (rule header_json_wf [OF c s(1,2)])+
  show h: "header_text P event = render h"
    by (simp add: header_text_def h_def assms(3))
  show "event_header P type (length (data_text event)) (length (payload_text event)) = Some h"
    unfolding h_def
    by (rule ample_header [OF c _ refl]) (use s(5) h in \<open>simp add: h_def\<close>)
qed

lemma data_printed:
  assumes "event_wf event" and "event_room P event" and "ev_data event = Some d"
  shows "cJSON_PrintUnformatted P d = Some (render d)" "data_text event = render d" "render d \<noteq> []"
proof -
  have d: "json_wf d" "int_numbers d" using assms(1,3) by (auto simp: event_wf_def)
  show t: "data_text event = render d" by (simp add: data_text_def assms(3))
  show "cJSON_PrintUnformatted P d = Some (render d)"
    using print_ample [OF d] frame_sizes(3) [OF assms(1,2)] t by simp
  show "render d \<noteq> []" by (rule render_first [OF d(2)]) simp
qed

lemma write_is_segments:
  assumes "event_wf event" and "event_room P event"
  shows "wyoming_event_write_fd P fd event = write_segments fd (frame_segments P event)"
proof -
  obtain type where type: "ev_type event = Some type" using assms(1) by (rule event_wfE)
  note h = header_of_event [OF assms type]
  have p: "cJSON_PrintUnformatted P (header_json type (lib_version P) (length (data_text event))
      (length (payload_text event))) = Some (header_text P event)"
    using print_ample [OF h(1,2)] frame_sizes(4) [OF assms] h(4) by simp
  have l: "payload_len event = length (payload_text event)"
    by (simp add: payload_len_def payload_text_def split: option.split)
  show ?thesis
  proof (cases "ev_data event")
    case None
    then have "data_text event = []" by (simp add: data_text_def)
    with None type h(5) p l show ?thesis
      by (cases "ev_payload event")
        (simp_all add: wyoming_event_write_fd_def frame_segments_def payload_text_def Let_def
          del: write_segments.simps)
  next
    case (Some d)
    note d = data_printed [OF assms Some]
    from Some type h(5) p l d show ?thesis
      by (cases "ev_payload event")
        (simp_all add: wyoming_event_write_fd_def frame_segments_def payload_text_def Let_def
          del: write_segments.simps)
  qed
qed

lemma write_fd_spec:
  assumes "event_wf event" and "event_room P event"
    and "wyoming_event_write_fd P fd event = (rc, fd')"
  shows "rx fd' = rx fd \<and>
     (rc = WYOMING_OK \<and> tx fd' = tx fd @ frame P event \<or>
      rc = WYOMING_ERR_IO \<and> (\<exists>k<length (frame P event). tx fd' = tx fd @ take k (frame P event)) \<and>
      WFail \<in> set (ws fd))"
  using write_segments_spec [of fd "frame_segments P event" rc fd'] assms
  by (simp add: write_is_segments)

lemma write_fd_ok:
  assumes "event_wf event" and "event_room P event" and "writable fd"
  shows "\<exists>fd'. wyoming_event_write_fd P fd event = (WYOMING_OK, fd') \<and> rx fd' = rx fd \<and>
     tx fd' = tx fd @ frame P event \<and> writable fd'"
  using write_segments_spec [of fd "frame_segments P event"] assms(3)
  by (cases "write_segments fd (frame_segments P event)")
    (auto simp: write_is_segments [OF assms(1,2)] writable_def)

subsection \<open>Receiving inverts sending\<close>

lemma header_length_of_nat:
  "n \<le> nat INT_MAX \<Longrightarrow> 0 < n \<Longrightarrow> header_length P (Some (cJSON_Number (Fin (of_nat n)))) = n"
  by (simp add: header_length_def cjson_read)

lemma header_fields:
  assumes "h = Some (header_json type version n m)" and "n \<le> nat INT_MAX" and "m \<le> nat INT_MAX"
  shows "string_of (cJSON_GetObjectItemCaseSensitive h ''type'') = Some type"
    "header_length P (cJSON_GetObjectItemCaseSensitive h ''data_length'') = n"
    "header_length P (cJSON_GetObjectItemCaseSensitive h ''payload_length'') = m"
proof -
  have none: "header_length P None = 0" by (simp add: header_length_def cjson_read)
  show "string_of (cJSON_GetObjectItemCaseSensitive h ''type'') = Some type"
    by (simp add: assms(1) header_json_def cjson_read)
  show "header_length P (cJSON_GetObjectItemCaseSensitive h ''data_length'') = n"
    using assms(2) by (cases "0 < n") (simp_all add: assms(1) header_json_def cjson_read header_length_of_nat none)
  show "header_length P (cJSON_GetObjectItemCaseSensitive h ''payload_length'') = m"
    using assms(3) by (cases "0 < n"; cases "0 < m")
      (simp_all add: assms(1) header_json_def cjson_read header_length_of_nat none)
qed

lemma read_data_ok:
  assumes "pending io = data_text event @ rest" and "event_wf event" and "event_room P event"
    and "ev_data e = None"
  shows "\<exists>io'. read_data P (length (data_text event)) e io = (WYOMING_OK, e\<lparr>ev_data := ev_data event\<rparr>, io') \<and>
     reads io (data_text event) io' \<and> pending io' = rest"
proof (cases "ev_data event")
  case None
  with assms show ?thesis by (auto simp: read_data_def data_text_def)
next
  case (Some d)
  note d = data_printed [OF assms(2,3) Some]
  obtain io' where io': "iobuf_read_exact io (length (data_text event)) = (Inr (data_text event), io')"
    "reads io (data_text event) io'" "pending io' = rest"
    using io.exact_step [OF assms(1)] by metis
  have "length (data_text event) + 1 < 2 ^ 64" using frame_sizes(1) [OF assms(2,3)] by simp
  then have m: "malloc_ok P ((length (data_text event) + 1) mod 2 ^ 64)"
    using frame_sizes(6) [OF assms(2,3)] by (simp only: mod_less)
  have p: "cJSON_Parse P (data_text event) = Some d"
    using parse_ample [of d P] assms(2) Some frame_sizes(3) [OF assms(2,3)] d(2)
    by (auto simp: event_wf_def)
  have "data_text event \<noteq> []" using d by simp
  with m io' p Some show ?thesis by (simp add: read_data_def)
qed

lemma read_payload_ok:
  assumes "pending io = payload_text event @ rest" and "event_wf event" and "event_room P event"
    and "ev_payload e = None"
  shows "\<exists>io'. read_payload P (length (payload_text event)) e io =
       (WYOMING_OK, e\<lparr>ev_payload := ev_payload event\<rparr>, io') \<and>
     reads io (payload_text event) io' \<and> pending io' = rest"
proof (cases "ev_payload event")
  case None
  with assms show ?thesis by (auto simp: read_payload_def payload_text_def)
next
  case (Some p)
  then have p: "payload_text event = p" "p \<noteq> []"
    using assms(2) by (auto simp: payload_text_def event_wf_def)
  obtain io' where "iobuf_read_exact io (length (payload_text event)) = (Inr (payload_text event), io')"
    "reads io (payload_text event) io'" "pending io' = rest"
    using io.exact_step [OF assms(1)] by metis
  with p Some frame_sizes(7) [OF assms(2,3)] show ?thesis by (simp add: read_payload_def)
qed

lemma read_header_line:
  assumes "event_wf event" and "event_room P event" and "ev_type event = Some type"
    and "pending io = header_text P event @ NL # rest"
  obtains io1 where "pending io1 = rest" and "stream_end io1 = stream_end io"
    and "reads io (header_text P event @ [NL]) io1"
    and "wyoming_event_read_iobuf P io =
       (case read_data P (length (data_text event)) (wyoming_event_init\<lparr>ev_type := Some type\<rparr>) io1 of
          (rc, e, io2) \<Rightarrow> if rc \<noteq> WYOMING_OK then (rc, e, io2)
                         else read_payload P (length (payload_text event)) e io2)"
proof -
  note h = header_of_event [OF assms(1,2,3)] and s = frame_sizes [OF assms(1,2)]
  define hdr where "hdr = header_json type (lib_version P) (length (data_text event)) (length (payload_text event))"
  have "line_room P (length (header_text P event))"
    using s(4) by (auto simp: ample_def line_room_def intro: mem_ok_mono)
  moreover have "NL \<notin> set (header_text P event)" using no_NL_render [OF h(2)] h(4) by simp
  ultimately obtain io1 where l: "iobuf_read_line P io = (Inr (header_text P event), io1)"
    "reads io (header_text P event @ [NL]) io1" "pending io1 = rest" "stream_end io1 = stream_end io"
    using io.line_step [OF assms(4)] by metis
  have parse: "cJSON_Parse P (header_text P event) = Some hdr"
    using parse_ample [OF h(1-3)] s(4) h(4) by (simp add: hdr_def)
  have "length type + 1 \<le> length (header_text P event)"
    by (simp add: h(4) header_json_def member_text_def length_quote)
  with s(4) have dup: "strdup P type = Some type"
    using ample_malloc [OF s(4), of "length type + 1"] by simp
  have hh: "Some hdr = Some (header_json type (lib_version P) (length (data_text event)) (length (payload_text event)))"
    by (simp add: hdr_def)
  show ?thesis
    using that [OF l(3,4,2)] l(1) parse dup header_fields [OF hh s(1,2)]
    by (simp add: wyoming_event_read_iobuf_def Let_def)
qed

text \<open>The data and payload of an event that was received are as they were sent.\<close>

lemma read_frame:
  assumes "event_wf event" and "event_room P event" and "pending io = frame P event @ rest"
  shows "\<exists>io'. wyoming_event_read_iobuf P io = (WYOMING_OK, event, io') \<and>
     reads io (frame P event) io' \<and> pending io' = rest"
proof -
  obtain type where type: "ev_type event = Some type" using assms(1) by (rule event_wfE)
  let ?e = "wyoming_event_init\<lparr>ev_type := Some type\<rparr>"
  have pend: "pending io = header_text P event @ NL # (data_text event @ payload_text event @ rest)"
    using assms(3) by (simp add: frame_def)
  obtain io1 where l: "pending io1 = data_text event @ payload_text event @ rest"
    "reads io (header_text P event @ [NL]) io1"
    and run: "wyoming_event_read_iobuf P io =
       (case read_data P (length (data_text event)) ?e io1 of
          (rc, e, io2) \<Rightarrow> if rc \<noteq> WYOMING_OK then (rc, e, io2)
                         else read_payload P (length (payload_text event)) e io2)"
    by (rule read_header_line [OF assms(1,2) type pend])
  obtain io2 where d: "read_data P (length (data_text event)) ?e io1 =
      (WYOMING_OK, ?e\<lparr>ev_data := ev_data event\<rparr>, io2)"
    "reads io1 (data_text event) io2" "pending io2 = payload_text event @ rest"
    using read_data_ok [OF l(1) assms(1,2), of ?e] by (auto simp: wyoming_event_init_def)
  obtain io3 where p: "read_payload P (length (payload_text event)) (?e\<lparr>ev_data := ev_data event\<rparr>) io2 =
      (WYOMING_OK, ?e\<lparr>ev_data := ev_data event, ev_payload := ev_payload event\<rparr>, io3)"
    "reads io2 (payload_text event) io3" "pending io3 = rest"
    using read_payload_ok [OF d(3) assms(1,2), of "?e\<lparr>ev_data := ev_data event\<rparr>"]
    by (auto simp: wyoming_event_init_def)
  have "?e\<lparr>ev_data := ev_data event, ev_payload := ev_payload event\<rparr> = event"
    using type by (cases event) (simp add: wyoming_event_init_def)
  then have "wyoming_event_read_iobuf P io = (WYOMING_OK, event, io3)"
    using run d(1) p(1) by simp
  moreover have "reads io ((header_text P event @ [NL]) @ data_text event @ payload_text event) io3"
    by (rule reads_trans [OF l(2) reads_trans [OF d(2) p(2)]])
  then have "reads io (frame P event) io3" by (simp add: frame_def)
  ultimately show ?thesis using p(3) by blast
qed

subsection \<open>Any input\<close>

lemma event_init_free [simp]: "wyoming_event_free e = wyoming_event_init"
  by (cases e) (simp add: wyoming_event_free_def wyoming_event_init_def)

text \<open>\<open>settles io io' rc e\<close>: what holds of any outcome of receiving.\<close>

definition settles :: "iobuf \<Rightarrow> iobuf \<Rightarrow> wyoming_error \<Rightarrow> event \<Rightarrow> bool" where
  "settles io io' rc e \<longleftrightarrow>
     only_reads io io' \<and>
     (if rc = WYOMING_OK then ev_type e \<noteq> None
      else e = wyoming_event_init \<and>
           rc \<in> {WYOMING_ERR_EOF, WYOMING_ERR_IO, WYOMING_ERR_PARSE, WYOMING_ERR_NOMEM})"

lemma stream_end_cases: "stream_end io = WYOMING_ERR_EOF \<or> stream_end io = WYOMING_ERR_IO"
  using rx_end_cases by (simp add: stream_end_def)

lemma iobuf_read_exact_any:
  assumes "iobuf_read_exact io n = (res, io')"
  shows "only_reads io io'" and "res = Inl rc \<Longrightarrow> rc = WYOMING_ERR_EOF \<or> rc = WYOMING_ERR_IO"
    and "res = Inr d \<Longrightarrow> length d = n"
  using iobuf_read_exact_spec [OF assms] stream_end_cases [of io] by (auto split: if_splits)

lemma read_data_settles:
  assumes "read_data P n e io = (rc, e', io')" and "ev_type e \<noteq> None"
  shows "settles io io' rc e'"
proof -
  obtain res io1 where x: "iobuf_read_exact io n = (res, io1)" by force
  note any = iobuf_read_exact_any [OF x]
  show ?thesis
    using assms any x
    by (auto simp: read_data_def settles_def split: if_splits sum.splits option.splits)
qed

lemma read_payload_settles:
  assumes "read_payload P n e io = (rc, e', io')" and "ev_type e \<noteq> None"
  shows "settles io io' rc e'"
proof -
  obtain res io1 where x: "iobuf_read_exact io n = (res, io1)" by force
  note any = iobuf_read_exact_any [OF x]
  show ?thesis
    using assms any x
    by (auto simp: read_payload_def settles_def split: if_splits sum.splits)
qed

lemma settles_trans:
  "only_reads io io1 \<Longrightarrow> settles io1 io' rc e \<Longrightarrow> settles io io' rc e"
  by (auto simp: settles_def intro: only_reads_trans)

lemma read_event_settles:
  assumes run: "wyoming_event_read_iobuf P io = (rc, e, io')"
  shows "settles io io' rc e"
proof -
  obtain res io1 where l: "iobuf_read_line P io = (res, io1)" by force
  note out = iobuf_read_line_outcome [OF l]
  then have only: "only_reads io io1" by (simp add: line_outcome_def)
  show ?thesis
  proof (cases res)
    case (Inl err)
    with l run have "rc = err" "e = wyoming_event_init" "io' = io1"
      by (simp_all add: wyoming_event_read_iobuf_def Let_def)
    with out Inl stream_end_cases [of io] only show ?thesis
      by (auto simp: line_outcome_def settles_def)
  next
    case (Inr line)
    note run1 = run [unfolded wyoming_event_read_iobuf_def Let_def l Inr prod.case sum.case]
    consider "rc \<in> {WYOMING_ERR_PARSE, WYOMING_ERR_NOMEM}" "e = wyoming_event_init" "io' = io1"
      | type n m rc1 e1 io2 where "read_data P n (wyoming_event_init\<lparr>ev_type := Some type\<rparr>) io1 = (rc1, e1, io2)"
        "(if rc1 \<noteq> WYOMING_OK then (rc1, e1, io2) else read_payload P m e1 io2) = (rc, e, io')"
      using run1 by (auto split: option.splits prod.splits)
    then show ?thesis
    proof cases
      case 1
      with only show ?thesis by (auto simp: settles_def)
    next
      case 2
      have d: "settles io1 io2 rc1 e1" by (rule read_data_settles [OF 2(1)]) simp
      have "settles io1 io' rc e"
      proof (cases "rc1 = WYOMING_OK")
        case True
        with d 2(2) have "settles io2 io' rc e"
          by (intro read_payload_settles [of P m e1]) (simp_all add: settles_def)
        with d show ?thesis by (auto simp: settles_def intro: only_reads_trans)
      next
        case False
        with 2(2) d show ?thesis by simp
      qed
      with only show ?thesis by (rule settles_trans)
    qed
  qed
qed

text \<open>Receiving uses up the stream; so loops over events end.\<close>

lemma read_data_uses: "read_data P n e io = (rc, e', io') \<Longrightarrow> io_size io' \<le> io_size io"
  by (auto simp: read_data_def split: if_splits prod.splits sum.splits option.splits
      dest!: iobuf_read_exact_uses)

lemma read_payload_uses: "read_payload P n e io = (rc, e', io') \<Longrightarrow> io_size io' \<le> io_size io"
  by (auto simp: read_payload_def split: if_splits prod.splits sum.splits dest!: iobuf_read_exact_uses)

lemma read_event_uses:
  assumes run: "wyoming_event_read_iobuf P io = (rc, e, io')"
  shows "io_size io' \<le> io_size io" and "rc = WYOMING_OK \<Longrightarrow> io_size io' < io_size io"
proof -
  obtain res io1 where l: "iobuf_read_line P io = (res, io1)" by force
  have "io_size io' \<le> io_size io1"
  proof (cases res)
    case (Inl err)
    with l run show ?thesis by (simp add: wyoming_event_read_iobuf_def Let_def)
  next
    case (Inr line)
    then show ?thesis
      using run [unfolded wyoming_event_read_iobuf_def Let_def l Inr prod.case sum.case]
      by (auto split: option.splits prod.splits if_splits dest!: read_data_uses read_payload_uses)
  qed
  then show "io_size io' \<le> io_size io" and "rc = WYOMING_OK \<Longrightarrow> io_size io' < io_size io"
  proof -
    assume le: "io_size io' \<le> io_size io1"
    then show "io_size io' \<le> io_size io" using iobuf_read_line_uses(1) [OF l] by simp
    assume ok: "rc = WYOMING_OK"
    show "io_size io' < io_size io"
    proof (cases res)
      case (Inl err)
      with iobuf_read_line_outcome [OF l] stream_end_cases [of io] have "err \<noteq> WYOMING_OK"
        by (auto simp: line_outcome_def)
      with l run Inl ok show ?thesis by (simp add: wyoming_event_read_iobuf_def Let_def)
    next
      case (Inr line)
      with l iobuf_read_line_uses(2) le show ?thesis by fastforce
    qed
  qed
qed

lemma read_event_decreases:
  "(WYOMING_OK, y) = wyoming_event_read_iobuf P io \<Longrightarrow> (e, io') = y \<Longrightarrow> io_size io' < io_size io"
  using read_event_uses(2) [of P io WYOMING_OK e io'] by simp

subsection \<open>A frame cut short\<close>

lemma read_frame_cut:
  assumes "event_wf event" and "event_room P event"
    and "pending io = take k (frame P event)" and "k < length (frame P event)"
  shows "\<exists>io'. wyoming_event_read_iobuf P io = (stream_end io, wyoming_event_init, io')"
proof -
  obtain type where type: "ev_type event = Some type" using assms(1) by (rule event_wfE)
  note h = header_of_event [OF assms(1,2) type] and s = frame_sizes [OF assms(1,2)]
  let ?h = "header_text P event" and ?d = "data_text event" and ?p = "payload_text event"
  have noOK: "stream_end io \<noteq> WYOMING_OK" using stream_end_cases [of io] by auto
  show ?thesis
  proof (cases "k \<le> length ?h")
    case True
    then have p: "pending io = take k ?h" using assms(3) by (simp add: frame_def)
    have "NL \<notin> set (pending io)"
      unfolding p using no_NL_render [OF h(2)] h(4) set_take_subset [of k ?h] by auto
    moreover have "line_room P (length (pending io) + 1)"
      using s(4) by (auto simp: p ample_def line_room_def intro: mem_ok_mono)
    ultimately show ?thesis
      using io.line_ended [of io P] by (auto simp: wyoming_event_read_iobuf_def Let_def)
  next
    case False
    define j where "j = k - length ?h - 1"
    from False have j: "take k (frame P event) = ?h @ NL # take j (?d @ ?p)" "j < length (?d @ ?p)"
      using assms(4) by (simp_all add: frame_def j_def take_Cons' Suc_diff_le)
    obtain io1 where io1: "pending io1 = take j (?d @ ?p)" "stream_end io1 = stream_end io"
      and run: "wyoming_event_read_iobuf P io =
       (case read_data P (length ?d) (wyoming_event_init\<lparr>ev_type := Some type\<rparr>) io1 of
          (rc, e, io2) \<Rightarrow> if rc \<noteq> WYOMING_OK then (rc, e, io2)
                         else read_payload P (length ?p) e io2)"
      by (rule read_header_line [OF assms(1,2) type assms(3) [unfolded j(1)]])
    have big: "(length ?d + 1) mod 2 ^ 64 = length ?d + 1"
      using s(1) by (intro mod_less) simp
    show ?thesis
    proof (cases "j < length ?d")
      case True
      then have "length (pending io1) < length ?d" by (simp add: io1)
      then obtain io2 where "iobuf_read_exact io1 (length ?d) = (Inl (stream_end io), io2)"
        using io.exact_ended io1(2) by metis
      moreover have "?d \<noteq> []" using True by auto
      ultimately show ?thesis
        using run noOK s(6) big by (simp add: read_data_def del: add_Suc_right Suc_eq_plus1)
    next
      case False
      then have "pending io1 = ?d @ take (j - length ?d) ?p" by (simp add: io1)
      from read_data_ok [OF this assms(1,2), of "wyoming_event_init\<lparr>ev_type := Some type\<rparr>"]
      obtain e2 io2 where d: "read_data P (length ?d) (wyoming_event_init\<lparr>ev_type := Some type\<rparr>) io1 =
          (WYOMING_OK, e2, io2)" "reads io1 ?d io2" "pending io2 = take (j - length ?d) ?p"
        by (auto simp: wyoming_event_init_def)
      have "length (pending io2) < length ?p" "stream_end io2 = stream_end io"
        using False j(2) d(2) io1(2) by (auto simp: d(3) reads_def)
      then obtain io3 where "iobuf_read_exact io2 (length ?p) = (Inl (stream_end io), io3)"
        using io.exact_ended by metis
      moreover have "?p \<noteq> []" using False j(2) by auto
      ultimately show ?thesis
        using run d(1) s(7) by (simp add: read_payload_def)
    qed
  qed
qed

subsection \<open>Streams of frames\<close>

text \<open>Receiving \<open>n\<close> messages in a row, up to the first error.\<close>

fun receive_many ::
  "('s \<Rightarrow> wyoming_error \<times> 'e \<times> 's) \<Rightarrow> nat \<Rightarrow> 's \<Rightarrow> wyoming_error \<times> 'e list \<times> 's" where
  "receive_many recv 0 s = (WYOMING_OK, [], s)"
| "receive_many recv (Suc n) s =
     (case recv s of
        (rc, e, s) \<Rightarrow>
          if rc \<noteq> WYOMING_OK then (rc, [], s)
          else (case receive_many recv n s of (rc, es, s) \<Rightarrow> (rc, e # es, s)))"

text \<open>
  The contract of a framing: what is encoded in front of a stream is decoded from it, and
  nothing more is consumed. Then whole conversations decode, and encodings are prefix-free.
\<close>

locale framing =
  fixes pend :: "'s \<Rightarrow> byte list"
    and source :: "byte list \<Rightarrow> 's"
    and encode :: "'e \<Rightarrow> byte list"
    and decode :: "'s \<Rightarrow> wyoming_error \<times> 'e \<times> 's"
    and good :: "'e \<Rightarrow> bool"
  assumes pend_source: "pend (source bs) = bs"
    and decode_encode: "good e \<Longrightarrow> pend s = encode e @ rest \<Longrightarrow>
          \<exists>s'. decode s = (WYOMING_OK, e, s') \<and> pend s' = rest"
begin

lemma decode_many:
  "list_all good es \<Longrightarrow> pend s = concat (map encode es) @ rest \<Longrightarrow>
     \<exists>s'. receive_many decode (length es) s = (WYOMING_OK, es, s') \<and> pend s' = rest"
proof (induction es arbitrary: s)
  case (Cons e es)
  then obtain s1 where s1: "decode s = (WYOMING_OK, e, s1)" "pend s1 = concat (map encode es) @ rest"
    using decode_encode [of e s "concat (map encode es) @ rest"] by auto
  from Cons.IH [OF _ s1(2)] Cons.prems(1) s1(1) show ?case by auto
qed simp

lemma prefix_free:
  assumes "good e" and "good e'" and "encode e @ r = encode e' @ r'"
  shows "e = e' \<and> r = r'"
proof -
  have "pend (source (encode e @ r)) = encode e @ r" "pend (source (encode e @ r)) = encode e' @ r'"
    using assms(3) by (simp_all add: pend_source)
  from decode_encode [OF assms(1) this(1)] decode_encode [OF assms(2) this(2)] show ?thesis by auto
qed

end

text \<open>A descriptor that will deliver the given bytes in one piece, then end.\<close>

definition source_of :: "byte list \<Rightarrow> iobuf" where
  "source_of bs = iobuf_init \<lparr>rx = [Chunk bs], ws = [], tx = []\<rparr>"

interpretation ev: framing pending source_of "frame P" "wyoming_event_read_iobuf P"
  "\<lambda>e. event_wf e \<and> event_room P e" for P
proof
  show "pending (source_of bs) = bs" for bs by (simp add: source_of_def)
  show "event_wf e \<and> event_room P e \<Longrightarrow> pending s = frame P e @ rest \<Longrightarrow>
      \<exists>s'. wyoming_event_read_iobuf P s = (WYOMING_OK, e, s') \<and> pending s' = rest" for e s rest
    using read_frame by blast
qed

end
