(* ===== verification/Wy_Audio.thy ===== *)
theory Wy_Audio
  imports Wy_Event
begin

text \<open>
  What the client and the server share about audio: sample formats, 16-bit samples and their
  bytes, the growable sample buffer both sides collect a stream in, and the audio events
  both send (\<^verbatim>\<open>src/client.c\<close>, \<^verbatim>\<open>src/server.c\<close>,
  \<^verbatim>\<open>include/libwyoming/wyoming.h\<close>).
\<close>

subsection \<open>Event types\<close>

abbreviation WYOMING_EVENT_SYNTHESIZE :: string where "WYOMING_EVENT_SYNTHESIZE \<equiv> ''synthesize''"
abbreviation WYOMING_EVENT_AUDIO_START :: string where "WYOMING_EVENT_AUDIO_START \<equiv> ''audio-start''"
abbreviation WYOMING_EVENT_AUDIO_CHUNK :: string where "WYOMING_EVENT_AUDIO_CHUNK \<equiv> ''audio-chunk''"
abbreviation WYOMING_EVENT_AUDIO_STOP :: string where "WYOMING_EVENT_AUDIO_STOP \<equiv> ''audio-stop''"
abbreviation WYOMING_EVENT_TRANSCRIBE :: string where "WYOMING_EVENT_TRANSCRIBE \<equiv> ''transcribe''"
abbreviation WYOMING_EVENT_TRANSCRIPT :: string where "WYOMING_EVENT_TRANSCRIPT \<equiv> ''transcript''"
abbreviation WYOMING_EVENT_TRANSCRIBE_START :: string where "WYOMING_EVENT_TRANSCRIBE_START \<equiv> ''transcribe-start''"
abbreviation WYOMING_EVENT_TRANSCRIBE_STOP :: string where "WYOMING_EVENT_TRANSCRIBE_STOP \<equiv> ''transcribe-stop''"
abbreviation WYOMING_EVENT_DESCRIBE :: string where "WYOMING_EVENT_DESCRIBE \<equiv> ''describe''"
abbreviation WYOMING_EVENT_INFO :: string where "WYOMING_EVENT_INFO \<equiv> ''info''"
abbreviation WYOMING_EVENT_ERROR :: string where "WYOMING_EVENT_ERROR \<equiv> ''error''"

subsection \<open>Formats\<close>

record audio_format =
  rate :: int
  width :: int
  channels :: int

text \<open>The fields are C \<^verbatim>\<open>int\<close>s.\<close>

definition format_ok :: "audio_format \<Rightarrow> bool" where
  "format_ok fmt \<longleftrightarrow>
     list_all (\<lambda>i. INT_MIN \<le> i \<and> i \<le> INT_MAX) [rate fmt, width fmt, channels fmt]"

text \<open>The three members of an audio event's data.\<close>

definition add_format :: "platform \<Rightarrow> cJSON option \<Rightarrow> audio_format \<Rightarrow> cJSON option" where
  "add_format P data fmt =
     (let data = cJSON_AddNumberToObject P data ''rate'' (Fin (of_int (rate fmt)));
          data = cJSON_AddNumberToObject P data ''width'' (Fin (of_int (width fmt)))
      in cJSON_AddNumberToObject P data ''channels'' (Fin (of_int (channels fmt))))"

text \<open>Reading them: a member that is no number leaves the field as it is.\<close>

definition number_member :: "platform \<Rightarrow> cJSON option \<Rightarrow> string \<Rightarrow> int \<Rightarrow> int" where
  "number_member P data name old =
     (case number_of (cJSON_GetObjectItemCaseSensitive data name) of
        None \<Rightarrow> old
      | Some d \<Rightarrow> to_int P d)"

definition read_format :: "platform \<Rightarrow> cJSON option \<Rightarrow> audio_format \<Rightarrow> audio_format" where
  "read_format P data fmt =
     (if data = None then fmt
      else \<lparr>rate = number_member P data ''rate'' (rate fmt),
            width = number_member P data ''width'' (width fmt),
            channels = number_member P data ''channels'' (channels fmt)\<rparr>)"

subsection \<open>Samples\<close>

text \<open>A sample is a 16-bit word; in memory and on the wire it is two bytes, low byte first (the
  byte order of the machines the library runs on).\<close>

type_synonym sample = "16 word"

definition sample_bytes :: "sample \<Rightarrow> byte list" where
  "sample_bytes w = [char_of (unat w mod 256), char_of (unat w div 256)]"

definition samples_bytes :: "sample list \<Rightarrow> byte list" where
  "samples_bytes zs = concat (map sample_bytes zs)"

text \<open>The samples of a payload; an odd last byte is dropped (\<^verbatim>\<open>payload_len / sizeof(int16_t)\<close>).\<close>

fun samples_of :: "byte list \<Rightarrow> sample list" where
  "samples_of (a # b # bs) = of_nat (code a + 256 * code b) # samples_of bs"
| "samples_of _ = []"

lemma samples_of_bytes [simp]: "samples_of (samples_bytes zs @ bs) = zs @ samples_of bs"
proof (induction zs)
  case (Cons w zs)
  have "unat w < 65536" using unsigned_less [of w] by simp
  then have "code (char_of (unat w mod 256) :: char) + 256 * code (char_of (unat w div 256) :: char) = unat w"
    by simp
  then have "of_nat (code (char_of (unat w mod 256) :: char) + 256 * code (char_of (unat w div 256) :: char)) = w"
    by simp
  with Cons.IH show ?case by (simp add: samples_bytes_def sample_bytes_def)
qed (simp add: samples_bytes_def)

lemma samples_of_bytes' [simp]: "samples_of (samples_bytes zs) = zs"
  using samples_of_bytes [of zs "[]"] by simp

lemma length_samples_of: "length (samples_of bs) = length bs div 2"
  by (induction bs rule: samples_of.induct) auto

lemma length_samples_bytes [simp]: "length (samples_bytes zs) = 2 * length zs"
  by (induction zs) (simp_all add: samples_bytes_def sample_bytes_def)

lemma samples_bytes_append: "samples_bytes (xs @ ys) = samples_bytes xs @ samples_bytes ys"
  by (simp add: samples_bytes_def)

lemma take_samples_bytes: "take (2 * n) (samples_bytes zs) = samples_bytes (take n zs)"
  and drop_samples_bytes: "drop (2 * n) (samples_bytes zs) = samples_bytes (drop n zs)"
proof -
  have "samples_bytes zs = samples_bytes (take n zs) @ samples_bytes (drop n zs)"
    by (simp flip: samples_bytes_append)
  moreover have "length (samples_bytes (take n zs)) = 2 * min n (length zs)" by simp
  ultimately show "take (2 * n) (samples_bytes zs) = samples_bytes (take n zs)"
    and "drop (2 * n) (samples_bytes zs) = samples_bytes (drop n zs)"
    by (cases "n \<le> length zs"; simp add: samples_bytes_def)+
qed

text \<open>Cutting the bytes into pieces of \<open>2 * n\<close> is cutting the samples into pieces of \<open>n\<close>.\<close>

lemma pieces_samples_bytes:
  "0 < n \<Longrightarrow> pieces (2 * n) (samples_bytes zs) = map samples_bytes (pieces n zs)"
proof (induction n zs rule: pieces.induct)
  case (1 n zs)
  show ?case
  proof (cases "zs = []")
    case True
    then show ?thesis by (simp add: samples_bytes_def)
  next
    case False
    then have "samples_bytes zs \<noteq> []" by (cases zs) (simp_all add: samples_bytes_def sample_bytes_def)
    with False "1.prems" "1.IH" show ?thesis
      by (simp add: pieces.simps [of "2 * n" "samples_bytes zs"] pieces.simps [of n zs]
          take_samples_bytes drop_samples_bytes)
  qed
qed

subsection \<open>The growable buffer\<close>

text \<open>The pointer (NULL for none) with its samples, and the capacity in samples.\<close>

record pcm_buffer =
  pcm :: "sample list option"
  pcm_cap :: nat

definition pcm_empty :: pcm_buffer where
  "pcm_empty = \<lparr>pcm = None, pcm_cap = 0\<rparr>"

definition pcm_samples :: "pcm_buffer \<Rightarrow> sample list" where
  "pcm_samples b = (case pcm b of None \<Rightarrow> [] | Some zs \<Rightarrow> zs)"

text \<open>Appending a payload, growing to twice what is needed and at least \<open>least\<close> samples
  (4096 in the client, 16000 in the server); \<open>None\<close> when the reallocation fails.\<close>

definition pcm_append :: "platform \<Rightarrow> nat \<Rightarrow> pcm_buffer \<Rightarrow> byte list \<Rightarrow> pcm_buffer option" where
  "pcm_append P least b payload =
     (let chunk = samples_of payload;
          need = length (pcm_samples b) + length chunk
      in if pcm_cap b < need
         then (let capacity = max least (need * 2)
               in if malloc_ok P (capacity * 2)
                  then Some \<lparr>pcm = Some (pcm_samples b @ chunk), pcm_cap = capacity\<rparr>
                  else None)
         else Some (b\<lparr>pcm := map_option (\<lambda>zs. zs @ chunk) (pcm b)\<rparr>))"

text \<open>What is stored fits the allocation; no allocation means no capacity.\<close>

definition pcm_ok :: "pcm_buffer \<Rightarrow> bool" where
  "pcm_ok b \<longleftrightarrow> length (pcm_samples b) \<le> pcm_cap b \<and> (pcm b = None \<longrightarrow> pcm_cap b = 0)"

lemma pcm_empty_ok [simp]: "pcm_ok pcm_empty" "pcm_samples pcm_empty = []"
  by (simp_all add: pcm_ok_def pcm_empty_def pcm_samples_def)

lemma pcm_append_Some:
  assumes "pcm_append P least b payload = Some b'" and "pcm_ok b"
  shows "pcm_ok b'" "pcm_samples b' = pcm_samples b @ samples_of payload"
proof -
  let ?c = "samples_of payload"
  consider "pcm_cap b < length (pcm_samples b) + length ?c"
      "b' = \<lparr>pcm = Some (pcm_samples b @ ?c), pcm_cap = max least ((length (pcm_samples b) + length ?c) * 2)\<rparr>"
    | "\<not> pcm_cap b < length (pcm_samples b) + length ?c"
      "b' = b\<lparr>pcm := map_option (\<lambda>zs. zs @ ?c) (pcm b)\<rparr>"
    using assms(1) by (auto simp: pcm_append_def Let_def split: if_splits)
  then have "pcm_ok b' \<and> pcm_samples b' = pcm_samples b @ ?c"
  proof cases
    case 1
    then show ?thesis by (simp add: pcm_ok_def pcm_samples_def)
  next
    case 2
    with assms(2) show ?thesis by (cases "pcm b") (auto simp: pcm_ok_def pcm_samples_def)
  qed
  then show "pcm_ok b'" "pcm_samples b' = pcm_samples b @ ?c" by simp_all
qed

text \<open>Memory to collect \<open>n\<close> samples.\<close>

definition pcm_room :: "platform \<Rightarrow> nat \<Rightarrow> nat \<Rightarrow> bool" where
  "pcm_room P least n \<longleftrightarrow> mem_ok P (2 * max least (2 * n))"

lemma pcm_append_room:
  "pcm_room P least n \<Longrightarrow> length (pcm_samples b) + length (samples_of payload) \<le> n \<Longrightarrow>
     pcm_append P least b payload \<noteq> None"
proof -
  assume "pcm_room P least n" "length (pcm_samples b) + length (samples_of payload) \<le> n"
  then have "malloc_ok P (max least ((length (pcm_samples b) + length (samples_of payload)) * 2) * 2)"
    by (auto simp: pcm_room_def intro!: mem_okD [of P "2 * max least (2 * n)"])
  then show ?thesis by (simp add: pcm_append_def Let_def)
qed

text \<open>Collecting a sequence of payloads.\<close>

fun pcm_collect :: "platform \<Rightarrow> nat \<Rightarrow> pcm_buffer \<Rightarrow> byte list list \<Rightarrow> pcm_buffer option" where
  "pcm_collect P least b [] = Some b"
| "pcm_collect P least b (p # ps) =
     (case pcm_append P least b p of None \<Rightarrow> None | Some b' \<Rightarrow> pcm_collect P least b' ps)"

subsection \<open>Transfers\<close>

text \<open>
  The contract between a sender that cuts audio into payloads and a receiver that collects
  them: the sender's pieces, read as samples, are the audio. Then the receiver ends up with
  what was sent, whatever the cut.
\<close>

locale audio_transfer =
  fixes split :: "sample list \<Rightarrow> byte list list"
    and least :: nat
  assumes split_samples: "concat (map samples_of (split zs)) = zs"
begin

lemma collect_from:
  assumes "pcm_ok b" and "pcm_room P least (length (pcm_samples b @ concat (map samples_of ps)))"
  shows "\<exists>b'. pcm_collect P least b ps = Some b' \<and> pcm_ok b' \<and>
     pcm_samples b' = pcm_samples b @ concat (map samples_of ps)"
  using assms
proof (induction ps arbitrary: b)
  case (Cons p ps)
  obtain b1 where b1: "pcm_append P least b p = Some b1"
    using pcm_append_room [OF Cons.prems(2), of b p] by fastforce
  note s = pcm_append_Some [OF b1 Cons.prems(1)]
  with Cons.IH [OF s(1)] Cons.prems(2) b1 show ?case by (simp add: add.assoc)
qed simp

lemma collect_all:
  "pcm_room P least (length zs) \<Longrightarrow>
     \<exists>b. pcm_collect P least pcm_empty (split zs) = Some b \<and> pcm_ok b \<and> pcm_samples b = zs"
  using collect_from [of pcm_empty P "split zs"] by (simp add: split_samples)

end

text \<open>The server sends pieces of 4096 samples to the client's buffer, the client pieces of
  2048 bytes to the server's.\<close>

abbreviation AUDIO_CHUNK_SAMPLES :: nat where
  "AUDIO_CHUNK_SAMPLES \<equiv> 4096"

definition server_pieces :: "sample list \<Rightarrow> byte list list" where
  "server_pieces zs = map samples_bytes (pieces AUDIO_CHUNK_SAMPLES zs)"

definition client_pieces :: "sample list \<Rightarrow> byte list list" where
  "client_pieces zs = pieces 2048 (samples_bytes zs)"

lemma concat_map_samples_of: "concat (map samples_of (map samples_bytes zss)) = concat zss"
  by (induction zss) simp_all

interpretation to_client: audio_transfer server_pieces 4096
  by unfold_locales (simp only: server_pieces_def concat_map_samples_of concat_pieces zero_less_numeral)

interpretation to_server: audio_transfer client_pieces 16000
proof
  have "client_pieces zs = map samples_bytes (pieces 1024 zs)" for zs
    using pieces_samples_bytes [of 1024 zs] by (simp add: client_pieces_def)
  then show "concat (map samples_of (client_pieces zs)) = zs" for zs
    by (simp only: concat_map_samples_of concat_pieces zero_less_numeral)
qed

subsection \<open>Room for an event\<close>

lemma length_quote_le: "length (quote s) \<le> 6 * length s + 2"
proof -
  have "escape_extra c \<le> 5" for c by (simp add: escape_extra_def)
  then have "sum_list (map escape_extra s) \<le> 5 * length s"
    by (induction s) (auto intro: add_mono)
  then show ?thesis by (simp add: length_quote)
qed

lemma length_number_text_nat: "n \<le> nat INT_MAX \<Longrightarrow> length (number_text (Fin (of_nat n))) \<le> 11"
proof -
  assume n: "n \<le> nat INT_MAX"
  then have "int_valued (Fin (of_int (int n)))" by (simp only: int_valued_of_int) simp
  then have "number_text (Fin (of_int (int n))) = dec_int (valueint (Fin (of_int (int n))))"
    by (rule number_text_int_valued)
  moreover have "valueint (Fin (of_int (int n))) = int n" using n by (intro valueint_of_int) auto
  ultimately show ?thesis using length_dec_int [of "int n"] n by simp
qed

lemma length_keys:
  "length (quote ''type'') = 6" "length (quote ''version'') = 9"
  "length (quote ''data_length'') = 13" "length (quote ''payload_length'') = 16"
  by code_simp+

lemma length_header_json:
  assumes "n \<le> nat INT_MAX" and "m \<le> nat INT_MAX"
  shows "length (render (header_json type version n m)) \<le> 80 + 6 * length type + 6 * length version"
  using assms length_quote_le [of type] length_quote_le [of version]
    length_number_text_nat [of n] length_number_text_nat [of m]
  by (cases "0 < n"; cases "0 < m") (simp_all add: header_json_def member_text_def length_keys)

text \<open>A platform with memory for events whose type, data and payload take \<open>n\<close> bytes.\<close>

definition platform_ok :: "platform \<Rightarrow> nat \<Rightarrow> bool" where
  "platform_ok P n \<longleftrightarrow>
     c_string (lib_version P) \<and> ample P (200 + 6 * length (lib_version P) + n)"

lemma platform_ok_mono: "platform_ok P n \<Longrightarrow> m \<le> n \<Longrightarrow> platform_ok P m"
  by (auto simp: platform_ok_def intro: ample_mono)

lemma platform_ok_malloc: "platform_ok P n \<Longrightarrow> k \<le> 266 + 2 * n \<Longrightarrow> malloc_ok P k"
  by (auto simp: platform_ok_def intro: ample_malloc)

lemma event_roomI:
  assumes "ev_type e = Some type"
    and "platform_ok P (6 * length type + length (data_text e) + length (payload_text e))"
  shows "event_room P e"
proof -
  have "length (data_text e) \<le> nat INT_MAX" "length (payload_text e) \<le> nat INT_MAX"
    using assms(2) by (auto simp: platform_ok_def ample_def roomy_def)
  then have "length (header_text P e) \<le> 80 + 6 * length type + 6 * length (lib_version P)"
    using assms(1) length_header_json by (simp add: header_text_def)
  then have "length (frame P e) \<le>
      200 + 6 * length (lib_version P) + (6 * length type + length (data_text e) + length (payload_text e))"
    by (simp add: frame_def)
  with assms(2) show ?thesis by (auto simp: event_room_def platform_ok_def intro: ample_mono)
qed

subsection \<open>Audio events\<close>

text \<open>The events as the code builds them: the type is a copy, the data a new object.\<close>

definition audio_start_event :: "platform \<Rightarrow> audio_format \<Rightarrow> bool \<Rightarrow> event" where
  "audio_start_event P fmt timestamped =
     \<lparr>ev_type = strdup P WYOMING_EVENT_AUDIO_START,
      ev_data = (let data = add_format P (cJSON_CreateObject P) fmt
                 in if timestamped then cJSON_AddNumberToObject P data ''timestamp'' (Fin 0)
                    else data),
      ev_payload = None\<rparr>"

definition audio_chunk_event :: "platform \<Rightarrow> audio_format \<Rightarrow> byte list \<Rightarrow> event" where
  "audio_chunk_event P fmt payload =
     \<lparr>ev_type = strdup P WYOMING_EVENT_AUDIO_CHUNK,
      ev_data = add_format P (cJSON_CreateObject P) fmt,
      ev_payload = Some payload\<rparr>"

text \<open>An event that is only a type: \<^verbatim>\<open>audio-stop\<close>, \<^verbatim>\<open>transcribe-stop\<close>, \<^verbatim>\<open>describe\<close>.\<close>

definition bare_event :: "platform \<Rightarrow> string \<Rightarrow> event" where
  "bare_event P type = \<lparr>ev_type = strdup P type, ev_data = None, ev_payload = None\<rparr>"

text \<open>What they are when memory suffices.\<close>

definition format_members :: "audio_format \<Rightarrow> (string \<times> cJSON) list" where
  "format_members fmt =
     [(''rate'', cJSON_Number (Fin (of_int (rate fmt)))),
      (''width'', cJSON_Number (Fin (of_int (width fmt)))),
      (''channels'', cJSON_Number (Fin (of_int (channels fmt))))]"

definition start_msg :: "audio_format \<Rightarrow> bool \<Rightarrow> event" where
  "start_msg fmt timestamped =
     \<lparr>ev_type = Some WYOMING_EVENT_AUDIO_START,
      ev_data = Some (cJSON_Object (format_members fmt @
        (if timestamped then [(''timestamp'', cJSON_Number (Fin 0))] else []))),
      ev_payload = None\<rparr>"

definition chunk_msg :: "audio_format \<Rightarrow> byte list \<Rightarrow> event" where
  "chunk_msg fmt payload =
     \<lparr>ev_type = Some WYOMING_EVENT_AUDIO_CHUNK,
      ev_data = Some (cJSON_Object (format_members fmt)),
      ev_payload = Some payload\<rparr>"

definition bare_msg :: "string \<Rightarrow> event" where
  "bare_msg type = \<lparr>ev_type = Some type, ev_data = None, ev_payload = None\<rparr>"

lemma add_format_ok [cjson_build]:
  "mem_ok P 256 \<Longrightarrow> add_format P (Some (cJSON_Object kvs)) fmt = Some (cJSON_Object (kvs @ format_members fmt))"
  by (simp add: add_format_def format_members_def Let_def cjson_build)

lemma audio_events_ok:
  assumes "mem_ok P 256"
  shows "audio_start_event P fmt t = start_msg fmt t" "audio_chunk_event P fmt p = chunk_msg fmt p"
    "length type < 256 \<Longrightarrow> bare_event P type = bare_msg type"
  using assms
  by (simp_all add: audio_start_event_def audio_chunk_event_def bare_event_def start_msg_def
      chunk_msg_def bare_msg_def strdup_def cjson_build Let_def)

lemma read_format_members [cjson_read]:
  "format_ok fmt \<Longrightarrow> read_format P (Some (cJSON_Object (format_members fmt @ kvs))) old = fmt"
  by (simp add: read_format_def number_member_def format_members_def format_ok_def cjson_read)

lemma length_number_text_int:
  "INT_MIN \<le> i \<Longrightarrow> i \<le> INT_MAX \<Longrightarrow> length (number_text (Fin (of_int i))) \<le> 11"
  using length_dec_int [of i] by (simp add: number_text_int_valued)

lemma format_keys:
  "length (quote ''rate'') = 6" "length (quote ''width'') = 7" "length (quote ''channels'') = 10"
  "length (quote ''timestamp'') = 11" "length (quote ''text'') = 6" "length (quote ''voice'') = 7"
  "length (quote ''name'') = 6" "length (quote ''language'') = 10" "length (quote ''is_partial'') = 12"
  by code_simp+

lemma audio_msgs_wf:
  assumes "format_ok fmt"
  shows "event_wf (start_msg fmt t)" "p \<noteq> [] \<Longrightarrow> event_wf (chunk_msg fmt p)"
    "c_string type \<Longrightarrow> event_wf (bare_msg type)"
proof -
  have "int_valued (Fin 0)" using int_valued_of_int [of 0] by simp
  with assms show "event_wf (start_msg fmt t)" "p \<noteq> [] \<Longrightarrow> event_wf (chunk_msg fmt p)"
    "c_string type \<Longrightarrow> event_wf (bare_msg type)"
    by (auto simp: event_wf_def start_msg_def chunk_msg_def bare_msg_def format_members_def format_ok_def)
qed

lemma length_format:
  assumes "format_ok fmt"
  shows "length (data_text (start_msg fmt t)) \<le> 100" "length (data_text (chunk_msg fmt p)) \<le> 100"
proof -
  have "length (number_text (Fin (of_int (rate fmt)))) \<le> 11"
    "length (number_text (Fin (of_int (width fmt)))) \<le> 11"
    "length (number_text (Fin (of_int (channels fmt)))) \<le> 11"
    "length (number_text (Fin 0)) \<le> 11"
    using assms length_number_text_int [of 0] by (simp_all add: format_ok_def length_number_text_int)
  then show "length (data_text (start_msg fmt t)) \<le> 100" "length (data_text (chunk_msg fmt p)) \<le> 100"
    by (simp_all add: data_text_def start_msg_def chunk_msg_def format_members_def member_text_def format_keys)
qed

lemma audio_msgs_room:
  assumes "format_ok fmt"
  shows "platform_ok P 200 \<Longrightarrow> event_room P (start_msg fmt t)"
    "platform_ok P (200 + length p) \<Longrightarrow> event_room P (chunk_msg fmt p)"
    "platform_ok P (6 * length type) \<Longrightarrow> event_room P (bare_msg type)"
proof -
  note len = length_format [OF assms]
  show "event_room P (start_msg fmt t)" if "platform_ok P 200"
    using len(1) [of t]
    by (intro event_roomI [of _ WYOMING_EVENT_AUDIO_START] platform_ok_mono [OF that])
      (simp_all add: start_msg_def payload_text_def)
  show "event_room P (chunk_msg fmt p)" if "platform_ok P (200 + length p)"
    using len(2) [of p]
    by (intro event_roomI [of _ WYOMING_EVENT_AUDIO_CHUNK] platform_ok_mono [OF that])
      (simp_all add: chunk_msg_def payload_text_def)
  show "event_room P (bare_msg type)" if "platform_ok P (6 * length type)"
    by (intro event_roomI [of _ type] platform_ok_mono [OF that])
      (simp_all add: bare_msg_def payload_text_def data_text_def)
qed

end
