(* ===== verification/Wy_Registry.thy ===== *)
theory Wy_Registry
  imports Wy_Audio
begin

text \<open>
  The server object of \<^verbatim>\<open>src/server.c\<close> and the functions with which a program sets it
  up: callbacks, voices with their speakers, ASR models. A string field is NULL when it was
  not given or could not be copied.
\<close>

subsection \<open>State\<close>

abbreviation WYOMING_MAX_VOICES :: nat where "WYOMING_MAX_VOICES \<equiv> 64"
abbreviation WYOMING_MAX_SPEAKERS :: nat where "WYOMING_MAX_SPEAKERS \<equiv> 32"
abbreviation WYOMING_MAX_LANGS :: nat where "WYOMING_MAX_LANGS \<equiv> 8"
abbreviation WYOMING_MAX_MODELS :: nat where "WYOMING_MAX_MODELS \<equiv> 16"

text \<open>\<^verbatim>\<open>server_voice_t\<close> and \<^verbatim>\<open>server_model_t\<close>; the counts are the lengths of the lists.\<close>

record server_voice =
  sv_name :: "string option"
  sv_languages :: "string option list"
  sv_description :: "string option"
  sv_speakers :: "string option list"

record server_model =
  sm_name :: "string option"
  sm_languages :: "string option list"
  sm_description :: "string option"

text \<open>
  The callbacks are the application's. They run in a world \<open>'u\<close> of their own, which the
  userdata pointers lead into; \<open>'c\<close> is a stream context.
\<close>

type_synonym 'u tts_fn =
  "string \<Rightarrow> string option \<Rightarrow> string option \<Rightarrow> 'u \<Rightarrow>
     (wyoming_error \<times> sample list option \<times> audio_format) \<times> 'u"

type_synonym 'u asr_fn =
  "sample list \<Rightarrow> audio_format \<Rightarrow> string option \<Rightarrow> 'u \<Rightarrow> (wyoming_error \<times> string option) \<times> 'u"

type_synonym ('u, 'c) stream_create_fn = "audio_format \<Rightarrow> string option \<Rightarrow> 'u \<Rightarrow> 'c option \<times> 'u"

type_synonym ('u, 'c) stream_process_fn =
  "'c \<Rightarrow> sample list option \<Rightarrow> audio_format \<Rightarrow> bool \<Rightarrow> 'u \<Rightarrow>
     (wyoming_error \<times> string option) \<times> 'u"

type_synonym ('u, 'c) stream_destroy_fn = "'c \<Rightarrow> 'u \<Rightarrow> 'u"

record ('u, 'c) server =
  bound_port :: "16 word"
  tts_fn :: "'u tts_fn option"
  tts_name :: "string option"
  tts_version :: "string option"
  voices :: "server_voice list"
  asr_fn :: "'u asr_fn option"
  asr_name :: "string option"
  asr_version :: "string option"
  asr_models :: "server_model list"
  asr_stream_create :: "('u, 'c) stream_create_fn option"
  asr_stream_process :: "('u, 'c) stream_process_fn option"
  asr_stream_destroy :: "('u, 'c) stream_destroy_fn option"

text \<open>The cleared object that \<^verbatim>\<open>wyoming_server_create\<close> allocates, with its port.\<close>

definition server_zero :: "16 word \<Rightarrow> ('u, 'c) server" where
  "server_zero port =
     \<lparr>bound_port = port,
      tts_fn = None, tts_name = None, tts_version = None, voices = [],
      asr_fn = None, asr_name = None, asr_version = None, asr_models = [],
      asr_stream_create = None, asr_stream_process = None, asr_stream_destroy = None\<rparr>"

definition wyoming_server_port :: "('u, 'c) server option \<Rightarrow> 16 word" where
  "wyoming_server_port srv = (case srv of None \<Rightarrow> 0 | Some s \<Rightarrow> bound_port s)"

subsection \<open>Callbacks\<close>

text \<open>A copy of a string that may be NULL.\<close>

definition strdup_opt :: "platform \<Rightarrow> string option \<Rightarrow> string option" where
  "strdup_opt P s = (case s of None \<Rightarrow> None | Some t \<Rightarrow> strdup P t)"

definition wyoming_server_set_tts ::
  "platform \<Rightarrow> ('u, 'c) server \<Rightarrow> 'u tts_fn option \<Rightarrow> string option \<Rightarrow> string option \<Rightarrow> ('u, 'c) server"
where
  "wyoming_server_set_tts P srv fn name version =
     srv\<lparr>tts_fn := fn, tts_name := strdup_opt P name, tts_version := strdup_opt P version\<rparr>"

definition wyoming_server_set_asr ::
  "platform \<Rightarrow> ('u, 'c) server \<Rightarrow> 'u asr_fn option \<Rightarrow> string option \<Rightarrow> string option \<Rightarrow> ('u, 'c) server"
where
  "wyoming_server_set_asr P srv fn name version =
     srv\<lparr>asr_fn := fn, asr_name := strdup_opt P name, asr_version := strdup_opt P version\<rparr>"

definition wyoming_server_set_asr_streaming ::
  "('u, 'c) server \<Rightarrow> ('u, 'c) stream_create_fn option \<Rightarrow> ('u, 'c) stream_process_fn option \<Rightarrow>
     ('u, 'c) stream_destroy_fn option \<Rightarrow> ('u, 'c) server"
where
  "wyoming_server_set_asr_streaming srv create_fn process_fn destroy_fn =
     srv\<lparr>asr_stream_create := create_fn, asr_stream_process := process_fn,
         asr_stream_destroy := destroy_fn\<rparr>"

subsection \<open>Voices, speakers, models\<close>

text \<open>The language array ends at its NULL; at most eight are taken.\<close>

definition copy_languages :: "platform \<Rightarrow> string list option \<Rightarrow> string option list" where
  "copy_languages P languages =
     (case languages of None \<Rightarrow> [] | Some ls \<Rightarrow> map (strdup P) (take WYOMING_MAX_LANGS ls))"

definition wyoming_server_add_voice ::
  "platform \<Rightarrow> ('u, 'c) server option \<Rightarrow> string option \<Rightarrow> string list option \<Rightarrow> string option \<Rightarrow>
     wyoming_error \<times> ('u, 'c) server option"
where
  "wyoming_server_add_voice P srv name languages description =
     (case (srv, name) of
        (Some s, Some n) \<Rightarrow>
          if WYOMING_MAX_VOICES \<le> length (voices s) then (WYOMING_ERR_NOMEM, srv)
          else (let v = \<lparr>sv_name = strdup P n, sv_languages = copy_languages P languages,
                         sv_description = strdup_opt P description, sv_speakers = []\<rparr>
                in (WYOMING_OK, Some (s\<lparr>voices := voices s @ [v]\<rparr>)))
      | _ \<Rightarrow> (WYOMING_ERR_INVAL, srv))"

text \<open>A speaker goes to the voice added last.\<close>

definition wyoming_server_add_speaker ::
  "platform \<Rightarrow> ('u, 'c) server option \<Rightarrow> string option \<Rightarrow> wyoming_error \<times> ('u, 'c) server option"
where
  "wyoming_server_add_speaker P srv speaker_name =
     (case (srv, speaker_name) of
        (Some s, Some n) \<Rightarrow>
          if voices s = [] then (WYOMING_ERR_INVAL, srv)
          else (let v = last (voices s)
                in if WYOMING_MAX_SPEAKERS \<le> length (sv_speakers v) then (WYOMING_ERR_NOMEM, srv)
                   else (WYOMING_OK,
                         Some (s\<lparr>voices := butlast (voices s) @
                                   [v\<lparr>sv_speakers := sv_speakers v @ [strdup P n]\<rparr>]\<rparr>)))
      | _ \<Rightarrow> (WYOMING_ERR_INVAL, srv))"

definition wyoming_server_add_asr_model ::
  "platform \<Rightarrow> ('u, 'c) server option \<Rightarrow> string option \<Rightarrow> string list option \<Rightarrow> string option \<Rightarrow>
     wyoming_error \<times> ('u, 'c) server option"
where
  "wyoming_server_add_asr_model P srv name languages description =
     (case (srv, name) of
        (Some s, Some n) \<Rightarrow>
          if WYOMING_MAX_MODELS \<le> length (asr_models s) then (WYOMING_ERR_NOMEM, srv)
          else (let m = \<lparr>sm_name = strdup P n, sm_languages = copy_languages P languages,
                         sm_description = strdup_opt P description\<rparr>
                in (WYOMING_OK, Some (s\<lparr>asr_models := asr_models s @ [m]\<rparr>)))
      | _ \<Rightarrow> (WYOMING_ERR_INVAL, srv))"

subsection \<open>The registries are bounded\<close>

text \<open>The fixed-size arrays of the server object are never overrun.\<close>

definition voice_ok :: "server_voice \<Rightarrow> bool" where
  "voice_ok v \<longleftrightarrow>
     length (sv_languages v) \<le> WYOMING_MAX_LANGS \<and> length (sv_speakers v) \<le> WYOMING_MAX_SPEAKERS"

definition server_ok :: "('u, 'c) server \<Rightarrow> bool" where
  "server_ok s \<longleftrightarrow>
     length (voices s) \<le> WYOMING_MAX_VOICES \<and> list_all voice_ok (voices s) \<and>
     length (asr_models s) \<le> WYOMING_MAX_MODELS \<and>
     list_all (\<lambda>m. length (sm_languages m) \<le> WYOMING_MAX_LANGS) (asr_models s)"

lemma copy_languages_le [simp]: "length (copy_languages P ls) \<le> WYOMING_MAX_LANGS"
  by (simp add: copy_languages_def split: option.split)

text \<open>Every sequence of registration calls.\<close>

datatype ('u, 'c) registration =
    Set_Tts "'u tts_fn option" "string option" "string option"
  | Set_Asr "'u asr_fn option" "string option" "string option"
  | Set_Streaming "('u, 'c) stream_create_fn option" "('u, 'c) stream_process_fn option"
      "('u, 'c) stream_destroy_fn option"
  | Add_Voice "string option" "string list option" "string option"
  | Add_Speaker "string option"
  | Add_Model "string option" "string list option" "string option"

fun register :: "platform \<Rightarrow> ('u, 'c) server \<Rightarrow> ('u, 'c) registration \<Rightarrow> ('u, 'c) server" where
  "register P s (Set_Tts fn n v) = wyoming_server_set_tts P s fn n v"
| "register P s (Set_Asr fn n v) = wyoming_server_set_asr P s fn n v"
| "register P s (Set_Streaming c p d) = wyoming_server_set_asr_streaming s c p d"
| "register P s (Add_Voice n l d) = the (snd (wyoming_server_add_voice P (Some s) n l d))"
| "register P s (Add_Speaker n) = the (snd (wyoming_server_add_speaker P (Some s) n))"
| "register P s (Add_Model n l d) = the (snd (wyoming_server_add_asr_model P (Some s) n l d))"

lemma server_zero_ok [simp]: "server_ok (server_zero p)"
  by (simp add: server_ok_def server_zero_def)

lemma register_ok: "server_ok s \<Longrightarrow> server_ok (register P s r)"
proof (cases r)
  case (Add_Speaker n)
  assume s: "server_ok s"
  show ?thesis
  proof (cases "voices s = []")
    case False
    then obtain vs v where v: "voices s = vs @ [v]" by (cases "voices s" rule: rev_cases) auto
    with s Add_Speaker show ?thesis
      by (cases n) (auto simp: wyoming_server_add_speaker_def server_ok_def voice_ok_def Let_def)
  qed (use s Add_Speaker in \<open>cases n; simp add: wyoming_server_add_speaker_def\<close>)
next
  case (Add_Voice n l d)
  assume "server_ok s"
  with Add_Voice show ?thesis
    by (cases n) (simp_all add: wyoming_server_add_voice_def server_ok_def voice_ok_def Let_def)
next
  case (Add_Model n l d)
  assume "server_ok s"
  with Add_Model show ?thesis
    by (cases n) (simp_all add: wyoming_server_add_asr_model_def server_ok_def Let_def)
qed (simp_all add: server_ok_def wyoming_server_set_tts_def wyoming_server_set_asr_def
    wyoming_server_set_asr_streaming_def)

lemma registrations_ok: "server_ok (foldl (register P) (server_zero port) rs)"
proof -
  have "server_ok (foldl (register P) s rs)" if "server_ok s" for s
    using that by (induction rs arbitrary: s) (simp_all add: register_ok)
  then show ?thesis by simp
qed

subsection \<open>What a registry holds\<close>

text \<open>Registering a list of entries one after the other, with the result of each call.\<close>

fun register_all ::
  "('s \<Rightarrow> 'a \<Rightarrow> wyoming_error \<times> 's) \<Rightarrow> 's \<Rightarrow> 'a list \<Rightarrow> wyoming_error list \<times> 's" where
  "register_all add s [] = ([], s)"
| "register_all add s (a # as) =
     (case add s a of (rc, s1) \<Rightarrow> case register_all add s1 as of (rcs, s2) \<Rightarrow> (rc # rcs, s2))"

text \<open>
  The contract of the three registries: while there is room an entry goes to the end, then
  \<^verbatim>\<open>WYOMING_ERR_NOMEM\<close> and nothing changes. So a registry holds the first entries up to
  its limit, in order, and the rest were refused.
\<close>

locale bounded_registry =
  fixes add :: "'s \<Rightarrow> 'a \<Rightarrow> wyoming_error \<times> 's"
    and items :: "'s \<Rightarrow> 'e list"
    and entry :: "'a \<Rightarrow> 'e"
    and limit :: nat
    and good :: "'s \<Rightarrow> bool"
  assumes add_room: "good s \<Longrightarrow> length (items s) < limit \<Longrightarrow>
        \<exists>s'. add s a = (WYOMING_OK, s') \<and> items s' = items s @ [entry a] \<and> good s'"
    and add_full: "good s \<Longrightarrow> limit \<le> length (items s) \<Longrightarrow> add s a = (WYOMING_ERR_NOMEM, s)"
begin

lemma all_refused:
  "good s \<Longrightarrow> limit \<le> length (items s) \<Longrightarrow>
     register_all add s as = (replicate (length as) WYOMING_ERR_NOMEM, s)"
  by (induction as) (simp_all add: add_full)

lemma register_all_holds:
  "good s \<Longrightarrow> length (items s) + k = limit \<Longrightarrow>
     \<exists>s'. register_all add s as =
            (replicate (min k (length as)) WYOMING_OK @
             replicate (length as - k) WYOMING_ERR_NOMEM, s') \<and>
          items s' = items s @ map entry (take k as) \<and> good s'"
proof (induction as arbitrary: s k)
  case (Cons a as)
  show ?case
  proof (cases k)
    case 0
    with Cons.prems all_refused [of s "a # as"] show ?thesis by simp
  next
    case (Suc j)
    then obtain s1 where s1: "add s a = (WYOMING_OK, s1)" "items s1 = items s @ [entry a]" "good s1"
      using add_room [of s a] Cons.prems by auto
    with Cons.IH [of s1 j] Cons.prems Suc show ?thesis by auto
  qed
qed simp

end

definition add_voice_call ::
  "platform \<Rightarrow> ('u, 'c) server \<Rightarrow> string \<times> string list option \<times> string option \<Rightarrow>
     wyoming_error \<times> ('u, 'c) server"
where
  "add_voice_call P s a =
     (case a of (n, ls, d) \<Rightarrow> map_prod id the (wyoming_server_add_voice P (Some s) (Some n) ls d))"

definition voice_entry :: "platform \<Rightarrow> string \<times> string list option \<times> string option \<Rightarrow> server_voice" where
  "voice_entry P a =
     (case a of (n, ls, d) \<Rightarrow>
        \<lparr>sv_name = strdup P n, sv_languages = copy_languages P ls,
         sv_description = strdup_opt P d, sv_speakers = []\<rparr>)"

definition add_model_call ::
  "platform \<Rightarrow> ('u, 'c) server \<Rightarrow> string \<times> string list option \<times> string option \<Rightarrow>
     wyoming_error \<times> ('u, 'c) server"
where
  "add_model_call P s a =
     (case a of (n, ls, d) \<Rightarrow> map_prod id the (wyoming_server_add_asr_model P (Some s) (Some n) ls d))"

definition model_entry :: "platform \<Rightarrow> string \<times> string list option \<times> string option \<Rightarrow> server_model" where
  "model_entry P a =
     (case a of (n, ls, d) \<Rightarrow>
        \<lparr>sm_name = strdup P n, sm_languages = copy_languages P ls,
         sm_description = strdup_opt P d\<rparr>)"

definition add_speaker_call :: "platform \<Rightarrow> ('u, 'c) server \<Rightarrow> string \<Rightarrow> wyoming_error \<times> ('u, 'c) server" where
  "add_speaker_call P s n = map_prod id the (wyoming_server_add_speaker P (Some s) (Some n))"

interpretation voice_reg: bounded_registry "add_voice_call P" voices "voice_entry P" WYOMING_MAX_VOICES "\<lambda>_. True"
  for P
  by unfold_locales
    (auto simp: add_voice_call_def voice_entry_def wyoming_server_add_voice_def Let_def split: prod.split)

interpretation model_reg: bounded_registry "add_model_call P" asr_models "model_entry P" WYOMING_MAX_MODELS "\<lambda>_. True"
  for P
  by unfold_locales
    (auto simp: add_model_call_def model_entry_def wyoming_server_add_asr_model_def Let_def split: prod.split)

interpretation speaker_reg: bounded_registry "add_speaker_call P" "\<lambda>s. sv_speakers (last (voices s))"
  "strdup P" WYOMING_MAX_SPEAKERS "\<lambda>s. voices s \<noteq> []"
  for P
  by unfold_locales (auto simp: add_speaker_call_def wyoming_server_add_speaker_def Let_def)

end
