(* ===== verification/Wy_Info.thy ===== *)
theory Wy_Info
  imports Wy_Registry
begin

text \<open>
  What a server tells about itself: \<^verbatim>\<open>build_info_data\<close> of \<^verbatim>\<open>src/server.c\<close>, and
  how \<^verbatim>\<open>wyoming_describe\<close> and \<^verbatim>\<open>parse_voices\<close> of \<^verbatim>\<open>src/client.c\<close> read
  it back.
\<close>

subsection \<open>The server's side\<close>

text \<open>A string member that is only added when the field is set. (For a NULL name
  \<^verbatim>\<open>cJSON_AddStringToObject\<close> adds nothing, so names follow the same rule.)\<close>

definition add_opt_string :: "platform \<Rightarrow> cJSON option \<Rightarrow> string \<Rightarrow> string option \<Rightarrow> cJSON option" where
  "add_opt_string P obj key s =
     (case s of None \<Rightarrow> obj | Some t \<Rightarrow> cJSON_AddStringToObject P obj key t)"

definition create_opt_string :: "platform \<Rightarrow> string option \<Rightarrow> cJSON option" where
  "create_opt_string P s = (case s of None \<Rightarrow> None | Some t \<Rightarrow> cJSON_CreateString P t)"

definition voice_json :: "platform \<Rightarrow> server_voice \<Rightarrow> cJSON option" where
  "voice_json P sv =
     (let voice = cJSON_CreateObject P;
          voice = add_opt_string P voice ''name'' (sv_name sv);
          voice = add_opt_string P voice ''description'' (sv_description sv);
          voice = cJSON_AddArrayToObject P voice ''languages''
                    (map (create_opt_string P) (sv_languages sv));
          voice = cJSON_AddArrayToObject P voice ''speakers''
                    (map (add_opt_string P (cJSON_CreateObject P) ''name'') (sv_speakers sv))
      in voice)"

definition model_json :: "platform \<Rightarrow> server_model \<Rightarrow> cJSON option" where
  "model_json P sm =
     (let model = cJSON_CreateObject P;
          model = add_opt_string P model ''name'' (sm_name sm);
          model = add_opt_string P model ''description'' (sm_description sm);
          model = cJSON_AddArrayToObject P model ''languages''
                    (map (create_opt_string P) (sm_languages sm))
      in model)"

definition tts_json :: "platform \<Rightarrow> ('u, 'c) server \<Rightarrow> cJSON option" where
  "tts_json P srv =
     (let tts = cJSON_CreateObject P;
          tts = add_opt_string P tts ''name'' (tts_name srv);
          tts = add_opt_string P tts ''version'' (tts_version srv)
      in cJSON_AddArrayToObject P tts ''voices'' (map (voice_json P) (voices srv)))"

definition asr_json :: "platform \<Rightarrow> ('u, 'c) server \<Rightarrow> cJSON option" where
  "asr_json P srv =
     (let asr = cJSON_CreateObject P;
          asr = add_opt_string P asr ''name'' (asr_name srv);
          asr = add_opt_string P asr ''version'' (asr_version srv);
          asr = cJSON_AddBoolToObject P asr ''installed'' True
      in cJSON_AddArrayToObject P asr ''models'' (map (model_json P) (asr_models srv)))"

definition build_info_data :: "platform \<Rightarrow> ('u, 'c) server \<Rightarrow> cJSON option" where
  "build_info_data P srv =
     (let data = cJSON_CreateObject P;
          data = cJSON_AddArrayToObject P data ''tts''
                   (case tts_fn srv of None \<Rightarrow> [] | Some _ \<Rightarrow> [tts_json P srv]);
          data = cJSON_AddArrayToObject P data ''asr''
                   (case asr_fn srv of None \<Rightarrow> [] | Some _ \<Rightarrow> [asr_json P srv]);
          data = cJSON_AddArrayToObject P data ''handle'' [];
          data = cJSON_AddArrayToObject P data ''intent'' []
      in cJSON_AddArrayToObject P data ''wake'' [])"

subsection \<open>The client's side\<close>

text \<open>The structures of \<^verbatim>\<open>wyoming.h\<close>; counts are lengths, absent strings NULL.\<close>

record voice_info =
  vi_name :: "string option"
  vi_languages :: "string option list"
  vi_description :: "string option"
  vi_speakers :: "string option list"

record tts_info =
  ti_name :: "string option"
  ti_version :: "string option"
  ti_voices :: "voice_info list"

record model_info =
  mi_name :: "string option"
  mi_languages :: "string option list"
  mi_description :: "string option"

record asr_info =
  ai_name :: "string option"
  ai_version :: "string option"
  ai_models :: "model_info list"

record wyoming_info =
  info_tts :: "tts_info list"
  info_asr :: "asr_info list"

definition info_zero :: wyoming_info where
  "info_zero = \<lparr>info_tts = [], info_asr = []\<rparr>"

text \<open>\<^verbatim>\<open>wyoming_info_free\<close> releases everything and clears the structure.\<close>

definition wyoming_info_free :: "wyoming_info \<Rightarrow> wyoming_info" where
  "wyoming_info_free info = info\<lparr>info_tts := [], info_asr := []\<rparr>"

text \<open>A copy of a string member.\<close>

definition string_member :: "platform \<Rightarrow> cJSON \<Rightarrow> string \<Rightarrow> string option" where
  "string_member P v key =
     (case string_of (cJSON_GetObjectItemCaseSensitive (Some v) key) of
        None \<Rightarrow> None
      | Some s \<Rightarrow> strdup P s)"

text \<open>An array of structures of \<open>sz\<close> bytes, one per child, when there are any and
  \<^verbatim>\<open>calloc\<close> succeeds.\<close>

definition alloc_children :: "platform \<Rightarrow> nat \<Rightarrow> (cJSON \<Rightarrow> 'a) \<Rightarrow> cJSON option \<Rightarrow> 'a list" where
  "alloc_children P sz f arr =
     (case array_of arr of
        None \<Rightarrow> []
      | Some xs \<Rightarrow>
          if 0 < cJSON_GetArraySize arr \<and> malloc_ok P (nat (cJSON_GetArraySize arr) * sz)
          then map f xs else [])"

definition parse_voice :: "platform \<Rightarrow> cJSON \<Rightarrow> voice_info" where
  "parse_voice P v =
     \<lparr>vi_name = string_member P v ''name'',
      vi_languages = alloc_children P 8
        (\<lambda>l. case string_of (Some l) of None \<Rightarrow> None | Some s \<Rightarrow> strdup P s)
        (cJSON_GetObjectItemCaseSensitive (Some v) ''languages''),
      vi_description = string_member P v ''description'',
      vi_speakers = alloc_children P 8 (\<lambda>s. string_member P s ''name'')
        (cJSON_GetObjectItemCaseSensitive (Some v) ''speakers'')\<rparr>"

text \<open>\<^verbatim>\<open>parse_voices\<close>; \<^verbatim>\<open>sizeof(wyoming_voice_t)\<close> is 48.\<close>

definition parse_voices :: "platform \<Rightarrow> cJSON option \<Rightarrow> voice_info list" where
  "parse_voices P voices_arr = alloc_children P 48 (parse_voice P) voices_arr"

definition parse_tts :: "platform \<Rightarrow> cJSON \<Rightarrow> tts_info" where
  "parse_tts P t =
     \<lparr>ti_name = string_member P t ''name'',
      ti_version = string_member P t ''version'',
      ti_voices = parse_voices P (cJSON_GetObjectItemCaseSensitive (Some t) ''voices'')\<rparr>"

text \<open>
  The languages of a model: the array has a slot per element, but only strings are stored,
  from the front, so slots at the end stay NULL when other elements were skipped.
\<close>

definition parse_model_languages :: "platform \<Rightarrow> cJSON option \<Rightarrow> string option list" where
  "parse_model_languages P ml =
     (case array_of ml of
        None \<Rightarrow> []
      | Some xs \<Rightarrow>
          (let lc = nat (cJSON_GetArraySize ml);
               strings = List.map_filter (\<lambda>l. string_of (Some l)) xs
           in if malloc_ok P ((lc + 1) * 8)
              then map (strdup P) strings @ replicate (lc - length strings) None
              else []))"

definition parse_model :: "platform \<Rightarrow> cJSON \<Rightarrow> model_info" where
  "parse_model P m =
     \<lparr>mi_name = string_member P m ''name'',
      mi_languages = parse_model_languages P (cJSON_GetObjectItemCaseSensitive (Some m) ''languages''),
      mi_description = string_member P m ''description''\<rparr>"

definition parse_asr :: "platform \<Rightarrow> cJSON \<Rightarrow> asr_info" where
  "parse_asr P a =
     \<lparr>ai_name = string_member P a ''name'',
      ai_version = string_member P a ''version'',
      ai_models = alloc_children P 32 (parse_model P)
        (cJSON_GetObjectItemCaseSensitive (Some a) ''models'')\<rparr>"

definition parse_info :: "platform \<Rightarrow> cJSON option \<Rightarrow> wyoming_info" where
  "parse_info P data =
     (case data of
        None \<Rightarrow> info_zero
      | Some _ \<Rightarrow>
          \<lparr>info_tts = alloc_children P 32 (parse_tts P) (cJSON_GetObjectItemCaseSensitive data ''tts''),
           info_asr = alloc_children P 32 (parse_asr P) (cJSON_GetObjectItemCaseSensitive data ''asr'')\<rparr>)"

subsection \<open>What is sent when memory suffices\<close>

definition str_member :: "string \<Rightarrow> string option \<Rightarrow> (string \<times> cJSON) list" where
  "str_member key s = (case s of None \<Rightarrow> [] | Some t \<Rightarrow> [(key, cJSON_String t)])"

definition str_items :: "string option list \<Rightarrow> cJSON list" where
  "str_items ls = map cJSON_String (List.map_filter (\<lambda>l. l) ls)"

definition voice_obj :: "server_voice \<Rightarrow> cJSON" where
  "voice_obj sv = cJSON_Object
     (str_member ''name'' (sv_name sv) @ str_member ''description'' (sv_description sv) @
      [(''languages'', cJSON_Array (str_items (sv_languages sv))),
       (''speakers'', cJSON_Array (map (\<lambda>s. cJSON_Object (str_member ''name'' s)) (sv_speakers sv)))])"

definition model_obj :: "server_model \<Rightarrow> cJSON" where
  "model_obj sm = cJSON_Object
     (str_member ''name'' (sm_name sm) @ str_member ''description'' (sm_description sm) @
      [(''languages'', cJSON_Array (str_items (sm_languages sm)))])"

definition tts_obj :: "('u, 'c) server \<Rightarrow> cJSON" where
  "tts_obj srv = cJSON_Object
     (str_member ''name'' (tts_name srv) @ str_member ''version'' (tts_version srv) @
      [(''voices'', cJSON_Array (map voice_obj (voices srv)))])"

definition asr_obj :: "('u, 'c) server \<Rightarrow> cJSON" where
  "asr_obj srv = cJSON_Object
     (str_member ''name'' (asr_name srv) @ str_member ''version'' (asr_version srv) @
      [(''installed'', cJSON_True), (''models'', cJSON_Array (map model_obj (asr_models srv)))])"

definition info_obj :: "('u, 'c) server \<Rightarrow> cJSON" where
  "info_obj srv = cJSON_Object
     [(''tts'', cJSON_Array (case tts_fn srv of None \<Rightarrow> [] | Some _ \<Rightarrow> [tts_obj srv])),
      (''asr'', cJSON_Array (case asr_fn srv of None \<Rightarrow> [] | Some _ \<Rightarrow> [asr_obj srv])),
      (''handle'', cJSON_Array []), (''intent'', cJSON_Array []), (''wake'', cJSON_Array [])]"

text \<open>Every string of the server, and memory for a copy of each and for the arrays.\<close>

definition the_strings :: "string option list \<Rightarrow> string list" where
  "the_strings ls = List.map_filter (\<lambda>l. l) ls"

definition voice_strings :: "server_voice \<Rightarrow> string list" where
  "voice_strings v = the_strings ([sv_name v, sv_description v] @ sv_languages v @ sv_speakers v)"

definition model_strings :: "server_model \<Rightarrow> string list" where
  "model_strings m = the_strings ([sm_name m, sm_description m] @ sm_languages m)"

definition server_strings :: "('u, 'c) server \<Rightarrow> string list" where
  "server_strings s =
     the_strings [tts_name s, tts_version s, asr_name s, asr_version s] @
     concat (map voice_strings (voices s)) @ concat (map model_strings (asr_models s))"

definition string_fits :: "platform \<Rightarrow> string \<Rightarrow> bool" where
  "string_fits P t \<longleftrightarrow> c_string t \<and> malloc_ok P (length t + 1)"

definition server_room :: "platform \<Rightarrow> ('u, 'c) server \<Rightarrow> bool" where
  "server_room P s \<longleftrightarrow> mem_ok P 4096 \<and> list_all (string_fits P) (server_strings s)"

lemma the_strings_Cons [simp]:
  "the_strings [] = []"
  "the_strings (l # ls) = (case l of None \<Rightarrow> [] | Some t \<Rightarrow> [t]) @ the_strings ls"
  by (simp_all add: the_strings_def List.map_filter_def split: option.split)

lemma the_strings_append [simp]: "the_strings (xs @ ys) = the_strings xs @ the_strings ys"
  by (induction xs) auto

lemma set_the_strings: "t \<in> set (the_strings ls) \<longleftrightarrow> Some t \<in> set ls"
  by (induction ls) (auto split: option.splits)

lemma str_items_eq: "str_items ls = map cJSON_String (the_strings ls)"
  by (simp add: str_items_def the_strings_def)

lemma add_opt_string_ok [cjson_build]:
  assumes "mem_ok P 4096" and "length key < 100" and "list_all (string_fits P) (the_strings [s])"
  shows "add_opt_string P (Some (cJSON_Object kvs)) key s = Some (cJSON_Object (kvs @ str_member key s))"
  using assms
  by (cases s) (simp_all add: add_opt_string_def str_member_def string_fits_def cjson_build)

lemma foldl_add_opt_strings:
  "mem_ok P 4096 \<Longrightarrow> list_all (string_fits P) (the_strings ls) \<Longrightarrow>
     foldl cJSON_AddItemToArray xs (map (create_opt_string P) ls) = xs @ str_items ls"
proof (induction ls arbitrary: xs)
  case (Cons l ls)
  then show ?case
    by (cases l) (auto simp: create_opt_string_def cJSON_AddItemToArray_def str_items_eq
        string_fits_def cjson_build)
qed (simp add: str_items_eq)

lemma add_languages_ok [cjson_build]:
  assumes "mem_ok P 4096" and "list_all (string_fits P) (the_strings ls)"
  shows "cJSON_AddArrayToObject P (Some (cJSON_Object kvs)) ''languages'' (map (create_opt_string P) ls) =
     Some (cJSON_Object (kvs @ [(''languages'', cJSON_Array (str_items ls))]))"
  using assms foldl_add_opt_strings [OF assms, of "[]"]
  by (simp add: cJSON_AddArrayToObject_def cjson_build)

text \<open>An array whose items could all be created.\<close>

lemma add_created_ok:
  assumes "mem_ok P 4096" and "length key < 100" and "\<And>x. x \<in> set xs \<Longrightarrow> f x = Some (g x)"
  shows "cJSON_AddArrayToObject P (Some (cJSON_Object kvs)) key (map f xs) =
     Some (cJSON_Object (kvs @ [(key, cJSON_Array (map g xs))]))"
proof -
  have eq: "map f xs = map Some (map g xs)" using assms(3) by simp
  show ?thesis
    unfolding eq by (rule add_array_ok) (use assms(1,2) in simp_all)
qed

lemma voice_json_ok:
  assumes "mem_ok P 4096" and "list_all (string_fits P) (voice_strings v)"
  shows "voice_json P v = Some (voice_obj v)"
proof -
  have "add_opt_string P (cJSON_CreateObject P) ''name'' s = Some (cJSON_Object (str_member ''name'' s))"
    if "s \<in> set (sv_speakers v)" for s
    using assms that
    by (cases s) (auto simp: cjson_build voice_strings_def list_all_iff set_the_strings)
  then show ?thesis
    using assms add_created_ok [OF assms(1), of "''speakers''" "sv_speakers v"
      "add_opt_string P (cJSON_CreateObject P) ''name''" "\<lambda>s. cJSON_Object (str_member ''name'' s)"]
    by (simp add: voice_json_def voice_obj_def Let_def cjson_build voice_strings_def)
qed

lemma model_json_ok:
  assumes "mem_ok P 4096" and "list_all (string_fits P) (model_strings m)"
  shows "model_json P m = Some (model_obj m)"
  using assms by (simp add: model_json_def model_obj_def Let_def cjson_build model_strings_def)

lemma server_strings_parts:
  assumes "list_all (string_fits P) (server_strings s)"
  shows "list_all (string_fits P) (the_strings [tts_name s])" "list_all (string_fits P) (the_strings [tts_version s])"
    "list_all (string_fits P) (the_strings [asr_name s])" "list_all (string_fits P) (the_strings [asr_version s])"
    "v \<in> set (voices s) \<Longrightarrow> list_all (string_fits P) (voice_strings v)"
    "m \<in> set (asr_models s) \<Longrightarrow> list_all (string_fits P) (model_strings m)"
  using assms by (auto simp: server_strings_def list_all_iff)

lemma build_info_ok:
  assumes "server_room P srv"
  shows "build_info_data P srv = Some (info_obj srv)"
proof -
  have m: "mem_ok P 4096" and s: "list_all (string_fits P) (server_strings srv)"
    using assms by (simp_all add: server_room_def)
  note parts = server_strings_parts [OF s]
  have "tts_json P srv = Some (tts_obj srv)"
    using m parts(1,2) add_created_ok [OF m, of "''voices''" "voices srv" "voice_json P" voice_obj]
      voice_json_ok [OF m parts(5)]
    by (simp add: tts_json_def tts_obj_def Let_def cjson_build)
  moreover have "asr_json P srv = Some (asr_obj srv)"
    using m parts(3,4) add_created_ok [OF m, of "''models''" "asr_models srv" "model_json P" model_obj]
      model_json_ok [OF m parts(6)]
    by (simp add: asr_json_def asr_obj_def Let_def cjson_build)
  ultimately have items: "(case tts_fn srv of None \<Rightarrow> [] | Some _ \<Rightarrow> [tts_json P srv]) =
      map Some (case tts_fn srv of None \<Rightarrow> [] | Some _ \<Rightarrow> [tts_obj srv])"
    "(case asr_fn srv of None \<Rightarrow> [] | Some _ \<Rightarrow> [asr_json P srv]) =
      map Some (case asr_fn srv of None \<Rightarrow> [] | Some _ \<Rightarrow> [asr_obj srv])"
    by (simp_all split: option.split)
  have none: "cJSON_AddArrayToObject P (Some (cJSON_Object kvs)) k [] =
      Some (cJSON_Object (kvs @ [(k, cJSON_Array [])]))" if "length k < 100" for kvs k
    using add_created_ok [OF m that, of "[]"] by simp
  show ?thesis
    using m by (simp add: build_info_data_def info_obj_def Let_def items cjson_build none)
qed

subsection \<open>Reading it back\<close>

text \<open>What a client learns of a server: its registrations as they are.\<close>

definition voice_info_of :: "server_voice \<Rightarrow> voice_info" where
  "voice_info_of v =
     \<lparr>vi_name = sv_name v, vi_languages = map Some (the_strings (sv_languages v)),
      vi_description = sv_description v, vi_speakers = sv_speakers v\<rparr>"

definition model_info_of :: "server_model \<Rightarrow> model_info" where
  "model_info_of m =
     \<lparr>mi_name = sm_name m, mi_languages = map Some (the_strings (sm_languages m)),
      mi_description = sm_description m\<rparr>"

definition info_of :: "('u, 'c) server \<Rightarrow> wyoming_info" where
  "info_of srv =
     \<lparr>info_tts = (case tts_fn srv of
        None \<Rightarrow> []
      | Some _ \<Rightarrow> [\<lparr>ti_name = tts_name srv, ti_version = tts_version srv,
                     ti_voices = map voice_info_of (voices srv)\<rparr>]),
      info_asr = (case asr_fn srv of
        None \<Rightarrow> []
      | Some _ \<Rightarrow> [\<lparr>ai_name = asr_name srv, ai_version = asr_version srv,
                     ai_models = map model_info_of (asr_models srv)\<rparr>])\<rparr>"

lemma map_of_str_member [cjson_read]:
  "map_of (str_member k s @ xs) k' =
     (if k' = k then (case s of None \<Rightarrow> map_of xs k' | Some t \<Rightarrow> Some (cJSON_String t))
      else map_of xs k')"
  by (simp add: str_member_def split: option.split)

lemma map_of_str_member_only [cjson_read]:
  "map_of (str_member k s) k' = (if k' = k then map_option cJSON_String s else None)"
  by (simp add: str_member_def split: option.split)

lemma alloc_children_ok:
  assumes "mem_ok P 4096" and "length xs * sz \<le> 4096" and "0 < sz"
  shows "alloc_children P sz f (Some (cJSON_Array xs)) = map f xs"
proof (cases "xs = []")
  case True
  then show ?thesis by (simp add: alloc_children_def cjson_read)
next
  case False
  have "length xs \<le> length xs * sz" using assms(3) by (cases sz) simp_all
  also note assms(2)
  finally have "length xs < 2 ^ 31" by simp
  then have s: "cJSON_GetArraySize (Some (cJSON_Array xs)) = int (length xs)"
    by (simp add: cJSON_GetArraySize_small)
  have "malloc_ok P (length xs * sz)" by (rule mem_okD [OF assms(1,2)])
  with False show ?thesis by (simp add: alloc_children_def cjson_read s)
qed

lemma string_member_read:
  assumes "list_all (string_fits P) (the_strings [s])" and "map_of kvs key = map_option cJSON_String s"
  shows "string_member P (cJSON_Object kvs) key = s"
  using assms by (cases s) (simp_all add: string_member_def cjson_read string_fits_def strdup_def)

lemma map_string_read:
  assumes "list_all (string_fits P) ts"
  shows "map (\<lambda>l. case string_of (Some l) of None \<Rightarrow> None | Some s \<Rightarrow> strdup P s) (map cJSON_String ts) =
     map Some ts" "map (strdup P) ts = map Some ts"
  using assms by (induction ts) (simp_all add: cjson_read string_fits_def strdup_def)

lemma map_filter_strings: "List.map_filter (\<lambda>l. string_of (Some l)) (map cJSON_String ts) = ts"
  by (induction ts) (simp_all add: List.map_filter_def cjson_read)

lemma length_the_strings: "length (the_strings ls) \<le> length ls"
  by (induction ls) (auto split: option.split)

lemma parse_voice_obj:
  assumes "mem_ok P 4096" and "list_all (string_fits P) (voice_strings v)" and "voice_ok v"
  shows "parse_voice P (voice_obj v) = voice_info_of v"
proof -
  have parts: "list_all (string_fits P) (the_strings [sv_name v])"
    "list_all (string_fits P) (the_strings [sv_description v])"
    "list_all (string_fits P) (the_strings (sv_languages v))"
    "list_all (string_fits P) (the_strings (sv_speakers v))"
    using assms(2) by (simp_all add: voice_strings_def)
  have "string_member P (voice_obj v) ''name'' = sv_name v"
    unfolding voice_obj_def
    by (rule string_member_read [OF parts(1)]) (simp add: cjson_read del: map_of_append split: option.split)
  moreover have "string_member P (voice_obj v) ''description'' = sv_description v"
    unfolding voice_obj_def
    by (rule string_member_read [OF parts(2)]) (simp add: cjson_read del: map_of_append split: option.split)
  moreover have "cJSON_GetObjectItemCaseSensitive (Some (voice_obj v)) ''languages'' =
      Some (cJSON_Array (map cJSON_String (the_strings (sv_languages v))))"
    by (simp add: voice_obj_def cjson_read str_items_eq del: map_of_append)
  moreover have "cJSON_GetObjectItemCaseSensitive (Some (voice_obj v)) ''speakers'' =
      Some (cJSON_Array (map (\<lambda>s. cJSON_Object (str_member ''name'' s)) (sv_speakers v)))"
    by (simp add: voice_obj_def cjson_read del: map_of_append)
  moreover have "string_member P (cJSON_Object (str_member ''name'' s)) ''name'' = s"
    if "s \<in> set (sv_speakers v)" for s
    using parts(4) that
    by (intro string_member_read) (auto simp: cjson_read list_all_iff set_the_strings split: option.split)
  then have "map (\<lambda>s. string_member P s ''name'')
      (map (\<lambda>s. cJSON_Object (str_member ''name'' s)) (sv_speakers v)) = sv_speakers v"
    by (simp add: map_idI)
  moreover have "length (map cJSON_String (the_strings (sv_languages v))) * 8 \<le> 4096"
    "length (sv_speakers v) * 8 \<le> 4096"
    using assms(3) length_the_strings [of "sv_languages v"] by (simp_all add: voice_ok_def)
  ultimately show ?thesis
    using assms(1) map_string_read(1) [OF parts(3)]
    by (simp add: parse_voice_def voice_info_of_def alloc_children_ok del: map_map)
qed

lemma parse_model_obj:
  assumes "mem_ok P 4096" and "list_all (string_fits P) (model_strings m)"
    and "length (sm_languages m) \<le> WYOMING_MAX_LANGS"
  shows "parse_model P (model_obj m) = model_info_of m"
proof -
  have parts: "list_all (string_fits P) (the_strings [sm_name m])"
    "list_all (string_fits P) (the_strings [sm_description m])"
    "list_all (string_fits P) (the_strings (sm_languages m))"
    using assms(2) by (simp_all add: model_strings_def)
  define ts where "ts = the_strings (sm_languages m)"
  have len: "length ts \<le> 8" using assms(3) length_the_strings [of "sm_languages m"] by (simp add: ts_def)
  have "string_member P (model_obj m) ''name'' = sm_name m"
    unfolding model_obj_def
    by (rule string_member_read [OF parts(1)]) (simp add: cjson_read del: map_of_append split: option.split)
  moreover have "string_member P (model_obj m) ''description'' = sm_description m"
    unfolding model_obj_def
    by (rule string_member_read [OF parts(2)]) (simp add: cjson_read del: map_of_append split: option.split)
  moreover have "cJSON_GetObjectItemCaseSensitive (Some (model_obj m)) ''languages'' =
      Some (cJSON_Array (map cJSON_String ts))"
    by (simp add: model_obj_def cjson_read str_items_eq ts_def del: map_of_append)
  moreover have "cJSON_GetArraySize (Some (cJSON_Array (map cJSON_String ts))) = int (length ts)"
    using len by (subst cJSON_GetArraySize_small) simp_all
  moreover have "malloc_ok P ((length ts + 1) * 8)"
    by (rule mem_okD [OF assms(1)]) (use len in simp)
  ultimately show ?thesis
    using map_string_read(2) [OF parts(3)]
    by (simp add: parse_model_def parse_model_languages_def model_info_of_def cjson_read
        map_filter_strings Let_def flip: ts_def)
qed

lemma parse_tts_obj:
  assumes "server_ok srv" and "server_room P srv"
  shows "parse_tts P (tts_obj srv) =
     \<lparr>ti_name = tts_name srv, ti_version = tts_version srv,
      ti_voices = map voice_info_of (voices srv)\<rparr>"
proof -
  have m: "mem_ok P 4096" and s: "list_all (string_fits P) (server_strings srv)"
    using assms(2) by (simp_all add: server_room_def)
  note parts = server_strings_parts [OF s]
  have "string_member P (tts_obj srv) ''name'' = tts_name srv"
    unfolding tts_obj_def
    by (rule string_member_read [OF parts(1)]) (simp add: cjson_read del: map_of_append split: option.split)
  moreover have "string_member P (tts_obj srv) ''version'' = tts_version srv"
    unfolding tts_obj_def
    by (rule string_member_read [OF parts(2)]) (simp add: cjson_read del: map_of_append split: option.split)
  moreover have "cJSON_GetObjectItemCaseSensitive (Some (tts_obj srv)) ''voices'' =
      Some (cJSON_Array (map voice_obj (voices srv)))"
    by (simp add: tts_obj_def cjson_read del: map_of_append)
  moreover have "map (parse_voice P) (map voice_obj (voices srv)) = map voice_info_of (voices srv)"
    using parse_voice_obj [OF m parts(5)] assms(1) by (simp add: server_ok_def list_all_iff)
  moreover have "length (map voice_obj (voices srv)) * 48 \<le> 4096"
    using assms(1) by (simp add: server_ok_def)
  ultimately show ?thesis
    using m by (simp add: parse_tts_def parse_voices_def alloc_children_ok del: map_map)
qed

lemma parse_asr_obj:
  assumes "server_ok srv" and "server_room P srv"
  shows "parse_asr P (asr_obj srv) =
     \<lparr>ai_name = asr_name srv, ai_version = asr_version srv,
      ai_models = map model_info_of (asr_models srv)\<rparr>"
proof -
  have m: "mem_ok P 4096" and s: "list_all (string_fits P) (server_strings srv)"
    using assms(2) by (simp_all add: server_room_def)
  note parts = server_strings_parts [OF s]
  have "string_member P (asr_obj srv) ''name'' = asr_name srv"
    unfolding asr_obj_def
    by (rule string_member_read [OF parts(3)]) (simp add: cjson_read del: map_of_append split: option.split)
  moreover have "string_member P (asr_obj srv) ''version'' = asr_version srv"
    unfolding asr_obj_def
    by (rule string_member_read [OF parts(4)]) (simp add: cjson_read del: map_of_append split: option.split)
  moreover have "cJSON_GetObjectItemCaseSensitive (Some (asr_obj srv)) ''models'' =
      Some (cJSON_Array (map model_obj (asr_models srv)))"
    by (simp add: asr_obj_def cjson_read del: map_of_append)
  moreover have "map (parse_model P) (map model_obj (asr_models srv)) = map model_info_of (asr_models srv)"
    using parse_model_obj [OF m parts(6)] assms(1) by (simp add: server_ok_def list_all_iff)
  moreover have "length (map model_obj (asr_models srv)) * 32 \<le> 4096"
    using assms(1) by (simp add: server_ok_def)
  ultimately show ?thesis
    using m by (simp add: parse_asr_def alloc_children_ok del: map_map)
qed

lemma parse_info_obj:
  assumes "server_ok srv" and "server_room P srv"
  shows "parse_info P (Some (info_obj srv)) = info_of srv"
proof -
  have m: "mem_ok P 4096" using assms(2) by (simp add: server_room_def)
  show ?thesis
    by (simp add: parse_info_def info_of_def info_obj_def cjson_read alloc_children_ok [OF m]
        parse_tts_obj [OF assms] parse_asr_obj [OF assms] split: option.split)
qed

end
