(* ===== verification/Wy_Client.thy ===== *)
theory Wy_Client
  imports Wy_Info
begin

text \<open>
  The client calls of \<^verbatim>\<open>src/client.c\<close>. A connection is its descriptor with the buffered
  reader on it, so \<^typ>\<open>iobuf\<close> stands for \<^verbatim>\<open>wyoming_conn_t\<close>. Pointers that a caller
  may leave NULL are options; the connection, the format and the out parameters are taken as
  given (the code refuses a NULL there with \<^verbatim>\<open>WYOMING_ERR_INVAL\<close> before doing anything).
  Each call returns its error code, what it stored through its out parameters, and the
  connection.
\<close>

type_synonym conn = iobuf

subsection \<open>Events\<close>

definition wyoming_read_event :: "platform \<Rightarrow> conn option \<Rightarrow> wyoming_error \<times> event \<times> conn option" where
  "wyoming_read_event P conn =
     (case conn of
        None \<Rightarrow> (WYOMING_ERR_INVAL, wyoming_event_init, None)
      | Some c \<Rightarrow>
          (case wyoming_event_read_iobuf P c of (rc, event, c) \<Rightarrow> (rc, event, Some c)))"

definition conn_write :: "platform \<Rightarrow> conn \<Rightarrow> event \<Rightarrow> wyoming_error \<times> conn" where
  "conn_write P conn event =
     (case wyoming_event_write_fd P (io_fd conn) event of
        (rc, fd) \<Rightarrow> (rc, conn\<lparr>io_fd := fd\<rparr>))"

definition wyoming_write_event ::
  "platform \<Rightarrow> conn option \<Rightarrow> event option \<Rightarrow> wyoming_error \<times> conn option" where
  "wyoming_write_event P conn event =
     (case (conn, event) of
        (Some c, Some e) \<Rightarrow> map_prod id Some (conn_write P c e)
      | _ \<Rightarrow> (WYOMING_ERR_INVAL, conn))"

subsection \<open>Synthesis\<close>

definition wyoming_synthesize ::
  "platform \<Rightarrow> conn \<Rightarrow> string option \<Rightarrow> string option \<Rightarrow> wyoming_error \<times> conn" where
  "wyoming_synthesize P conn text voice =
     (case text of
        None \<Rightarrow> (WYOMING_ERR_INVAL, conn)
      | Some t \<Rightarrow>
          let data = cJSON_CreateObject P
          in if data = None then (WYOMING_ERR_NOMEM, conn)
             else
               let data = cJSON_AddStringToObject P data ''text'' t;
                   data = (case voice of
                             None \<Rightarrow> data
                           | Some v \<Rightarrow>
                               cJSON_AddItemToObject P data ''voice''
                                 (cJSON_AddStringToObject P (cJSON_CreateObject P) ''name'' v))
               in conn_write P conn
                    \<lparr>ev_type = strdup P WYOMING_EVENT_SYNTHESIZE, ev_data = data,
                     ev_payload = None\<rparr>)"

text \<open>The loop of \<^verbatim>\<open>wyoming_synthesize_pcm\<close> that collects the answer.\<close>

function collect_audio ::
  "platform \<Rightarrow> conn \<Rightarrow> pcm_buffer \<Rightarrow> audio_format \<Rightarrow> bool \<Rightarrow>
     wyoming_error \<times> sample list option \<times> audio_format \<times> conn"
where
  "collect_audio P conn b fmt got_start =
     (case wyoming_event_read_iobuf P conn of
        (rc, event, conn) \<Rightarrow>
          if rc \<noteq> WYOMING_OK then (rc, None, fmt, conn)
          else if ev_type event = Some WYOMING_EVENT_AUDIO_START
          then collect_audio P conn b (read_format P (ev_data event) fmt) True
          else if ev_type event = Some WYOMING_EVENT_AUDIO_CHUNK
          then (if \<not> got_start then (WYOMING_ERR_PROTO, None, fmt, conn)
                else if payload_len event = 0 then collect_audio P conn b fmt got_start
                else (case pcm_append P 4096 b (payload_text event) of
                        None \<Rightarrow> (WYOMING_ERR_NOMEM, None, fmt, conn)
                      | Some b' \<Rightarrow> collect_audio P conn b' fmt got_start))
          else if ev_type event = Some WYOMING_EVENT_AUDIO_STOP
          then (WYOMING_OK, pcm b, fmt, conn)
          else if ev_type event = Some WYOMING_EVENT_ERROR
          then (WYOMING_ERR_PROTO, None, fmt, conn)
          else collect_audio P conn b fmt got_start)"
  by pat_completeness auto
termination
  by (relation "measure (\<lambda>(P, conn, b, fmt, g). io_size conn)")
     (simp_all, (erule (1) read_event_decreases)+)

declare collect_audio.simps [simp del]

definition wyoming_synthesize_pcm ::
  "platform \<Rightarrow> conn \<Rightarrow> string option \<Rightarrow> string option \<Rightarrow>
     wyoming_error \<times> sample list option \<times> audio_format \<times> conn"
where
  "wyoming_synthesize_pcm P conn text voice =
     (let fmt = \<lparr>rate = 0, width = 0, channels = 0\<rparr>
      in if text = None then (WYOMING_ERR_INVAL, None, fmt, conn)
         else (case wyoming_synthesize P conn text voice of
                 (rc, conn) \<Rightarrow>
                   if rc \<noteq> WYOMING_OK then (rc, None, fmt, conn)
                   else collect_audio P conn pcm_empty fmt False))"

subsection \<open>Describe\<close>

definition wyoming_describe :: "platform \<Rightarrow> conn \<Rightarrow> wyoming_error \<times> wyoming_info \<times> conn" where
  "wyoming_describe P conn =
     (case conn_write P conn (bare_event P WYOMING_EVENT_DESCRIBE) of
        (rc, conn) \<Rightarrow>
          if rc \<noteq> WYOMING_OK then (rc, info_zero, conn)
          else (case wyoming_event_read_iobuf P conn of
                  (rc, info_event, conn) \<Rightarrow>
                    if rc \<noteq> WYOMING_OK then (rc, info_zero, conn)
                    else if ev_type info_event \<noteq> Some WYOMING_EVENT_INFO
                    then (WYOMING_ERR_PROTO, info_zero, conn)
                    else (WYOMING_OK, parse_info P (ev_data info_event), conn)))"

subsection \<open>Transcription\<close>

text \<open>The request data: the language when one is given.\<close>

definition language_data :: "platform \<Rightarrow> string option \<Rightarrow> cJSON option" where
  "language_data P language =
     (let data = cJSON_CreateObject P
      in case language of
           None \<Rightarrow> data
         | Some l \<Rightarrow> if l = [] then data else cJSON_AddStringToObject P data ''language'' l)"

definition request_event :: "platform \<Rightarrow> string \<Rightarrow> string option \<Rightarrow> event" where
  "request_event P type language =
     \<lparr>ev_type = strdup P type, ev_data = language_data P language, ev_payload = None\<rparr>"

text \<open>The chunk loop of \<^verbatim>\<open>wyoming_transcribe_pcm\<close>: 2048 bytes at a time, each in a
  payload of its own.\<close>

function send_chunks :: "platform \<Rightarrow> conn \<Rightarrow> audio_format \<Rightarrow> byte list \<Rightarrow> wyoming_error \<times> conn" where
  "send_chunks P conn fmt raw =
     (if raw = [] then (WYOMING_OK, conn)
      else let send = take 2048 raw
           in if \<not> malloc_ok P (length send) then (WYOMING_ERR_NOMEM, conn)
              else (case conn_write P conn (audio_chunk_event P fmt send) of
                      (rc, conn) \<Rightarrow>
                        if rc \<noteq> WYOMING_OK then (rc, conn)
                        else send_chunks P conn fmt (drop 2048 raw)))"
  by pat_completeness auto
termination
  by (relation "measure (\<lambda>(P, conn, fmt, raw). length raw)") auto

declare send_chunks.simps [simp del]

text \<open>Waiting for the transcript.\<close>

function await_transcript :: "platform \<Rightarrow> conn \<Rightarrow> wyoming_error \<times> string option \<times> conn" where
  "await_transcript P conn =
     (case wyoming_event_read_iobuf P conn of
        (rc, event, conn) \<Rightarrow>
          if rc \<noteq> WYOMING_OK then (rc, None, conn)
          else if ev_type event = Some WYOMING_EVENT_TRANSCRIPT
          then (let text = (case string_of (cJSON_GetObjectItemCaseSensitive (ev_data event) ''text'') of
                              None \<Rightarrow> None
                            | Some s \<Rightarrow> strdup P s)
                in (if text = None then WYOMING_ERR_PROTO else WYOMING_OK, text, conn))
          else if ev_type event = Some WYOMING_EVENT_ERROR
          then (WYOMING_ERR_PROTO, None, conn)
          else await_transcript P conn)"
  by pat_completeness auto
termination
  by (relation "measure (\<lambda>(P, conn). io_size conn)")
     (simp_all, (erule (1) read_event_decreases)+)

declare await_transcript.simps [simp del]

definition wyoming_transcribe_pcm ::
  "platform \<Rightarrow> conn \<Rightarrow> sample list option \<Rightarrow> audio_format \<Rightarrow> string option \<Rightarrow>
     wyoming_error \<times> string option \<times> conn"
where
  "wyoming_transcribe_pcm P conn audio fmt language =
     (case audio of
        None \<Rightarrow> (WYOMING_ERR_INVAL, None, conn)
      | Some zs \<Rightarrow>
          if zs = [] then (WYOMING_ERR_INVAL, None, conn)
          else (case conn_write P conn (request_event P WYOMING_EVENT_TRANSCRIBE language) of
                  (rc, conn) \<Rightarrow>
                    if rc \<noteq> WYOMING_OK then (rc, None, conn)
                    else (case conn_write P conn (audio_start_event P fmt False) of
                      (rc, conn) \<Rightarrow>
                        if rc \<noteq> WYOMING_OK then (rc, None, conn)
                        else (case send_chunks P conn fmt (samples_bytes zs) of
                          (rc, conn) \<Rightarrow>
                            if rc \<noteq> WYOMING_OK then (rc, None, conn)
                            else (case conn_write P conn (bare_event P WYOMING_EVENT_AUDIO_STOP) of
                              (rc, conn) \<Rightarrow>
                                if rc \<noteq> WYOMING_OK then (rc, None, conn)
                                else await_transcript P conn)))))"

subsection \<open>Streaming transcription\<close>

definition wyoming_transcribe_start ::
  "platform \<Rightarrow> conn \<Rightarrow> audio_format \<Rightarrow> string option \<Rightarrow> wyoming_error \<times> conn" where
  "wyoming_transcribe_start P conn fmt language =
     (case conn_write P conn (request_event P WYOMING_EVENT_TRANSCRIBE_START language) of
        (rc, conn) \<Rightarrow>
          if rc \<noteq> WYOMING_OK then (rc, conn)
          else conn_write P conn (audio_start_event P fmt False))"

definition wyoming_transcribe_chunk ::
  "platform \<Rightarrow> conn \<Rightarrow> sample list option \<Rightarrow> audio_format \<Rightarrow> wyoming_error \<times> conn" where
  "wyoming_transcribe_chunk P conn audio fmt =
     (case audio of
        None \<Rightarrow> (WYOMING_ERR_INVAL, conn)
      | Some zs \<Rightarrow>
          if zs = [] then (WYOMING_ERR_INVAL, conn)
          else if \<not> malloc_ok P (length (samples_bytes zs)) then (WYOMING_ERR_NOMEM, conn)
          else conn_write P conn (audio_chunk_event P fmt (samples_bytes zs)))"

text \<open>The loop of \<^verbatim>\<open>wyoming_transcribe_stop\<close>: the text of the first transcript that is not
  marked partial, or the last text seen when that one has none.\<close>

function await_final :: "platform \<Rightarrow> conn \<Rightarrow> string option \<Rightarrow> wyoming_error \<times> string option \<times> conn" where
  "await_final P conn last_text =
     (case wyoming_event_read_iobuf P conn of
        (rc, resp, conn) \<Rightarrow>
          if rc \<noteq> WYOMING_OK then (rc, None, conn)
          else if ev_type resp = Some WYOMING_EVENT_TRANSCRIPT
          then (case ev_data resp of
                  None \<Rightarrow> await_final P conn last_text
                | Some d \<Rightarrow>
                    let last_text = (case string_of (cJSON_GetObjectItemCaseSensitive (Some d) ''text'') of
                                       None \<Rightarrow> last_text
                                     | Some s \<Rightarrow> strdup P s)
                    in if cJSON_IsTrue (cJSON_GetObjectItemCaseSensitive (Some d) ''is_partial'')
                       then await_final P conn last_text
                       else (WYOMING_OK, last_text, conn))
          else if ev_type resp = Some WYOMING_EVENT_ERROR
          then (WYOMING_ERR_PROTO, None, conn)
          else await_final P conn last_text)"
  by pat_completeness auto
termination
  by (relation "measure (\<lambda>(P, conn, t). io_size conn)")
     (simp_all, (erule (1) read_event_decreases)+)

declare await_final.simps [simp del]

definition wyoming_transcribe_stop :: "platform \<Rightarrow> conn \<Rightarrow> wyoming_error \<times> string option \<times> conn" where
  "wyoming_transcribe_stop P conn =
     (case conn_write P conn (bare_event P WYOMING_EVENT_AUDIO_STOP) of
        (rc, conn) \<Rightarrow>
          if rc \<noteq> WYOMING_OK then (rc, None, conn)
          else (case conn_write P conn (bare_event P WYOMING_EVENT_TRANSCRIBE_STOP) of
                  (rc, conn) \<Rightarrow>
                    if rc \<noteq> WYOMING_OK then (rc, None, conn)
                    else await_final P conn None))"

end
