(* ===== verification/Wy_Session.thy ===== *)
theory Wy_Session
  imports Wy_Info
begin

text \<open>
  One client connection of the server: \<^verbatim>\<open>handle_client\<close> of \<^verbatim>\<open>src/server.c\<close>, with
  its five branches. A branch is a function of the session; the application's callbacks run
  in their own world \<open>'u\<close>, which is part of it.

  The flag \<^verbatim>\<open>srv->running\<close> can be cleared at any moment by \<^verbatim>\<open>wyoming_server_stop\<close>
  in a signal handler or another thread. The session says when: \<open>s_stop\<close> is the number of
  times the code will still see the flag set, \<^verbatim>\<open>None\<close> if it is not cleared while the
  connection lasts. \<open>s_live\<close> counts what the function owns besides its event structures
  (language strings, sample buffers, texts, stream contexts); each \<^verbatim>\<open>free\<close> or destroy of
  a non-NULL one takes it down again.
\<close>

subsection \<open>The session\<close>

record 'u session =
  s_io :: iobuf
  s_world :: 'u
  s_stop :: "nat option"
  s_rcvtimeo :: nat
  s_live :: int

fun see_running :: "nat option \<Rightarrow> bool \<times> nat option" where
  "see_running None = (True, None)"
| "see_running (Some 0) = (False, Some 0)"
| "see_running (Some (Suc n)) = (True, Some n)"

definition check_running :: "'u session \<Rightarrow> bool \<times> 'u session" where
  "check_running s = (case see_running (s_stop s) of (r, n) \<Rightarrow> (r, s\<lparr>s_stop := n\<rparr>))"

definition acquire :: "'a option \<Rightarrow> 'u session \<Rightarrow> 'u session" where
  "acquire x s = s\<lparr>s_live := s_live s + (case x of None \<Rightarrow> 0 | Some _ \<Rightarrow> 1)\<rparr>"

definition release :: "'a option \<Rightarrow> 'u session \<Rightarrow> 'u session" where
  "release x s = s\<lparr>s_live := s_live s - (case x of None \<Rightarrow> 0 | Some _ \<Rightarrow> 1)\<rparr>"

definition set_rcvtimeo :: "nat \<Rightarrow> 'u session \<Rightarrow> 'u session" where
  "set_rcvtimeo n s = s\<lparr>s_rcvtimeo := n\<rparr>"

text \<open>Sending; the result of \<^verbatim>\<open>wyoming_event_write_fd\<close> is ignored throughout.\<close>

definition send :: "platform \<Rightarrow> event \<Rightarrow> 'u session \<Rightarrow> 'u session" where
  "send P event s =
     s\<lparr>s_io := (s_io s)\<lparr>io_fd := snd (wyoming_event_write_fd P (io_fd (s_io s)) event)\<rparr>\<rparr>"

definition receive :: "platform \<Rightarrow> 'u session \<Rightarrow> wyoming_error \<times> event \<times> 'u session" where
  "receive P s =
     (case wyoming_event_read_iobuf P (s_io s) of (rc, event, io) \<Rightarrow> (rc, event, s\<lparr>s_io := io\<rparr>))"

text \<open>A string member of an event's data.\<close>

definition data_string :: "cJSON option \<Rightarrow> string \<Rightarrow> string option" where
  "data_string data name = string_of (cJSON_GetObjectItemCaseSensitive data name)"

text \<open>The messages of the server, as it builds them.\<close>

definition transcript_event :: "platform \<Rightarrow> string \<Rightarrow> bool \<Rightarrow> event" where
  "transcript_event P text partial =
     \<lparr>ev_type = strdup P WYOMING_EVENT_TRANSCRIPT,
      ev_data = (let data = cJSON_AddStringToObject P (cJSON_CreateObject P) ''text'' text
                 in if partial then cJSON_AddBoolToObject P data ''is_partial'' True else data),
      ev_payload = None\<rparr>"

definition info_event :: "platform \<Rightarrow> ('u, 'c) server \<Rightarrow> event" where
  "info_event P srv =
     \<lparr>ev_type = strdup P WYOMING_EVENT_INFO, ev_data = build_info_data P srv, ev_payload = None\<rparr>"

subsection \<open>Synthesize\<close>

text \<open>The chunk loop: 4096 samples at a time, the payload borrowed from the sample buffer.\<close>

function send_audio :: "platform \<Rightarrow> audio_format \<Rightarrow> sample list \<Rightarrow> 'u session \<Rightarrow> 'u session" where
  "send_audio P fmt zs s =
     (if zs = [] then s
      else send_audio P fmt (drop AUDIO_CHUNK_SAMPLES zs)
             (send P (audio_chunk_event P fmt (samples_bytes (take AUDIO_CHUNK_SAMPLES zs))) s))"
  by pat_completeness auto
termination
  by (relation "measure (\<lambda>(P, fmt, zs, s). length zs)") auto

declare send_audio.simps [simp del]

definition handle_synthesize ::
  "platform \<Rightarrow> ('u, 'c) server \<Rightarrow> event \<Rightarrow> 'u session \<Rightarrow> 'u session" where
  "handle_synthesize P srv event s =
     (let text = data_string (ev_data event) ''text'';
          v = cJSON_GetObjectItemCaseSensitive (ev_data event) ''voice'';
          voice = (if is_object v then data_string v ''name'' else None);
          speaker = (if is_object v then data_string v ''speaker'' else None)
      in case (text, tts_fn srv) of
           (Some t, Some fn) \<Rightarrow>
             (case fn t voice speaker (s_world s) of
                ((rc, audio, fmt), w) \<Rightarrow>
                  let s = acquire audio (s\<lparr>s_world := w\<rparr>)
                  in (case audio of
                        Some zs \<Rightarrow>
                          if rc \<noteq> WYOMING_OK then release audio s
                          else release audio
                                 (send P (bare_event P WYOMING_EVENT_AUDIO_STOP)
                                   (send_audio P fmt zs
                                     (send P (audio_start_event P fmt True) s)))
                      | None \<Rightarrow> s))
         | _ \<Rightarrow> s)"

subsection \<open>Transcribe\<close>

text \<open>Reading the \<^verbatim>\<open>audio-start\<close> that must follow; \<open>None\<close> for the \<^verbatim>\<open>break\<close>.\<close>

definition default_format :: audio_format where
  "default_format = \<lparr>rate = 16000, width = 2, channels = 1\<rparr>"

definition receive_start :: "platform \<Rightarrow> 'u session \<Rightarrow> audio_format option \<times> 'u session" where
  "receive_start P s =
     (case receive P s of
        (rc, astart, s) \<Rightarrow>
          if rc \<noteq> WYOMING_OK \<or> ev_type astart \<noteq> Some WYOMING_EVENT_AUDIO_START then (None, s)
          else (Some (read_format P (ev_data astart) default_format), s))"

text \<open>Collecting chunks until \<^verbatim>\<open>audio-stop\<close>: whether it came, and the buffer.\<close>

lemma receive_decreases:
  "receive P s = (WYOMING_OK, e, s') \<Longrightarrow> io_size (s_io s') < io_size (s_io s)"
  by (auto simp: receive_def split: prod.splits dest: read_event_uses(2))

lemma check_running_io [simp]: "s_io (snd (check_running s)) = s_io s"
  by (simp add: check_running_def split: prod.split)

lemma loop_decreases:
  assumes "(r, s1) = check_running s" and "(WYOMING_OK, y) = receive P s1" and "(e, s2) = y"
  shows "io_size (s_io s2) < io_size (s_io s)"
proof -
  have "s_io s1 = s_io s" using check_running_io [of s] assms(1) by (metis snd_conv)
  moreover have "io_size (s_io s2) < io_size (s_io s1)"
    using assms(2,3) receive_decreases [of P s1 e s2] by simp
  ultimately show ?thesis by simp
qed

function receive_audio ::
  "platform \<Rightarrow> pcm_buffer \<Rightarrow> 'u session \<Rightarrow> bool \<times> pcm_buffer \<times> 'u session" where
  "receive_audio P b s =
     (case check_running s of
        (running, s) \<Rightarrow>
          if \<not> running then (False, b, s)
          else (case receive P s of
                  (rc, aevt, s) \<Rightarrow>
                    if rc \<noteq> WYOMING_OK then (False, b, s)
                    else if ev_type aevt = Some WYOMING_EVENT_AUDIO_CHUNK
                    then (if payload_len aevt = 0 then receive_audio P b s
                          else (case pcm_append P 16000 b (payload_text aevt) of
                                  None \<Rightarrow> (False, pcm_empty, s)
                                | Some b' \<Rightarrow> receive_audio P b' s))
                    else if ev_type aevt = Some WYOMING_EVENT_AUDIO_STOP then (True, b, s)
                    else receive_audio P b s))"
  by pat_completeness auto
termination
  by (relation "measure (\<lambda>(P, b, s). io_size (s_io s))")
     (simp_all, (erule (2) loop_decreases)+)

declare receive_audio.simps [simp del]

datatype 'a outcome = Continue 'a | Break 'a

text \<open>What happens with the audio: the engine is asked and its text sent, the empty text when
  it has none.\<close>

definition answer_transcribe ::
  "platform \<Rightarrow> 'u asr_fn \<Rightarrow> audio_format \<Rightarrow> string option \<Rightarrow> bool \<Rightarrow> pcm_buffer \<Rightarrow> 'u session \<Rightarrow>
     'u session"
where
  "answer_transcribe P fn fmt language got_stop b s =
     (let s = acquire (pcm b) s
      in if pcm b = None \<or> pcm_samples b = [] \<or> \<not> got_stop
         then release language (release (pcm b) s)
         else (case fn (pcm_samples b) fmt language (s_world s) of
                 ((rc, text), w) \<Rightarrow>
                   let s = release (pcm b) (acquire text (s\<lparr>s_world := w\<rparr>));
                       reply = (case text of
                                  Some t \<Rightarrow> if rc = WYOMING_OK then t else []
                                | None \<Rightarrow> []);
                       s = send P (transcript_event P reply False) s
                   in release language (release text s)))"

definition request_language :: "platform \<Rightarrow> event \<Rightarrow> string option" where
  "request_language P event =
     (case data_string (ev_data event) ''language'' of None \<Rightarrow> None | Some l \<Rightarrow> strdup P l)"

definition handle_transcribe ::
  "platform \<Rightarrow> ('u, 'c) server \<Rightarrow> event \<Rightarrow> 'u session \<Rightarrow> 'u session outcome" where
  "handle_transcribe P srv event s =
     (let language = request_language P event;
          s = acquire language s
      in case asr_fn srv of
           None \<Rightarrow> Continue (release language s)
         | Some fn \<Rightarrow>
             (case receive_start P s of
                (None, s) \<Rightarrow> Break s
              | (Some fmt, s) \<Rightarrow>
                  (case receive_audio P pcm_empty s of
                     (got_stop, b, s) \<Rightarrow>
                       Continue (answer_transcribe P fn fmt language got_stop b s))))"

subsection \<open>Streaming transcription\<close>

text \<open>Writing leaves what can be read alone.\<close>

lemma write_fd_rx: "rx (snd (wyoming_event_write_fd P fd e)) = rx fd"
proof -
  have "rx (snd (write_segments fd ps)) = rx fd" for ps
    using write_segments_spec [of fd ps] by (cases "write_segments fd ps") auto
  then show ?thesis
    by (simp add: wyoming_event_write_fd_def Let_def split: option.split del: write_segments.simps)
qed

lemma send_io [simp]:
  "io_size (s_io (send P e s)) = io_size (s_io s)" "s_stop (send P e s) = s_stop s"
  "s_world (send P e s) = s_world s" "s_live (send P e s) = s_live s"
  "s_rcvtimeo (send P e s) = s_rcvtimeo s" "pending (s_io (send P e s)) = pending (s_io s)"
  "stream_end (s_io (send P e s)) = stream_end (s_io s)"
  by (simp_all add: send_def io_size_def write_fd_rx pending_def stream_end_def)

lemma ledger_io [simp]:
  "s_io (acquire x s) = s_io s" "s_io (release x s) = s_io s" "s_io (set_rcvtimeo n s) = s_io s"
  by (simp_all add: acquire_def release_def set_rcvtimeo_def)

text \<open>One chunk: the callback, and the partial transcript when it has one.\<close>

definition process_chunk ::
  "platform \<Rightarrow> ('u, 'c) stream_process_fn \<Rightarrow> 'c \<Rightarrow> audio_format \<Rightarrow> byte list \<Rightarrow> 'u session \<Rightarrow>
     'u session"
where
  "process_chunk P process ctx fmt payload s =
     (case process ctx (Some (samples_of payload)) fmt False (s_world s) of
        ((rc, partial), w) \<Rightarrow>
          let s = acquire partial (s\<lparr>s_world := w\<rparr>);
              s = (case partial of
                     Some t \<Rightarrow>
                       if rc = WYOMING_OK \<and> t \<noteq> [] then send P (transcript_event P t True) s else s
                   | None \<Rightarrow> s)
          in release partial s)"

lemma process_chunk_size [simp]:
  "io_size (s_io (process_chunk P process ctx fmt payload s)) = io_size (s_io s)"
  by (simp add: process_chunk_def Let_def split: prod.split option.split)

text \<open>The loop over the chunks of a stream: whether a stop came. The callbacks are given.\<close>

function stream_audio ::
  "platform \<Rightarrow> ('u, 'c) stream_process_fn \<Rightarrow> 'c \<Rightarrow> audio_format \<Rightarrow> 'u session \<Rightarrow> bool \<times> 'u session"
where
  "stream_audio P process ctx fmt s =
     (case check_running s of
        (running, s) \<Rightarrow>
          if \<not> running then (False, s)
          else (case receive P s of
                  (rc, aevt, s) \<Rightarrow>
                    if rc \<noteq> WYOMING_OK then (False, s)
                    else if ev_type aevt = Some WYOMING_EVENT_AUDIO_CHUNK
                    then (if payload_len aevt = 0 then stream_audio P process ctx fmt s
                          else stream_audio P process ctx fmt
                                 (process_chunk P process ctx fmt (payload_text aevt) s))
                    else if ev_type aevt = Some WYOMING_EVENT_AUDIO_STOP \<or>
                            ev_type aevt = Some WYOMING_EVENT_TRANSCRIBE_STOP
                    then (True, s)
                    else stream_audio P process ctx fmt s))"
  by pat_completeness auto
termination
  by (relation "measure (\<lambda>(P, process, ctx, fmt, s). io_size (s_io s))")
     (simp_all, (erule (2) loop_decreases)+)

declare stream_audio.simps [simp del]

text \<open>After a stop one more event is read and dropped, with a receive timeout of one second.\<close>

definition drain_event :: "platform \<Rightarrow> 'u session \<Rightarrow> 'u session" where
  "drain_event P s =
     (case receive P (set_rcvtimeo 1 s) of (_, _, s) \<Rightarrow> set_rcvtimeo 30 s)"

text \<open>The life of a stream context: chunks, the final call, its transcript, the drain, the
  end.\<close>

definition run_stream ::
  "platform \<Rightarrow> ('u, 'c) server \<Rightarrow> ('u, 'c) stream_process_fn \<Rightarrow> 'c \<Rightarrow> audio_format \<Rightarrow> 'u session \<Rightarrow>
     'u session"
where
  "run_stream P srv process ctx fmt s =
     (case stream_audio P process ctx fmt s of
        (got_stop, s) \<Rightarrow>
          (case process ctx None fmt True (s_world s) of
             ((_, final_text), w) \<Rightarrow>
               let s = acquire final_text (s\<lparr>s_world := w\<rparr>);
                   reply = (case final_text of None \<Rightarrow> [] | Some t \<Rightarrow> t);
                   s = release final_text (send P (transcript_event P reply False) s);
                   s = (if got_stop then drain_event P s else s)
               in (case asr_stream_destroy srv of
                     None \<Rightarrow> s
                   | Some destroy \<Rightarrow> release (Some ctx) (s\<lparr>s_world := destroy ctx (s_world s)\<rparr>))))"

definition handle_transcribe_start ::
  "platform \<Rightarrow> ('u, 'c) server \<Rightarrow> event \<Rightarrow> 'u session \<Rightarrow> 'u session outcome" where
  "handle_transcribe_start P srv event s =
     (let language = request_language P event;
          s = acquire language s
      in case (asr_stream_create srv, asr_stream_process srv) of
           (Some create, Some process) \<Rightarrow>
             (case receive_start P s of
                (None, s) \<Rightarrow> Break (release language s)
              | (Some fmt, s) \<Rightarrow>
                  (case create fmt language (s_world s) of
                     (ctx, w) \<Rightarrow>
                       let s = release language (acquire ctx (s\<lparr>s_world := w\<rparr>))
                       in (case ctx of
                             None \<Rightarrow> Continue s
                           | Some c \<Rightarrow> Continue (run_stream P srv process c fmt s))))
         | _ \<Rightarrow> Continue (release language s))"

subsection \<open>The connection\<close>

definition dispatch :: "platform \<Rightarrow> ('u, 'c) server \<Rightarrow> event \<Rightarrow> 'u session \<Rightarrow> 'u session outcome" where
  "dispatch P srv event s =
     (if ev_type event = Some WYOMING_EVENT_DESCRIBE
      then Continue (send P (info_event P srv) s)
      else if ev_type event = Some WYOMING_EVENT_SYNTHESIZE
      then Continue (handle_synthesize P srv event s)
      else if ev_type event = Some WYOMING_EVENT_TRANSCRIBE
      then handle_transcribe P srv event s
      else if ev_type event = Some WYOMING_EVENT_TRANSCRIBE_START
      then handle_transcribe_start P srv event s
      else Continue s)"

fun session_of :: "'a outcome \<Rightarrow> 'a" where
  "session_of (Continue s) = s"
| "session_of (Break s) = s"

lemma receive_uses: "receive P s = (rc, e, s') \<Longrightarrow> io_size (s_io s') \<le> io_size (s_io s)"
  by (auto simp: receive_def split: prod.splits dest: read_event_uses(1))

lemma send_audio_size [simp]: "io_size (s_io (send_audio P fmt zs s)) = io_size (s_io s)"
  by (induction P fmt zs s rule: send_audio.induct) (subst send_audio.simps, simp)

lemma receive_start_uses: "receive_start P s = (f, s') \<Longrightarrow> io_size (s_io s') \<le> io_size (s_io s)"
  by (auto simp: receive_start_def split: prod.splits if_splits dest: receive_uses)

lemma receive_audio_uses:
  "receive_audio P b s = (g, b', s') \<Longrightarrow> io_size (s_io s') \<le> io_size (s_io s)"
proof (induction P b s rule: receive_audio.induct)
  case (1 P b s)
  obtain r s1 where c: "check_running s = (r, s1)" by force
  have s1: "s_io s1 = s_io s" using check_running_io [of s] c by simp
  obtain rc e s2 where rcv: "receive P s1 = (rc, e, s2)" by (cases "receive P s1")
  note u = receive_uses [OF rcv]
  note IH = "1.IH" [OF c [symmetric] _ rcv [symmetric] refl]
  show ?case
    using "1.prems" s1 u IH c rcv
    by (subst (asm) receive_audio.simps) (auto split: if_splits option.splits intro: order_trans)
qed

lemma stream_audio_uses:
  "stream_audio P process ctx fmt s = (g, s') \<Longrightarrow> io_size (s_io s') \<le> io_size (s_io s)"
proof (induction P process ctx fmt s rule: stream_audio.induct)
  case (1 P process ctx fmt s)
  obtain r s1 where c: "check_running s = (r, s1)" by force
  have s1: "s_io s1 = s_io s" using check_running_io [of s] c by simp
  obtain rc e s2 where rcv: "receive P s1 = (rc, e, s2)" by (cases "receive P s1")
  note u = receive_uses [OF rcv]
  note IH = "1.IH" [OF c [symmetric] _ rcv [symmetric] refl]
  show ?case
    using "1.prems" s1 u IH c rcv
    by (subst (asm) stream_audio.simps) (auto split: if_splits intro: order_trans)
qed

lemma drain_event_uses: "io_size (s_io (drain_event P s)) \<le> io_size (s_io s)"
  using receive_uses [of P "set_rcvtimeo 1 s"]
  by (cases "receive P (set_rcvtimeo 1 s)") (simp add: drain_event_def)

lemma handle_synthesize_size [simp]:
  "io_size (s_io (handle_synthesize P srv e s)) = io_size (s_io s)"
  by (simp add: handle_synthesize_def Let_def split: option.split prod.split)

lemma answer_transcribe_size [simp]:
  "io_size (s_io (answer_transcribe P fn fmt l g b s)) = io_size (s_io s)"
  by (simp add: answer_transcribe_def Let_def split: prod.split)

lemma run_stream_uses: "io_size (s_io (run_stream P srv process c fmt s)) \<le> io_size (s_io s)"
proof -
  obtain g s1 where a: "stream_audio P process c fmt s = (g, s1)" by force
  obtain rc ft w where f: "process c None fmt True (s_world s1) = ((rc, ft), w)"
    by (metis surj_pair)
  show ?thesis
    using stream_audio_uses [OF a]
    by (auto simp: run_stream_def a f Let_def split: option.split intro: order_trans [OF drain_event_uses])
qed

lemma handle_transcribe_uses:
  "io_size (s_io (session_of (handle_transcribe P srv e s))) \<le> io_size (s_io s)"
  by (auto simp: handle_transcribe_def Let_def split: option.split prod.split
      dest!: receive_start_uses receive_audio_uses)

lemma handle_transcribe_start_uses:
  "io_size (s_io (session_of (handle_transcribe_start P srv e s))) \<le> io_size (s_io s)"
  by (auto simp: handle_transcribe_start_def Let_def split: option.split prod.split
      intro: order_trans [OF run_stream_uses] dest!: receive_start_uses)

lemma dispatch_uses: "io_size (s_io (session_of (dispatch P srv e s))) \<le> io_size (s_io s)"
  by (simp add: dispatch_def handle_transcribe_uses handle_transcribe_start_uses)

function handle_client :: "platform \<Rightarrow> ('u, 'c) server \<Rightarrow> 'u session \<Rightarrow> 'u session" where
  "handle_client P srv s =
     (case check_running s of
        (running, s) \<Rightarrow>
          if \<not> running then s
          else (case receive P s of
                  (rc, event, s) \<Rightarrow>
                    if rc \<noteq> WYOMING_OK then s
                    else (case dispatch P srv event s of
                            Continue s \<Rightarrow> handle_client P srv s
                          | Break s \<Rightarrow> s)))"
  by pat_completeness auto

lemma dispatch_decreases:
  assumes "(r, s1) = check_running s" and "(WYOMING_OK, y) = receive P s1" and "(e, s2) = y"
    and "dispatch P srv e s2 = Continue s3"
  shows "io_size (s_io s3) < io_size (s_io s)"
  using loop_decreases [OF assms(1-3)] dispatch_uses [of P srv e s2] assms(4) by simp

termination handle_client
  by (relation "measure (\<lambda>(P, srv, s). io_size (s_io s))")
     (simp_all, (erule (3) dispatch_decreases)+)

declare handle_client.simps [simp del]

text \<open>A connection starts with an empty buffer and a receive timeout of 30 seconds.\<close>

definition start_session :: "sock \<Rightarrow> 'u \<Rightarrow> nat option \<Rightarrow> 'u session" where
  "start_session fd w stop =
     \<lparr>s_io = iobuf_init fd, s_world = w, s_stop = stop, s_rcvtimeo = 30, s_live = 0\<rparr>"

end
