(* ===== verification/Wy_Dialog.thy ===== *)
theory Wy_Dialog
  imports Wy_Client Wy_Session
begin

text \<open>
  Client and server together. For each request: the messages of the conversation as values,
  what the server puts on the wire, and what the client makes of it.
\<close>

subsection \<open>Sending messages\<close>

definition frames :: "platform \<Rightarrow> event list \<Rightarrow> byte list" where
  "frames P es = concat (map (frame P) es)"

lemma frames_simps [simp]:
  "frames P [] = []" "frames P (e # es) = frame P e @ frames P es"
  "frames P (es @ es') = frames P es @ frames P es'"
  by (simp_all add: frames_def)

text \<open>A message that platform \<open>P\<close> can send and receive.\<close>

definition sendable :: "platform \<Rightarrow> event \<Rightarrow> bool" where
  "sendable P e \<longleftrightarrow> event_wf e \<and> event_room P e"

text \<open>\<open>wrote s bs s'\<close>: the session only sent \<open>bs\<close>.\<close>

definition session_tx :: "'u session \<Rightarrow> byte list" where
  "session_tx s = tx (io_fd (s_io s))"

definition session_writable :: "'u session \<Rightarrow> bool" where
  "session_writable s \<longleftrightarrow> writable (io_fd (s_io s))"

lemma send_ok:
  assumes "sendable P e" and "session_writable s"
  shows "session_tx (send P e s) = session_tx s @ frame P e" "session_writable (send P e s)"
  using write_fd_ok [of e P "io_fd (s_io s)"] assms
  by (auto simp: sendable_def session_writable_def send_def session_tx_def)

lemma receive_ok:
  assumes "sendable P e" and "pending (s_io s) = frame P e @ rest"
  obtains s' where "receive P s = (WYOMING_OK, e, s')" and "pending (s_io s') = rest"
    and "session_tx s' = session_tx s" and "session_writable s' = session_writable s"
    and "stream_end (s_io s') = stream_end (s_io s)" and "s_world s' = s_world s"
    and "s_stop s' = s_stop s" and "s_live s' = s_live s" and "s_rcvtimeo s' = s_rcvtimeo s"
proof -
  obtain io' where io': "wyoming_event_read_iobuf P (s_io s) = (WYOMING_OK, e, io')"
    "reads (s_io s) (frame P e) io'" "pending io' = rest"
    using read_frame [of e P "s_io s" rest] assms by (auto simp: sendable_def)
  show ?thesis
    by (rule that [of "s\<lparr>s_io := io'\<rparr>"])
      (use io' in \<open>simp_all add: receive_def reads_def session_tx_def session_writable_def writable_def\<close>)
qed

lemma session_ledger [simp]:
  "session_tx (acquire x s) = session_tx s" "session_tx (release x s) = session_tx s"
  "session_tx (set_rcvtimeo n s) = session_tx s" "session_tx (s\<lparr>s_world := w\<rparr>) = session_tx s"
  "session_writable (acquire x s) = session_writable s"
  "session_writable (release x s) = session_writable s"
  "session_writable (set_rcvtimeo n s) = session_writable s"
  "session_writable (s\<lparr>s_world := w\<rparr>) = session_writable s"
  by (simp_all add: session_tx_def session_writable_def)

lemma ledger_fields [simp]:
  "s_world (acquire x s) = s_world s" "s_world (release x s) = s_world s"
  "s_stop (acquire x s) = s_stop s" "s_stop (release x s) = s_stop s"
  "s_rcvtimeo (acquire x s) = s_rcvtimeo s" "s_rcvtimeo (release x s) = s_rcvtimeo s"
  "s_live (release x (acquire x s)) = s_live s"
  by (simp_all add: acquire_def release_def)

subsection \<open>Synthesis: the server\<close>

definition synthesize_msg :: "string \<Rightarrow> string option \<Rightarrow> event" where
  "synthesize_msg text voice =
     \<lparr>ev_type = Some WYOMING_EVENT_SYNTHESIZE,
      ev_data = Some (cJSON_Object ([(''text'', cJSON_String text)] @
        (case voice of None \<Rightarrow> []
         | Some v \<Rightarrow> [(''voice'', cJSON_Object [(''name'', cJSON_String v)])]))),
      ev_payload = None\<rparr>"

definition audio_reply :: "audio_format \<Rightarrow> sample list \<Rightarrow> event list" where
  "audio_reply fmt zs =
     [start_msg fmt True] @ map (chunk_msg fmt) (server_pieces zs) @ [bare_msg WYOMING_EVENT_AUDIO_STOP]"

lemma server_pieces_bounds: "p \<in> set (server_pieces zs) \<Longrightarrow> p \<noteq> [] \<and> length p \<le> 8192"
proof -
  assume "p \<in> set (server_pieces zs)"
  then obtain q where q: "q \<in> set (pieces AUDIO_CHUNK_SAMPLES zs)" "p = samples_bytes q"
    by (auto simp: server_pieces_def)
  from pieces_bounds [OF q(1)] have "q \<noteq> []" "length q \<le> 4096" by simp_all
  moreover from this(1) have "length (samples_bytes q) \<noteq> 0" by simp
  then have "samples_bytes q \<noteq> []" by (metis list.size(3))
  ultimately show ?thesis using q(2) by simp
qed

lemma platform_mem: "platform_ok P n \<Longrightarrow> mem_ok P 256"
  using platform_ok_malloc [of P n] by (auto simp: mem_ok_def)

lemma audio_sendable:
  assumes "format_ok fmt" and "platform_ok P 9000"
  shows "sendable P (start_msg fmt t)" "p \<noteq> [] \<Longrightarrow> length p \<le> 8192 \<Longrightarrow> sendable P (chunk_msg fmt p)"
    "c_string type \<Longrightarrow> length type < 256 \<Longrightarrow> sendable P (bare_msg type)"
proof -
  note wf = audio_msgs_wf [OF assms(1)] and room = audio_msgs_room [OF assms(1), of P]
  show "sendable P (start_msg fmt t)"
    using wf(1) room(1) platform_ok_mono [OF assms(2)] by (simp add: sendable_def)
  show "sendable P (chunk_msg fmt p)" if "p \<noteq> []" "length p \<le> 8192"
    using wf(2) [OF that(1)] room(2) platform_ok_mono [OF assms(2), of "200 + length p"] that
    by (simp add: sendable_def)
  show "sendable P (bare_msg type)" if "c_string type" "length type < 256"
    using wf(3) [OF that(1)] room(3) platform_ok_mono [OF assms(2), of "6 * length type"] that
    by (simp add: sendable_def)
qed

text \<open>The chunk loop puts the pieces on the wire.\<close>

lemma server_pieces_rec:
  "server_pieces zs =
     (if zs = [] then []
      else samples_bytes (take AUDIO_CHUNK_SAMPLES zs) # server_pieces (drop AUDIO_CHUNK_SAMPLES zs))"
  by (subst server_pieces_def, subst pieces.simps) (simp add: server_pieces_def)

lemma send_audio_ok:
  assumes "format_ok fmt" and "platform_ok P 9000"
  shows "session_writable s \<Longrightarrow>
    session_tx (send_audio P fmt zs s) = session_tx s @ frames P (map (chunk_msg fmt) (server_pieces zs)) \<and>
    session_writable (send_audio P fmt zs s)"
proof (induction "length zs" arbitrary: zs s rule: less_induct)
  case less
  show ?case
  proof (cases "zs = []")
    case True
    with less.prems show ?thesis by (simp add: send_audio.simps [of P fmt "[]" s] server_pieces_rec [of "[]"])
  next
    case False
    let ?p = "samples_bytes (take AUDIO_CHUNK_SAMPLES zs)"
    have rec: "server_pieces zs = ?p # server_pieces (drop AUDIO_CHUNK_SAMPLES zs)"
      using server_pieces_rec [of zs] False by simp
    have "sendable P (chunk_msg fmt ?p)"
      using server_pieces_bounds [of ?p zs] rec audio_sendable(2) [OF assms] by simp
    note sent = send_ok [OF this less.prems]
    have step: "send_audio P fmt zs s = send_audio P fmt (drop AUDIO_CHUNK_SAMPLES zs) (send P (chunk_msg fmt ?p) s)"
      using False audio_events_ok(2) [OF platform_mem [OF assms(2)]]
      by (simp add: send_audio.simps [of P fmt zs s])
    have "length (drop AUDIO_CHUNK_SAMPLES zs) < length zs" using False by (cases zs) simp_all
    from less.hyps [OF this sent(2)] sent(1) show ?thesis by (simp add: step rec)
  qed
qed

lemma send_audio_keeps [simp]:
  "pending (s_io (send_audio P fmt zs s)) = pending (s_io s)"
  "stream_end (s_io (send_audio P fmt zs s)) = stream_end (s_io s)"
  "s_stop (send_audio P fmt zs s) = s_stop s" "s_world (send_audio P fmt zs s) = s_world s"
  "s_live (send_audio P fmt zs s) = s_live s" "s_rcvtimeo (send_audio P fmt zs s) = s_rcvtimeo s"
  by (induction P fmt zs s rule: send_audio.induct; subst send_audio.simps; simp)+

lemma handle_synthesize_ok:
  assumes "tts_fn srv = Some fn" and "fn text voice None (s_world s) = ((WYOMING_OK, Some zs, fmt), w)"
    and "format_ok fmt" and "platform_ok P 9000" and "session_writable s"
  defines "s' \<equiv> handle_synthesize P srv (synthesize_msg text voice) s"
  shows "session_tx s' = session_tx s @ frames P (audio_reply fmt zs)" "session_writable s'"
    "s_world s' = w" "pending (s_io s') = pending (s_io s)" "stream_end (s_io s') = stream_end (s_io s)"
    "s_stop s' = s_stop s" "s_live s' = s_live s"
proof -
  note ev = audio_events_ok [OF platform_mem [OF assms(4)]]
  note msgs = audio_sendable [OF assms(3,4)]
  let ?s1 = "acquire (Some zs) (s\<lparr>s_world := w\<rparr>)"
  let ?s2 = "send P (start_msg fmt True) ?s1"
  let ?s3 = "send_audio P fmt zs ?s2"
  let ?s4 = "send P (bare_msg WYOMING_EVENT_AUDIO_STOP) ?s3"
  have data: "data_string (ev_data (synthesize_msg text voice)) ''text'' = Some text"
    by (simp add: synthesize_msg_def data_string_def cjson_read)
  have v: "(if is_object v then data_string v ''name'' else None) = voice"
    "(if is_object v then data_string v ''speaker'' else None) = None"
    if "v = cJSON_GetObjectItemCaseSensitive (ev_data (synthesize_msg text voice)) ''voice''" for v
    unfolding that
    by (cases voice; simp add: synthesize_msg_def data_string_def cjson_read)+
  have run: "s' = release (Some zs) ?s4"
    using assms(1,2) data v [OF refl] ev(1) [of fmt True] ev(3) [of WYOMING_EVENT_AUDIO_STOP]
    by (simp add: s'_def handle_synthesize_def Let_def)
  have w1: "session_writable ?s1" using assms(5) by simp
  note s2 = send_ok [OF msgs(1) [of True] w1]
  note s3 = send_audio_ok [OF assms(3,4) s2(2), of zs]
  have stop: "sendable P (bare_msg WYOMING_EVENT_AUDIO_STOP)" by (rule msgs(3)) simp_all
  note s4 = send_ok [OF stop s3 [THEN conjunct2]]
  show "session_tx s' = session_tx s @ frames P (audio_reply fmt zs)" "session_writable s'"
    using s2 s3 s4 by (simp_all add: run audio_reply_def)
  show "s_world s' = w" "pending (s_io s') = pending (s_io s)" "stream_end (s_io s') = stream_end (s_io s)"
    "s_stop s' = s_stop s" "s_live s' = s_live s"
    by (simp_all add: run acquire_def release_def)
qed

subsection \<open>Synthesis: the client\<close>

lemma conn_receive:
  assumes "sendable P e" and "pending conn = frame P e @ rest"
  obtains conn' where "wyoming_event_read_iobuf P conn = (WYOMING_OK, e, conn')"
    and "pending conn' = rest" and "tx (io_fd conn') = tx (io_fd conn)"
    and "writable (io_fd conn') = writable (io_fd conn)" and "stream_end conn' = stream_end conn"
  using read_frame [of e P conn rest] assms
  by (auto simp: sendable_def reads_def writable_def)

lemma conn_send:
  assumes "sendable P e" and "writable (io_fd conn)"
  obtains conn' where "conn_write P conn e = (WYOMING_OK, conn')"
    and "tx (io_fd conn') = tx (io_fd conn) @ frame P e" and "writable (io_fd conn')"
    and "pending conn' = pending conn" and "stream_end conn' = stream_end conn"
proof -
  obtain fd' where "wyoming_event_write_fd P (io_fd conn) e = (WYOMING_OK, fd')" "rx fd' = rx (io_fd conn)"
    "tx fd' = tx (io_fd conn) @ frame P e" "writable fd'"
    using write_fd_ok [of e P "io_fd conn"] assms by (auto simp: sendable_def)
  then show ?thesis
    by (intro that [of "conn\<lparr>io_fd := fd'\<rparr>"])
      (simp_all add: conn_write_def pending_def stream_end_def)
qed

text \<open>\<open>posted conn es conn'\<close>: the messages went out and nothing else changed.\<close>

definition posted :: "platform \<Rightarrow> conn \<Rightarrow> event list \<Rightarrow> conn \<Rightarrow> bool" where
  "posted P conn es conn' \<longleftrightarrow>
     tx (io_fd conn') = tx (io_fd conn) @ frames P es \<and> writable (io_fd conn') = writable (io_fd conn) \<and>
     pending conn' = pending conn"

lemma posted_trans [trans]:
  "posted P conn es conn1 \<Longrightarrow> posted P conn1 es' conn' \<Longrightarrow> posted P conn (es @ es') conn'"
  by (simp add: posted_def)

lemma conn_post:
  assumes "sendable P e" and "writable (io_fd conn)"
  obtains conn' where "conn_write P conn e = (WYOMING_OK, conn')" and "posted P conn [e] conn'"
    and "writable (io_fd conn')"
  using conn_send [OF assms] assms(2) by (auto simp: posted_def)

lemma chunk_msg_fields [simp]:
  "ev_type (chunk_msg fmt p) = Some WYOMING_EVENT_AUDIO_CHUNK"
  "payload_len (chunk_msg fmt p) = length p" "payload_text (chunk_msg fmt p) = p"
  "ev_type (bare_msg type) = Some type" "ev_type (start_msg fmt t) = Some WYOMING_EVENT_AUDIO_START"
  "ev_data (chunk_msg fmt p) = Some (cJSON_Object (format_members fmt))"
  by (simp_all add: chunk_msg_def bare_msg_def start_msg_def payload_len_def payload_text_def)

lemma collect_chunks:
  assumes "\<And>p. p \<in> set ps \<Longrightarrow> p \<noteq> [] \<and> sendable P (chunk_msg fmt p)"
    and "sendable P (bare_msg WYOMING_EVENT_AUDIO_STOP)"
  shows "pending conn = frames P (map (chunk_msg fmt) ps @ [bare_msg WYOMING_EVENT_AUDIO_STOP]) @ rest \<Longrightarrow>
     pcm_collect P 4096 b ps = Some b' \<Longrightarrow>
     \<exists>conn'. collect_audio P conn b fmt0 True = (WYOMING_OK, pcm b', fmt0, conn') \<and>
       pending conn' = rest \<and> tx (io_fd conn') = tx (io_fd conn)"
  using assms(1)
proof (induction ps arbitrary: conn b)
  case Nil
  then have "pending conn = frame P (bare_msg WYOMING_EVENT_AUDIO_STOP) @ rest" by simp
  then obtain conn' where "wyoming_event_read_iobuf P conn = (WYOMING_OK, bare_msg WYOMING_EVENT_AUDIO_STOP, conn')"
    "pending conn' = rest" "tx (io_fd conn') = tx (io_fd conn)"
    by (rule conn_receive [OF assms(2)])
  with Nil show ?case by (simp add: collect_audio.simps [of P conn b'])
next
  case (Cons p ps)
  then have p: "p \<noteq> []" "sendable P (chunk_msg fmt p)" by simp_all
  have "pending conn = frame P (chunk_msg fmt p) @
      frames P (map (chunk_msg fmt) ps @ [bare_msg WYOMING_EVENT_AUDIO_STOP]) @ rest"
    using Cons.prems(1) by simp
  then obtain conn1 where c: "wyoming_event_read_iobuf P conn = (WYOMING_OK, chunk_msg fmt p, conn1)"
    "pending conn1 = frames P (map (chunk_msg fmt) ps @ [bare_msg WYOMING_EVENT_AUDIO_STOP]) @ rest"
    "tx (io_fd conn1) = tx (io_fd conn)"
    by (rule conn_receive [OF p(2)])
  obtain b1 where b1: "pcm_append P 4096 b p = Some b1" "pcm_collect P 4096 b1 ps = Some b'"
    using Cons.prems(2) by (auto split: option.splits)
  have "collect_audio P conn b fmt0 True = collect_audio P conn1 b1 fmt0 True"
    using c(1) p(1) b1(1) by (simp add: collect_audio.simps [of P conn b])
  with Cons.IH [OF c(2) b1(2)] Cons.prems(3) c(3) show ?case by simp
qed

lemma collect_reply:
  assumes "format_ok fmt" and "platform_ok P 9000" and "pcm_room P 4096 (length zs)"
    and "pending conn = frames P (audio_reply fmt zs) @ rest"
  shows "\<exists>conn' b. collect_audio P conn pcm_empty fmt0 g = (WYOMING_OK, pcm b, fmt, conn') \<and>
     pcm_samples b = zs \<and> pending conn' = rest \<and> tx (io_fd conn') = tx (io_fd conn)"
proof -
  note msgs = audio_sendable [OF assms(1,2)]
  have stop: "sendable P (bare_msg WYOMING_EVENT_AUDIO_STOP)" by (rule msgs(3)) simp_all
  have chunk: "p \<noteq> [] \<and> sendable P (chunk_msg fmt p)" if "p \<in> set (server_pieces zs)" for p
    using server_pieces_bounds [OF that] msgs(2) by simp
  obtain b where b: "pcm_collect P 4096 pcm_empty (server_pieces zs) = Some b" "pcm_samples b = zs"
    using to_client.collect_all [OF assms(3)] by blast
  have "pending conn = frame P (start_msg fmt True) @
      frames P (map (chunk_msg fmt) (server_pieces zs) @ [bare_msg WYOMING_EVENT_AUDIO_STOP]) @ rest"
    using assms(4) by (simp add: audio_reply_def)
  then obtain conn1 where c: "wyoming_event_read_iobuf P conn = (WYOMING_OK, start_msg fmt True, conn1)"
    "pending conn1 = frames P (map (chunk_msg fmt) (server_pieces zs) @ [bare_msg WYOMING_EVENT_AUDIO_STOP]) @ rest"
    "tx (io_fd conn1) = tx (io_fd conn)"
    by (rule conn_receive [OF msgs(1)])
  have f: "read_format P (ev_data (start_msg fmt True)) fmt0 = fmt"
    using assms(1) by (simp add: start_msg_def read_format_members)
  have "collect_audio P conn pcm_empty fmt0 g = collect_audio P conn1 pcm_empty fmt True"
    using c(1) f by (simp add: collect_audio.simps [of P conn pcm_empty])
  with collect_chunks [OF chunk stop c(2) b(1), of fmt] c(3) b(2) show ?thesis by auto
qed

subsection \<open>Synthesis from end to end\<close>

definition opt_length :: "string option \<Rightarrow> nat" where
  "opt_length s = (case s of None \<Rightarrow> 0 | Some t \<Rightarrow> length t)"

definition opt_c_string :: "string option \<Rightarrow> bool" where
  "opt_c_string s = (case s of None \<Rightarrow> True | Some t \<Rightarrow> c_string t)"

lemma synthesize_msg_sendable:
  assumes "c_string text" and "opt_c_string voice"
    and "platform_ok P (9000 + 6 * length text + 6 * opt_length voice)"
  shows "sendable P (synthesize_msg text voice)"
proof -
  have "event_wf (synthesize_msg text voice)"
    using assms(1,2) by (cases voice) (simp_all add: event_wf_def synthesize_msg_def opt_c_string_def)
  moreover have "length (data_text (synthesize_msg text voice)) \<le> 100 + 6 * length text + 6 * opt_length voice"
    using length_quote_le [of "text"] length_quote_le [of "the voice"]
    by (cases voice) (simp_all add: data_text_def synthesize_msg_def member_text_def format_keys opt_length_def)
  then have "event_room P (synthesize_msg text voice)"
    by (intro event_roomI [of _ WYOMING_EVENT_SYNTHESIZE] platform_ok_mono [OF assms(3)])
      (simp_all add: synthesize_msg_def payload_text_def)
  ultimately show ?thesis by (simp add: sendable_def)
qed

lemma wyoming_synthesize_sends:
  assumes "platform_ok P (9000 + 6 * length text + 6 * opt_length voice)"
  shows "wyoming_synthesize P conn (Some text) voice = conn_write P conn (synthesize_msg text voice)"
proof -
  have m: "k \<le> 9000 + 6 * length text + 6 * opt_length voice \<Longrightarrow> malloc_ok P k" for k
    by (rule platform_ok_malloc [OF assms]) simp
  have "malloc_ok P (length text + 1)" by (rule m) simp
  moreover have "malloc_ok P (length v + 1)" if "voice = Some v" for v
    by (rule m) (simp add: that opt_length_def)
  moreover have small: "k \<le> 256 \<Longrightarrow> malloc_ok P k" for k by (rule m) simp
  ultimately show ?thesis
    by (cases voice)
      (simp_all add: wyoming_synthesize_def synthesize_msg_def Let_def cjson_build strdup_def)
qed

text \<open>Only reading happened between two states of a session.\<close>

definition only_received :: "'u session \<Rightarrow> 'u session \<Rightarrow> bool" where
  "only_received s s' \<longleftrightarrow>
     session_tx s' = session_tx s \<and> session_writable s' = session_writable s \<and>
     stream_end (s_io s') = stream_end (s_io s) \<and> s_world s' = s_world s \<and> s_stop s' = s_stop s \<and>
     s_live s' = s_live s \<and> s_rcvtimeo s' = s_rcvtimeo s"

lemma only_received_trans [trans]: "only_received a b \<Longrightarrow> only_received b c \<Longrightarrow> only_received a c"
  by (simp add: only_received_def)

lemma receive_msg:
  assumes "sendable P e" and "pending (s_io s) = frame P e @ rest"
  obtains s' where "receive P s = (WYOMING_OK, e, s')" and "pending (s_io s') = rest"
    and "only_received s s'"
  by (rule receive_ok [OF assms]) (auto intro: that simp: only_received_def)

lemma check_running_None: "s_stop s = None \<Longrightarrow> check_running s = (True, s)"
  by (cases s) (simp add: check_running_def)

text \<open>A session whose client has nothing more to say ends, and nothing else happens.\<close>

lemma handle_client_idle:
  assumes "pending (s_io s) = []" and "s_stop s = None" and "line_room P 1"
  shows "session_tx (handle_client P srv s) = session_tx s"
    "s_world (handle_client P srv s) = s_world s" "s_live (handle_client P srv s) = s_live s"
proof -
  have run: "check_running s = (True, s)"
    using assms(2) by (cases s) (simp add: check_running_def)
  obtain io where io: "iobuf_read_line P (s_io s) = (Inl (stream_end (s_io s)), io)"
    "only_reads (s_io s) io"
    using iobuf_read_line_ended [of "s_io s" P] assms(1,3) by auto
  have "stream_end (s_io s) \<noteq> WYOMING_OK" using stream_end_cases [of "s_io s"] by auto
  then have "handle_client P srv s = s\<lparr>s_io := io\<rparr>"
    using io(1) run
    by (subst handle_client.simps) (simp add: receive_def wyoming_event_read_iobuf_def Let_def)
  then show "session_tx (handle_client P srv s) = session_tx s"
    "s_world (handle_client P srv s) = s_world s" "s_live (handle_client P srv s) = s_live s"
    using io(2) by (simp_all add: session_tx_def only_reads_def)
qed

lemma line_room_platform: "platform_ok P n \<Longrightarrow> line_room P 1"
  using platform_ok_malloc [of P n] by (auto simp: line_room_def mem_ok_def)

text \<open>\<open>advances P srv s bs w rest\<close>: the connection comes to the point where it has sent \<open>bs\<close>,
  has left the engines in the world \<open>w\<close>, and goes on with \<open>rest\<close>, owning what it owned before.\<close>

definition advances ::
  "platform \<Rightarrow> ('u, 'c) server \<Rightarrow> 'u session \<Rightarrow> byte list \<Rightarrow> 'u \<Rightarrow> byte list \<Rightarrow> bool" where
  "advances P srv s bs w rest \<longleftrightarrow>
     (\<exists>s'. handle_client P srv s = handle_client P srv s' \<and> session_tx s' = session_tx s @ bs \<and>
        session_writable s' = session_writable s \<and> s_stop s' = None \<and> s_world s' = w \<and>
        pending (s_io s') = rest \<and> s_live s' = s_live s)"

lemma advances_refl: "s_stop s = None \<Longrightarrow> advances P srv s [] (s_world s) (pending (s_io s))"
  by (auto simp: advances_def)

lemma advances_step:
  assumes "receive P s = (WYOMING_OK, e, s1)" and "only_received s s1" and "s_stop s = None"
    and "dispatch P srv e s1 = Continue s2"
    and "session_tx s2 = session_tx s1 @ bs" and "session_writable s2 = session_writable s1"
    and "s_stop s2 = None" and "s_live s2 = s_live s1"
  shows "advances P srv s bs (s_world s2) (pending (s_io s2))"
proof -
  have "handle_client P srv s = handle_client P srv s2"
    using assms(1,3,4) by (subst handle_client.simps) (simp add: check_running_None)
  with assms(2,5-8) show ?thesis unfolding advances_def only_received_def by (intro exI [of _ s2]) simp
qed

lemma advances_trans:
  assumes "advances P srv s bs w rest"
    and "\<And>s'. session_writable s' = session_writable s \<Longrightarrow> s_stop s' = None \<Longrightarrow> s_world s' = w \<Longrightarrow>
      pending (s_io s') = rest \<Longrightarrow> advances P srv s' bs' w' rest'"
  shows "advances P srv s (bs @ bs') w' rest'"
proof -
  obtain s1 where s1: "handle_client P srv s = handle_client P srv s1" "session_tx s1 = session_tx s @ bs"
    "session_writable s1 = session_writable s" "s_stop s1 = None" "s_world s1 = w"
    "pending (s_io s1) = rest" "s_live s1 = s_live s"
    using assms(1) by (auto simp: advances_def)
  obtain s2 where "handle_client P srv s1 = handle_client P srv s2" "session_tx s2 = session_tx s1 @ bs'"
    "session_writable s2 = session_writable s1" "s_stop s2 = None" "s_world s2 = w'"
    "pending (s_io s2) = rest'" "s_live s2 = s_live s1"
    using assms(2) [OF s1(3-6)] by (auto simp: advances_def)
  with s1 show ?thesis by (auto simp: advances_def)
qed

text \<open>At the end of the input the connection is over.\<close>

lemma advances_end:
  assumes "advances P srv s bs w []" and "line_room P 1"
  shows "session_tx (handle_client P srv s) = session_tx s @ bs \<and> s_world (handle_client P srv s) = w \<and>
    s_live (handle_client P srv s) = s_live s"
  using assms handle_client_idle [of _ P srv] by (auto simp: advances_def)

lemma dispatch_synthesize [simp]:
  "dispatch P srv (synthesize_msg text voice) s =
     Continue (handle_synthesize P srv (synthesize_msg text voice) s)"
  by (simp add: dispatch_def synthesize_msg_def)

lemma step_synthesize:
  assumes "tts_fn srv = Some fn" and "fn text voice None (s_world s) = ((WYOMING_OK, Some zs, fmt), w)"
    and "c_string text" and "opt_c_string voice" and "format_ok fmt"
    and "platform_ok P (9000 + 6 * length text + 6 * opt_length voice)"
    and "pending (s_io s) = frame P (synthesize_msg text voice) @ rest"
    and "session_writable s" and "s_stop s = None"
  shows "advances P srv s (frames P (audio_reply fmt zs)) w rest"
proof -
  have p: "platform_ok P 9000" by (rule platform_ok_mono [OF assms(6)]) simp
  obtain s1 where s1: "receive P s = (WYOMING_OK, synthesize_msg text voice, s1)"
    "pending (s_io s1) = rest" "only_received s s1"
    by (rule receive_msg [OF synthesize_msg_sendable [OF assms(3,4,6)] assms(7)])
  have w1: "session_writable s1" and "fn text voice None (s_world s1) = ((WYOMING_OK, Some zs, fmt), w)"
    using s1(3) assms(2,8) by (simp_all add: only_received_def)
  note h = handle_synthesize_ok [OF assms(1) this(2) assms(5) p w1]
  have "s_stop s1 = None" using s1(3) assms(9) by (simp add: only_received_def)
  with advances_step [OF s1(1,3) assms(9) dispatch_synthesize h(1)] h w1 s1(2) show ?thesis by simp
qed

lemma serve_synthesize:
  assumes "tts_fn srv = Some fn" and "fn text voice None (s_world s) = ((WYOMING_OK, Some zs, fmt), w)"
    and "c_string text" and "opt_c_string voice" and "format_ok fmt"
    and "platform_ok P (9000 + 6 * length text + 6 * opt_length voice)"
    and "pending (s_io s) = frame P (synthesize_msg text voice)"
    and "session_writable s" and "s_stop s = None"
  shows "session_tx (handle_client P srv s) = session_tx s @ frames P (audio_reply fmt zs) \<and>
     s_world (handle_client P srv s) = w \<and> s_live (handle_client P srv s) = s_live s"
  by (rule advances_end [OF step_synthesize [OF assms(1-6) _ assms(8,9)] line_room_platform [OF assms(6)]])
     (simp add: assms(7))

subsection \<open>Transcription: the server\<close>

definition request_msg :: "string \<Rightarrow> string option \<Rightarrow> event" where
  "request_msg type language =
     \<lparr>ev_type = Some type,
      ev_data = Some (cJSON_Object (case language of
        None \<Rightarrow> [] | Some l \<Rightarrow> if l = [] then [] else [(''language'', cJSON_String l)])),
      ev_payload = None\<rparr>"

text \<open>The empty language is the same as none.\<close>

definition given_language :: "string option \<Rightarrow> string option" where
  "given_language language = (case language of None \<Rightarrow> None | Some l \<Rightarrow> if l = [] then None else Some l)"

definition transcript_msg :: "string \<Rightarrow> bool \<Rightarrow> event" where
  "transcript_msg text partial =
     \<lparr>ev_type = Some WYOMING_EVENT_TRANSCRIPT,
      ev_data = Some (cJSON_Object ([(''text'', cJSON_String text)] @
        (if partial then [(''is_partial'', cJSON_True)] else []))),
      ev_payload = None\<rparr>"

definition upload :: "audio_format \<Rightarrow> byte list list \<Rightarrow> event list" where
  "upload fmt ps = [start_msg fmt False] @ map (chunk_msg fmt) ps @ [bare_msg WYOMING_EVENT_AUDIO_STOP]"

lemma receive_audio_chunks:
  assumes "\<And>p. p \<in> set ps \<Longrightarrow> p \<noteq> [] \<and> sendable P (chunk_msg fmt p)"
    and "sendable P (bare_msg WYOMING_EVENT_AUDIO_STOP)"
  shows "pending (s_io s) = frames P (map (chunk_msg fmt) ps @ [bare_msg WYOMING_EVENT_AUDIO_STOP]) @ rest \<Longrightarrow>
     pcm_collect P 16000 b ps = Some b' \<Longrightarrow> s_stop s = None \<Longrightarrow>
     \<exists>s'. receive_audio P b s = (True, b', s') \<and> pending (s_io s') = rest \<and> only_received s s'"
  using assms(1)
proof (induction ps arbitrary: s b)
  case Nil
  then have "pending (s_io s) = frame P (bare_msg WYOMING_EVENT_AUDIO_STOP) @ rest" by simp
  then obtain s' where "receive P s = (WYOMING_OK, bare_msg WYOMING_EVENT_AUDIO_STOP, s')"
    "pending (s_io s') = rest" "only_received s s'"
    by (rule receive_msg [OF assms(2)])
  with Nil show ?case
    by (simp add: receive_audio.simps [of P b' s] check_running_None)
next
  case (Cons p ps)
  then have p: "p \<noteq> []" "sendable P (chunk_msg fmt p)" by simp_all
  have "pending (s_io s) = frame P (chunk_msg fmt p) @
      frames P (map (chunk_msg fmt) ps @ [bare_msg WYOMING_EVENT_AUDIO_STOP]) @ rest"
    using Cons.prems(1) by simp
  then obtain s1 where c: "receive P s = (WYOMING_OK, chunk_msg fmt p, s1)"
    "pending (s_io s1) = frames P (map (chunk_msg fmt) ps @ [bare_msg WYOMING_EVENT_AUDIO_STOP]) @ rest"
    "only_received s s1"
    by (rule receive_msg [OF p(2)])
  obtain b1 where b1: "pcm_append P 16000 b p = Some b1" "pcm_collect P 16000 b1 ps = Some b'"
    using Cons.prems(2) by (auto split: option.splits)
  have "receive_audio P b s = receive_audio P b1 s1"
    using c(1) p(1) b1(1) Cons.prems(3) by (simp add: receive_audio.simps [of P b s] check_running_None)
  moreover have "s_stop s1 = None" using c(3) Cons.prems(3) by (simp add: only_received_def)
  ultimately show ?case
    using Cons.IH [OF c(2) b1(2)] Cons.prems(4) c(3) by (auto intro: only_received_trans)
qed

lemma client_pieces_bounds: "p \<in> set (client_pieces zs) \<Longrightarrow> p \<noteq> [] \<and> length p \<le> 8192"
  using pieces_bounds [of p 2048 "samples_bytes zs"] by (auto simp: client_pieces_def)

lemma receive_start_ok:
  assumes "format_ok fmt" and "platform_ok P 9000" and "pending (s_io s) = frame P (start_msg fmt t) @ rest"
  obtains s' where "receive_start P s = (Some fmt, s')" and "pending (s_io s') = rest"
    and "only_received s s'"
proof -
  obtain s' where s': "receive P s = (WYOMING_OK, start_msg fmt t, s')" "pending (s_io s') = rest"
    "only_received s s'"
    by (rule receive_msg [OF audio_sendable(1) [OF assms(1,2)] assms(3)])
  have f: "read_format P (ev_data (start_msg fmt t)) default_format = fmt"
    using assms(1) by (simp add: start_msg_def read_format_members)
  from s' show ?thesis by (intro that) (simp_all add: receive_start_def f)
qed

lemma transcript_msg_sendable:
  assumes "c_string text" and "platform_ok P (9000 + 6 * length text)"
  shows "sendable P (transcript_msg text partial)"
    "transcript_event P text partial = transcript_msg text partial"
proof -
  have "event_wf (transcript_msg text partial)"
    using assms(1) by (simp add: event_wf_def transcript_msg_def)
  moreover have "length (data_text (transcript_msg text partial)) \<le> 100 + 6 * length text"
    using length_quote_le [of "text"]
    by (simp add: data_text_def transcript_msg_def member_text_def format_keys)
  then have "event_room P (transcript_msg text partial)"
    by (intro event_roomI [of _ WYOMING_EVENT_TRANSCRIPT] platform_ok_mono [OF assms(2)])
      (simp_all add: transcript_msg_def payload_text_def)
  ultimately show "sendable P (transcript_msg text partial)" by (simp add: sendable_def)
  have m: "k \<le> 9000 + 6 * length text \<Longrightarrow> malloc_ok P k" for k
    by (rule platform_ok_malloc [OF assms(2)]) simp
  then have "malloc_ok P (length text + 1)" by simp
  moreover have "k \<le> 256 \<Longrightarrow> malloc_ok P k" for k by (rule m) simp
  ultimately show "transcript_event P text partial = transcript_msg text partial"
    by (simp add: transcript_event_def transcript_msg_def Let_def cjson_build strdup_def)
qed

lemma request_language_msg:
  assumes "platform_ok P (9000 + 6 * opt_length language)"
  shows "request_language P (request_msg type language) = given_language language"
proof (cases language)
  case (Some l)
  have "malloc_ok P (length l + 1)"
    by (rule platform_ok_malloc [OF assms]) (simp add: Some opt_length_def)
  with Some show ?thesis
    by (simp add: request_language_def data_string_def request_msg_def given_language_def cjson_read strdup_def)
qed (simp add: request_language_def data_string_def request_msg_def given_language_def cjson_read)

text \<open>What the server answers when the engine gives \<open>res\<close>.\<close>

definition reply_text :: "wyoming_error \<times> string option \<Rightarrow> string" where
  "reply_text res = (case res of
      (rc, Some t) \<Rightarrow> if rc = WYOMING_OK then t else []
    | (rc, None) \<Rightarrow> [])"

lemma handle_transcribe_ok:
  assumes "asr_fn srv = Some fn" and "fn zs fmt (given_language language) (s_world s) = (res, w)"
    and "format_ok fmt" and "zs \<noteq> []" and "c_string (reply_text res)"
    and "platform_ok P (9000 + 6 * opt_length language)"
    and "platform_ok P (9000 + 6 * length (reply_text res))"
    and "pcm_room P 16000 (length zs)" and "session_writable s" and "s_stop s = None"
    and "pending (s_io s) = frames P (upload fmt (client_pieces zs)) @ rest"
  shows "\<exists>s'. handle_transcribe P srv (request_msg WYOMING_EVENT_TRANSCRIBE language) s = Continue s' \<and>
     session_tx s' = session_tx s @ frame P (transcript_msg (reply_text res) False) \<and>
     session_writable s' \<and>
     pending (s_io s') = rest \<and> s_stop s' = None \<and> s_world s' = w \<and> s_live s' = s_live s"
proof -
  have p0: "platform_ok P 9000" by (rule platform_ok_mono [OF assms(6)]) simp
  note p1 = assms(6) and p2 = assms(7)
  note msgs = audio_sendable [OF assms(3) p0]
  have stop: "sendable P (bare_msg WYOMING_EVENT_AUDIO_STOP)" by (rule msgs(3)) simp_all
  have chunk: "p \<noteq> [] \<and> sendable P (chunk_msg fmt p)" if "p \<in> set (client_pieces zs)" for p
    using client_pieces_bounds [OF that] msgs(2) by simp
  let ?l = "given_language language"
  let ?s0 = "acquire ?l s"
  obtain b where b: "pcm_collect P 16000 pcm_empty (client_pieces zs) = Some b" "pcm_samples b = zs"
    using to_server.collect_all [OF assms(8)] by blast
  have b_pcm: "pcm b = Some zs" using b(2) assms(4) by (cases "pcm b") (auto simp: pcm_samples_def)
  have "pending (s_io ?s0) = frame P (start_msg fmt False) @
      frames P (map (chunk_msg fmt) (client_pieces zs) @ [bare_msg WYOMING_EVENT_AUDIO_STOP]) @ rest"
    using assms(11) by (simp add: upload_def)
  then obtain s1 where s1: "receive_start P ?s0 = (Some fmt, s1)"
    "pending (s_io s1) = frames P (map (chunk_msg fmt) (client_pieces zs) @ [bare_msg WYOMING_EVENT_AUDIO_STOP]) @ rest"
    "only_received ?s0 s1"
    by (rule receive_start_ok [OF assms(3) p0])
  have "s_stop s1 = None" using s1(3) assms(10) by (simp add: only_received_def)
  then obtain s2 where s2: "receive_audio P pcm_empty s1 = (True, b, s2)" "pending (s_io s2) = rest"
    "only_received s1 s2"
    using receive_audio_chunks [OF chunk stop s1(2) b(1)] by blast
  note r = only_received_trans [OF s1(3) s2(3)]
  have fn2: "fn zs fmt ?l (s_world s2) = (res, w)"
    using r assms(2) by (simp add: only_received_def)
  obtain rc reply where res: "res = (rc, reply)" by force
  let ?s3 = "release (Some zs) (acquire reply ((acquire (Some zs) s2)\<lparr>s_world := w\<rparr>))"
  let ?s4 = "send P (transcript_msg (reply_text res) False) ?s3"
  have ans: "answer_transcribe P fn fmt ?l True b s2 = release ?l (release reply ?s4)"
    using b_pcm b(2) assms(4) fn2 transcript_msg_sendable(2) [OF assms(5) p2, of False]
    by (cases reply) (simp_all add: answer_transcribe_def Let_def res reply_text_def)
  have w3: "session_writable ?s3" using r assms(9) by (simp add: only_received_def)
  note s4 = send_ok [OF transcript_msg_sendable(1) [OF assms(5) p2, of False] w3]
  have "handle_transcribe P srv (request_msg WYOMING_EVENT_TRANSCRIBE language) s =
      Continue (release ?l (release reply ?s4))"
    using assms(1) s1(1) s2(1) ans request_language_msg [OF p1]
    by (simp add: handle_transcribe_def Let_def)
  moreover have "session_tx (release ?l (release reply ?s4)) =
      session_tx s @ frame P (transcript_msg (reply_text res) False)"
    using s4(1) r by (simp add: only_received_def)
  moreover have "s_live (release ?l (release reply ?s4)) = s_live s"
    using r by (simp add: only_received_def acquire_def release_def)
  ultimately show ?thesis
    using r s2(2) s4(2) assms(10) by (simp add: only_received_def acquire_def release_def session_writable_def)
qed

subsection \<open>Transcription: the client\<close>

lemma request_msg_sendable:
  assumes "c_string type" and "length type < 256" and "opt_c_string language"
    and "platform_ok P (9000 + 6 * opt_length language)"
  shows "sendable P (request_msg type language)"
    "request_event P type language = request_msg type language"
proof -
  have "event_wf (request_msg type language)"
    using assms(1,3) by (cases language) (simp_all add: event_wf_def request_msg_def opt_c_string_def)
  moreover have "length (data_text (request_msg type language)) \<le> 100 + 6 * opt_length language"
    using length_quote_le [of "the language"]
    by (cases language)
      (simp_all add: data_text_def request_msg_def member_text_def format_keys opt_length_def)
  then have "event_room P (request_msg type language)"
    using assms(2)
    by (intro event_roomI [of _ type] platform_ok_mono [OF assms(4)])
      (simp_all add: request_msg_def payload_text_def)
  ultimately show "sendable P (request_msg type language)" by (simp add: sendable_def)
  have m: "k \<le> 9000 + 6 * opt_length language \<Longrightarrow> malloc_ok P k" for k
    by (rule platform_ok_malloc [OF assms(4)]) simp
  have "malloc_ok P (length l + 1)" if "language = Some l" for l
    by (rule m) (simp add: that opt_length_def)
  moreover have "k \<le> 256 \<Longrightarrow> malloc_ok P k" for k by (rule m) simp
  ultimately show "request_event P type language = request_msg type language"
    using assms(2)
    by (cases language)
      (simp_all add: request_event_def request_msg_def language_data_def Let_def cjson_build strdup_def)
qed

lemma client_pieces_rec:
  "pieces 2048 raw = (if raw = [] then [] else take 2048 raw # pieces 2048 (drop 2048 raw))"
  by (subst pieces.simps) simp

lemma send_chunks_ok:
  assumes "format_ok fmt" and "platform_ok P 9000"
  shows "writable (io_fd conn) \<Longrightarrow>
    \<exists>conn'. send_chunks P conn fmt raw = (WYOMING_OK, conn') \<and> writable (io_fd conn') \<and>
      tx (io_fd conn') = tx (io_fd conn) @ frames P (map (chunk_msg fmt) (pieces 2048 raw)) \<and>
      pending conn' = pending conn \<and> stream_end conn' = stream_end conn"
proof (induction "length raw" arbitrary: raw conn rule: less_induct)
  case less
  show ?case
  proof (cases "raw = []")
    case True
    with less.prems show ?thesis
      by (simp add: send_chunks.simps [of P conn fmt "[]"] client_pieces_rec [of "[]"])
  next
    case False
    let ?p = "take 2048 raw"
    have rec: "pieces 2048 raw = ?p # pieces 2048 (drop 2048 raw)"
      using client_pieces_rec [of raw] False by simp
    have "sendable P (chunk_msg fmt ?p)"
      using audio_sendable(2) [OF assms, of ?p] False by simp
    then obtain conn1 where c: "conn_write P conn (chunk_msg fmt ?p) = (WYOMING_OK, conn1)"
      "tx (io_fd conn1) = tx (io_fd conn) @ frame P (chunk_msg fmt ?p)" "writable (io_fd conn1)"
      "pending conn1 = pending conn" "stream_end conn1 = stream_end conn"
      by (rule conn_send) (use less.prems in simp)
    have "malloc_ok P (length ?p)" by (rule platform_ok_malloc [OF assms(2)]) simp
    then have step: "send_chunks P conn fmt raw = send_chunks P conn1 fmt (drop 2048 raw)"
      using False c(1) audio_events_ok(2) [OF platform_mem [OF assms(2)]]
      by (simp add: send_chunks.simps [of P conn fmt raw])
    have "length (drop 2048 raw) < length raw" using False by (cases raw) simp_all
    from less.hyps [OF this c(3)] c show ?thesis by (simp add: step rec)
  qed
qed

lemma await_transcript_ok:
  assumes "sendable P (transcript_msg text False)" and "platform_ok P (9000 + 6 * length text)"
    and "pending conn = frame P (transcript_msg text False) @ rest"
  shows "\<exists>conn'. await_transcript P conn = (WYOMING_OK, Some text, conn') \<and>
     tx (io_fd conn') = tx (io_fd conn) \<and> pending conn' = rest"
proof -
  obtain conn' where "wyoming_event_read_iobuf P conn = (WYOMING_OK, transcript_msg text False, conn')"
    "pending conn' = rest" "tx (io_fd conn') = tx (io_fd conn)"
    by (rule conn_receive [OF assms(1,3)])
  moreover have "malloc_ok P (length text + 1)" by (rule platform_ok_malloc [OF assms(2)]) simp
  ultimately show ?thesis
    by (simp add: await_transcript.simps [of P conn] transcript_msg_def cjson_read strdup_def Let_def)
qed

definition transcribe_upload :: "audio_format \<Rightarrow> sample list \<Rightarrow> string option \<Rightarrow> event list" where
  "transcribe_upload fmt zs language =
     request_msg WYOMING_EVENT_TRANSCRIBE language # upload fmt (client_pieces zs)"

lemma send_chunks_post:
  assumes "format_ok fmt" and "platform_ok P 9000" and "writable (io_fd conn)"
  obtains conn' where "send_chunks P conn fmt (samples_bytes zs) = (WYOMING_OK, conn')"
    and "posted P conn (map (chunk_msg fmt) (client_pieces zs)) conn'" and "writable (io_fd conn')"
  using send_chunks_ok [OF assms, of "samples_bytes zs"] assms(3)
  by (auto simp: posted_def client_pieces_def)

lemma wyoming_transcribe_pcm_posts:
  assumes "zs \<noteq> []" and "format_ok fmt" and "opt_c_string language"
    and "platform_ok P (9000 + 6 * opt_length language)" and "writable (io_fd conn)"
  obtains conn' where "wyoming_transcribe_pcm P conn (Some zs) fmt language = await_transcript P conn'"
    and "posted P conn (transcribe_upload fmt zs language) conn'"
proof -
  have p0: "platform_ok P 9000" by (rule platform_ok_mono [OF assms(4)]) simp
  note ev = audio_events_ok [OF platform_mem [OF p0]]
  note msgs = audio_sendable [OF assms(2) p0]
  have stop: "sendable P (bare_msg WYOMING_EVENT_AUDIO_STOP)" by (rule msgs(3)) simp_all
  have req: "sendable P (request_msg WYOMING_EVENT_TRANSCRIBE language)"
    "request_event P WYOMING_EVENT_TRANSCRIBE language = request_msg WYOMING_EVENT_TRANSCRIBE language"
    by (rule request_msg_sendable [OF _ _ assms(3,4)]; simp)+
  obtain c1 where c1: "conn_write P conn (request_msg WYOMING_EVENT_TRANSCRIBE language) = (WYOMING_OK, c1)"
    "posted P conn [request_msg WYOMING_EVENT_TRANSCRIBE language] c1" "writable (io_fd c1)"
    by (rule conn_post [OF req(1) assms(5)])
  obtain c2 where c2: "conn_write P c1 (start_msg fmt False) = (WYOMING_OK, c2)"
    "posted P c1 [start_msg fmt False] c2" "writable (io_fd c2)"
    by (rule conn_post [OF msgs(1) c1(3)])
  obtain c3 where c3: "send_chunks P c2 fmt (samples_bytes zs) = (WYOMING_OK, c3)"
    "posted P c2 (map (chunk_msg fmt) (client_pieces zs)) c3" "writable (io_fd c3)"
    by (rule send_chunks_post [OF assms(2) p0 c2(3)])
  obtain c4 where c4: "conn_write P c3 (bare_msg WYOMING_EVENT_AUDIO_STOP) = (WYOMING_OK, c4)"
    "posted P c3 [bare_msg WYOMING_EVENT_AUDIO_STOP] c4"
    by (rule conn_post [OF stop c3(3)])
  have "wyoming_transcribe_pcm P conn (Some zs) fmt language = await_transcript P c4"
    using assms(1) c1(1) c2(1) c3(1) c4(1) req(2) ev(1) ev(3) [of WYOMING_EVENT_AUDIO_STOP]
    by (simp add: wyoming_transcribe_pcm_def)
  moreover have "posted P conn (transcribe_upload fmt zs language) c4"
    using posted_trans [OF c1(2) posted_trans [OF c2(2) posted_trans [OF c3(2) c4(2)]]]
    by (simp add: transcribe_upload_def upload_def)
  ultimately show thesis using that by blast
qed

lemma step_transcribe:
  assumes "asr_fn srv = Some fn" and "fn zs fmt (given_language language) (s_world s) = (res, w)"
    and "format_ok fmt" and "zs \<noteq> []" and "opt_c_string language" and "c_string (reply_text res)"
    and "platform_ok P (9000 + 6 * opt_length language)" and "platform_ok P (9000 + 6 * length (reply_text res))"
    and "pcm_room P 16000 (length zs)" and "session_writable s" and "s_stop s = None"
    and "pending (s_io s) = frames P (transcribe_upload fmt zs language) @ rest"
  shows "advances P srv s (frame P (transcript_msg (reply_text res) False)) w rest"
proof -
  have req: "sendable P (request_msg WYOMING_EVENT_TRANSCRIBE language)"
    by (rule request_msg_sendable(1) [OF _ _ assms(5,7)]) simp_all
  obtain s1 where s1: "receive P s = (WYOMING_OK, request_msg WYOMING_EVENT_TRANSCRIBE language, s1)"
    "pending (s_io s1) = frames P (upload fmt (client_pieces zs)) @ rest" "only_received s s1"
    by (rule receive_msg [OF req]) (use assms(12) in \<open>simp add: transcribe_upload_def\<close>)
  have w1: "fn zs fmt (given_language language) (s_world s1) = (res, w)" "session_writable s1" "s_stop s1 = None"
    using s1(3) assms(2,10,11) by (simp_all add: only_received_def)
  from handle_transcribe_ok [OF assms(1) w1(1) assms(3,4,6,7,8,9) w1(2,3) s1(2)]
  obtain s2 where s2: "handle_transcribe P srv (request_msg WYOMING_EVENT_TRANSCRIBE language) s1 = Continue s2"
    "session_tx s2 = session_tx s1 @ frame P (transcript_msg (reply_text res) False)" "session_writable s2"
    "pending (s_io s2) = rest" "s_stop s2 = None" "s_world s2 = w" "s_live s2 = s_live s1"
    by blast
  have "dispatch P srv (request_msg WYOMING_EVENT_TRANSCRIBE language) s1 = Continue s2"
    using s2(1) by (simp add: dispatch_def request_msg_def)
  from advances_step [OF s1(1,3) assms(11) this s2(2)] s2 w1(2) show ?thesis by simp
qed

lemma serve_transcribe:
  assumes "asr_fn srv = Some fn" and "fn zs fmt (given_language language) (s_world s) = (res, w)"
    and "format_ok fmt" and "zs \<noteq> []" and "opt_c_string language" and "c_string (reply_text res)"
    and "platform_ok P (9000 + 6 * opt_length language + 6 * length (reply_text res))"
    and "pcm_room P 16000 (length zs)" and "session_writable s" and "s_stop s = None"
    and "pending (s_io s) = frames P (transcribe_upload fmt zs language)"
  shows "session_tx (handle_client P srv s) =
       session_tx s @ frame P (transcript_msg (reply_text res) False) \<and>
     s_world (handle_client P srv s) = w \<and> s_live (handle_client P srv s) = s_live s"
proof -
  have p: "platform_ok P (9000 + 6 * opt_length language)" "platform_ok P (9000 + 6 * length (reply_text res))"
    by (rule platform_ok_mono [OF assms(7)], simp)+
  show ?thesis
    by (rule advances_end [OF step_transcribe [OF assms(1-6) p assms(8-10)] line_room_platform [OF p(1)]])
       (simp add: assms(11))
qed

subsection \<open>Describe\<close>

definition info_msg :: "('u, 'c) server \<Rightarrow> event" where
  "info_msg srv =
     \<lparr>ev_type = Some WYOMING_EVENT_INFO, ev_data = Some (info_obj srv), ev_payload = None\<rparr>"

text \<open>What the server tells about itself is JSON that survives the wire.\<close>

definition travels :: "nat \<Rightarrow> cJSON \<Rightarrow> bool" where
  "travels n v \<longleftrightarrow> json_wf v \<and> int_numbers v \<and> nested n v"

lemma travels_simps [simp]:
  "travels n (cJSON_String s) = c_string s"
  "travels n cJSON_True"
  "travels (Suc n) (cJSON_Array xs) = (\<forall>x\<in>set xs. travels n x)"
  "travels (Suc n) (cJSON_Object kvs) = (\<forall>(k, v)\<in>set kvs. c_string k \<and> travels n v)"
  by (auto simp: travels_def list_all_iff)

lemma travels_strings:
  assumes "list_all (string_fits P) (the_strings [s])" and "c_string k"
  shows "\<forall>(k, v)\<in>set (str_member k s). c_string k \<and> travels n v"
  using assms by (cases s) (simp_all add: str_member_def string_fits_def)

lemma travels_items:
  "list_all (string_fits P) (the_strings ls) \<Longrightarrow> \<forall>x\<in>set (str_items ls). travels n x"
  by (auto simp: str_items_eq list_all_iff string_fits_def)

lemma travels_voice:
  assumes "list_all (string_fits P) (voice_strings v)"
  shows "travels (Suc (Suc (Suc n))) (voice_obj v)"
proof -
  have parts: "list_all (string_fits P) (the_strings [sv_name v])"
    "list_all (string_fits P) (the_strings [sv_description v])"
    "list_all (string_fits P) (the_strings (sv_languages v))"
    "list_all (string_fits P) (the_strings (sv_speakers v))"
    using assms by (simp_all add: voice_strings_def)
  have spk: "travels (Suc n) (cJSON_Object (str_member ''name'' s))" if "s \<in> set (sv_speakers v)" for s
  proof -
    have "list_all (string_fits P) (the_strings [s])"
      using parts(4) that by (cases s) (auto simp: list_all_iff set_the_strings)
    from travels_strings [OF this, of "''name''" n] show ?thesis by simp
  qed
  show ?thesis
    using travels_strings [OF parts(1), of "''name''" "Suc (Suc n)"]
      travels_strings [OF parts(2), of "''description''" "Suc (Suc n)"] travels_items [OF parts(3)] spk
    by (auto simp: voice_obj_def)
qed

lemma travels_model:
  assumes "list_all (string_fits P) (model_strings m)"
  shows "travels (Suc (Suc n)) (model_obj m)"
proof -
  have parts: "list_all (string_fits P) (the_strings [sm_name m])"
    "list_all (string_fits P) (the_strings [sm_description m])"
    "list_all (string_fits P) (the_strings (sm_languages m))"
    using assms by (simp_all add: model_strings_def)
  show ?thesis
    using travels_strings [OF parts(1), of "''name''" "Suc n"]
      travels_strings [OF parts(2), of "''description''" "Suc n"] travels_items [OF parts(3)]
    by (auto simp: model_obj_def)
qed

lemma travels_info_deep:
  assumes "list_all (string_fits P) (server_strings srv)"
  shows "travels (Suc (Suc (Suc (Suc (Suc (Suc (Suc n))))))) (info_obj srv)"
proof -
  note parts = server_strings_parts [OF assms]
  have "travels (Suc (Suc (Suc (Suc (Suc n))))) (tts_obj srv)"
    using travels_strings [OF parts(1), of "''name''" "Suc (Suc (Suc (Suc n)))"]
      travels_strings [OF parts(2), of "''version''" "Suc (Suc (Suc (Suc n)))"]
      travels_voice [OF parts(5), of _ n]
    by (auto simp: tts_obj_def)
  moreover have "travels (Suc (Suc (Suc (Suc (Suc n))))) (asr_obj srv)"
    using travels_strings [OF parts(3), of "''name''" "Suc (Suc (Suc (Suc n)))"]
      travels_strings [OF parts(4), of "''version''" "Suc (Suc (Suc (Suc n)))"]
      travels_model [OF parts(6), of _ "Suc n"]
    by (auto simp: asr_obj_def)
  ultimately show ?thesis
    unfolding info_obj_def by (auto split: option.split)
qed

lemma travels_info:
  assumes "list_all (string_fits P) (server_strings srv)"
  shows "travels 1000 (info_obj srv)"
proof -
  have n: "Suc (Suc (Suc (Suc (Suc (Suc (Suc 993)))))) = (1000::nat)" by simp
  show ?thesis using travels_info_deep [OF assms, of 993] by (simp only: n)
qed

lemma info_msg_sendable:
  assumes "server_room P srv" and "event_room P (info_msg srv)"
  shows "sendable P (info_msg srv)" "info_event P srv = info_msg srv"
proof -
  have m: "mem_ok P 4096" and s: "list_all (string_fits P) (server_strings srv)"
    using assms(1) by (simp_all add: server_room_def)
  show "sendable P (info_msg srv)"
    using travels_info [OF s] assms(2)
    by (simp add: sendable_def event_wf_def info_msg_def travels_def)
  show "info_event P srv = info_msg srv"
    using build_info_ok [OF assms(1)] m by (simp add: info_event_def info_msg_def strdup_def)
qed

lemma step_describe:
  assumes "server_room P srv" and "event_room P (info_msg srv)" and "platform_ok P 9000"
    and "session_writable s" and "s_stop s = None"
    and "pending (s_io s) = frame P (bare_msg WYOMING_EVENT_DESCRIBE) @ rest"
  shows "advances P srv s (frame P (info_msg srv)) (s_world s) rest"
proof -
  note info = info_msg_sendable [OF assms(1,2)]
  have d: "sendable P (bare_msg WYOMING_EVENT_DESCRIBE)"
    by (rule audio_sendable(3) [of default_format, OF _ assms(3)]) (simp_all add: format_ok_def default_format_def)
  obtain s1 where s1: "receive P s = (WYOMING_OK, bare_msg WYOMING_EVENT_DESCRIBE, s1)"
    "pending (s_io s1) = rest" "only_received s s1"
    by (rule receive_msg [OF d assms(6)])
  have w: "session_writable s1" "s_stop s1 = None" "s_world s1 = s_world s"
    using s1(3) assms(4,5) by (simp_all add: only_received_def)
  note sent = send_ok [OF info(1) w(1)]
  have "dispatch P srv (bare_msg WYOMING_EVENT_DESCRIBE) s1 = Continue (send P (info_msg srv) s1)"
    using info(2) by (simp add: dispatch_def)
  from advances_step [OF s1(1,3) assms(5) this sent(1)] sent(2) w s1(2) show ?thesis by simp
qed

lemma serve_describe:
  assumes "server_room P srv" and "event_room P (info_msg srv)" and "platform_ok P 9000"
    and "session_writable s" and "s_stop s = None"
    and "pending (s_io s) = frame P (bare_msg WYOMING_EVENT_DESCRIBE)"
  shows "session_tx (handle_client P srv s) = session_tx s @ frame P (info_msg srv)"
  using advances_end [OF step_describe [OF assms(1-5), of "[]"] line_room_platform [OF assms(3)]] assms(6)
  by simp

lemma wyoming_describe_posts:
  assumes "platform_ok P 9000" and "writable (io_fd conn)"
  obtains conn' where "conn_write P conn (bare_event P WYOMING_EVENT_DESCRIBE) = (WYOMING_OK, conn')"
    and "posted P conn [bare_msg WYOMING_EVENT_DESCRIBE] conn'"
proof -
  have d: "sendable P (bare_msg WYOMING_EVENT_DESCRIBE)"
    by (rule audio_sendable(3) [of default_format, OF _ assms(1)]) (simp_all add: format_ok_def default_format_def)
  have "bare_event P WYOMING_EVENT_DESCRIBE = bare_msg WYOMING_EVENT_DESCRIBE"
    using audio_events_ok(3) [OF platform_mem [OF assms(1)]] by simp
  then show thesis using conn_post [OF d assms(2)] that by metis
qed

text \<open>\<^verbatim>\<open>wyoming_describe\<close> after its request is out.\<close>

lemma wyoming_describe_reads:
  assumes "server_ok srv" and "server_room P srv" and "event_room P (info_msg srv)"
    and "conn_write P conn (bare_event P WYOMING_EVENT_DESCRIBE) = (WYOMING_OK, conn1)"
    and "pending conn1 = frame P (info_msg srv) @ rest"
  shows "\<exists>conn'. wyoming_describe P conn = (WYOMING_OK, info_of srv, conn') \<and> pending conn' = rest"
proof -
  obtain c2 where c2: "wyoming_event_read_iobuf P conn1 = (WYOMING_OK, info_msg srv, c2)"
    "pending c2 = rest"
    by (rule conn_receive [OF info_msg_sendable(1) [OF assms(2,3)] assms(5)])
  then show ?thesis
    using assms(4) parse_info_obj [OF assms(1,2)] by (simp add: wyoming_describe_def info_msg_def)
qed

lemma wyoming_synthesize_pcm_posts:
  assumes "c_string text" and "opt_c_string voice"
    and "platform_ok P (9000 + 6 * length text + 6 * opt_length voice)" and "writable (io_fd conn)"
  obtains conn' where "wyoming_synthesize_pcm P conn (Some text) voice =
      collect_audio P conn' pcm_empty \<lparr>rate = 0, width = 0, channels = 0\<rparr> False"
    and "posted P conn [synthesize_msg text voice] conn'"
proof -
  obtain c1 where "conn_write P conn (synthesize_msg text voice) = (WYOMING_OK, c1)"
    "posted P conn [synthesize_msg text voice] c1"
    by (rule conn_post [OF synthesize_msg_sendable [OF assms(1-3)] assms(4)])
  then show thesis
    using that [of c1] wyoming_synthesize_sends [OF assms(3)]
    by (simp add: wyoming_synthesize_pcm_def Let_def)
qed

subsection \<open>What a client sends\<close>

text \<open>The waiting loops of the client only read.\<close>

lemma read_event_only_reads:
  "wyoming_event_read_iobuf P c = (rc, e, c') \<Longrightarrow> only_reads c c'"
  using read_event_settles [of P c rc e c'] by (simp add: settles_def)

lemma collect_audio_only_reads: "collect_audio P c b fmt g = (rc, a, f, c') \<Longrightarrow> only_reads c c'"
proof (induction P c b fmt g rule: collect_audio.induct)
  case (1 P c b fmt g)
  obtain rc1 e c1 where r: "wyoming_event_read_iobuf P c = (rc1, e, c1)"
    by (cases "wyoming_event_read_iobuf P c")
  show ?case
    using "1.prems" "1.IH" [OF r [symmetric] refl] read_event_only_reads [OF r] r
    by (subst (asm) collect_audio.simps) (auto split: if_splits option.splits intro: only_reads_trans)
qed

lemma await_transcript_only_reads: "await_transcript P c = (rc, t, c') \<Longrightarrow> only_reads c c'"
proof (induction P c rule: await_transcript.induct)
  case (1 P c)
  obtain rc1 e c1 where r: "wyoming_event_read_iobuf P c = (rc1, e, c1)"
    by (cases "wyoming_event_read_iobuf P c")
  show ?case
    using "1.prems" "1.IH" [OF r [symmetric] refl] read_event_only_reads [OF r] r
    by (subst (asm) await_transcript.simps) (auto simp: Let_def split: if_splits option.splits intro: only_reads_trans)
qed

lemma await_final_only_reads: "await_final P c l = (rc, t, c') \<Longrightarrow> only_reads c c'"
proof (induction P c l rule: await_final.induct)
  case (1 P c l)
  obtain rc1 e c1 where r: "wyoming_event_read_iobuf P c = (rc1, e, c1)"
    by (cases "wyoming_event_read_iobuf P c")
  show ?case
    using "1.prems" "1.IH" [OF r [symmetric] refl] read_event_only_reads [OF r] r
    by (subst (asm) await_final.simps) (auto simp: Let_def split: if_splits option.splits intro: only_reads_trans)
qed

lemma wyoming_describe_only_reads:
  "conn_write P conn (bare_event P WYOMING_EVENT_DESCRIBE) = (WYOMING_OK, conn1) \<Longrightarrow>
     wyoming_describe P conn = (rc, info, conn') \<Longrightarrow> only_reads conn1 conn'"
  by (auto simp: wyoming_describe_def split: prod.splits if_splits dest: read_event_only_reads)

lemma only_reads_tx: "only_reads c c' \<Longrightarrow> tx (io_fd c') = tx (io_fd c)"
  by (simp add: only_reads_def)

lemmas collect_audio_tx = collect_audio_only_reads [THEN only_reads_tx]
lemmas await_transcript_tx = await_transcript_only_reads [THEN only_reads_tx]
lemmas await_final_tx = await_final_only_reads [THEN only_reads_tx]
lemmas wyoming_describe_tx = wyoming_describe_only_reads [THEN only_reads_tx]

end
