(* ===== verification/Wy_Streaming.thy ===== *)
theory Wy_Streaming
  imports Wy_Dialog
begin

text \<open>
  Client and server in a streaming transcription: \<^verbatim>\<open>transcribe-start\<close>, chunks as the
  application has them, the two stop events, partial transcripts on the way and the final one
  at the end.
\<close>

subsection \<open>What the engine says\<close>

text \<open>\<open>said\<close>: the partial text that is worth sending. \<open>feed\<close>: the chunks given to the engine
  one after the other, with the partial texts and the world it leaves.\<close>

definition said :: "wyoming_error \<times> string option \<Rightarrow> string list" where
  "said res = (case res of
      (rc, Some t) \<Rightarrow> if rc = WYOMING_OK \<and> t \<noteq> [] then [t] else []
    | (rc, None) \<Rightarrow> [])"

fun feed ::
  "('u, 'c) stream_process_fn \<Rightarrow> 'c \<Rightarrow> audio_format \<Rightarrow> sample list list \<Rightarrow> 'u \<Rightarrow> string list \<times> 'u" where
  "feed process c fmt [] w = ([], w)"
| "feed process c fmt (zs # zss) w =
     (case process c (Some zs) fmt False w of
        (res, w) \<Rightarrow> (case feed process c fmt zss w of (ts, w) \<Rightarrow> (said res @ ts, w)))"

definition final_text :: "wyoming_error \<times> string option \<Rightarrow> string" where
  "final_text res = (case snd res of None \<Rightarrow> [] | Some t \<Rightarrow> t)"

definition partial_msgs :: "string list \<Rightarrow> event list" where
  "partial_msgs ts = map (\<lambda>t. transcript_msg t True) ts"

definition texts_ok :: "platform \<Rightarrow> string list \<Rightarrow> bool" where
  "texts_ok P ts \<longleftrightarrow> list_all (\<lambda>t. c_string t \<and> platform_ok P (9000 + 6 * length t)) ts"

lemma texts_ok_simps [simp]:
  "texts_ok P []" "texts_ok P (t # ts) \<longleftrightarrow> c_string t \<and> platform_ok P (9000 + 6 * length t) \<and> texts_ok P ts"
  "texts_ok P (ts @ us) \<longleftrightarrow> texts_ok P ts \<and> texts_ok P us"
  by (auto simp: texts_ok_def)

lemma partial_msgs_simps [simp]:
  "partial_msgs [] = []" "partial_msgs (t # ts) = transcript_msg t True # partial_msgs ts"
  "partial_msgs (ts @ us) = partial_msgs ts @ partial_msgs us"
  by (simp_all add: partial_msgs_def)

subsection \<open>The server\<close>

text \<open>\<open>sent s bs s'\<close>: the session wrote \<open>bs\<close>, and its control fields are as they were.\<close>

definition sent :: "'u session \<Rightarrow> byte list \<Rightarrow> 'u session \<Rightarrow> bool" where
  "sent s bs s' \<longleftrightarrow>
     session_tx s' = session_tx s @ bs \<and> session_writable s' = session_writable s \<and>
     s_stop s' = s_stop s \<and> s_live s' = s_live s"

lemma sent_trans [trans]: "sent s bs s1 \<Longrightarrow> sent s1 cs s2 \<Longrightarrow> sent s (bs @ cs) s2"
  by (simp add: sent_def)

lemma only_received_sent: "only_received s s' \<Longrightarrow> sent s [] s'"
  by (simp add: sent_def only_received_def)

lemma sent_transcript:
  assumes "c_string t" and "platform_ok P (9000 + 6 * length t)" and "session_writable s"
  shows "sent s (frame P (transcript_msg t partial)) (send P (transcript_event P t partial) s)"
  using send_ok [OF transcript_msg_sendable(1) [OF assms(1,2)] assms(3)] assms(3)
    transcript_msg_sendable(2) [OF assms(1,2)]
  by (simp add: sent_def)

lemma process_chunk_ok:
  assumes "process c (Some (samples_of p)) fmt False (s_world s) = (res, w)"
    and "texts_ok P (said res)" and "session_writable s"
  defines "s' \<equiv> process_chunk P process c fmt p s"
  shows "sent s (frames P (partial_msgs (said res))) s'" "s_world s' = w"
    "pending (s_io s') = pending (s_io s)"
proof -
  obtain rc t where res: "res = (rc, t)" by force
  let ?s1 = "acquire t (s\<lparr>s_world := w\<rparr>)"
  have w1: "session_writable ?s1" using assms(3) by simp
  show "sent s (frames P (partial_msgs (said res))) s'"
  proof (cases "\<exists>x. t = Some x \<and> rc = WYOMING_OK \<and> x \<noteq> []")
    case True
    then obtain x where x: "t = Some x" "rc = WYOMING_OK" "x \<noteq> []" by blast
    then have "c_string x" "platform_ok P (9000 + 6 * length x)"
      using assms(2) by (simp_all add: res said_def)
    from sent_transcript [OF this w1, of True] x assms(1) show ?thesis
      by (simp add: s'_def process_chunk_def res said_def sent_def acquire_def release_def
          session_tx_def session_writable_def)
  next
    case False
    then show ?thesis
      using assms(1,3)
      by (cases t) (auto simp: s'_def process_chunk_def res said_def sent_def Let_def)
  qed
  show "s_world s' = w" "pending (s_io s') = pending (s_io s)"
    using assms(1) by (simp_all add: s'_def process_chunk_def res Let_def split: option.split)
qed

definition stream_chunks :: "audio_format \<Rightarrow> sample list list \<Rightarrow> event list" where
  "stream_chunks fmt zss = map (\<lambda>zs. chunk_msg fmt (samples_bytes zs)) zss"

definition segments_ok :: "platform \<Rightarrow> sample list list \<Rightarrow> bool" where
  "segments_ok P zss \<longleftrightarrow> list_all (\<lambda>zs. zs \<noteq> [] \<and> platform_ok P (9000 + 2 * length zs)) zss"

lemma segments_ok_Cons [simp]:
  "segments_ok P (zs # zss) \<longleftrightarrow> zs \<noteq> [] \<and> platform_ok P (9000 + 2 * length zs) \<and> segments_ok P zss"
  by (auto simp: segments_ok_def)

lemma segment_sendable:
  assumes "format_ok fmt" and "zs \<noteq> []" and "platform_ok P (9000 + 2 * length zs)"
  shows "sendable P (chunk_msg fmt (samples_bytes zs))"
proof -
  have "samples_bytes zs \<noteq> []" using assms(2) by (metis length_0_conv length_samples_bytes mult_eq_0_iff zero_neq_numeral)
  moreover have "platform_ok P (200 + length (samples_bytes zs))"
    by (rule platform_ok_mono [OF assms(3)]) simp
  ultimately show ?thesis
    using audio_msgs_wf(2) [OF assms(1)] audio_msgs_room(2) [OF assms(1)] by (simp add: sendable_def)
qed

text \<open>The two events that end a stream.\<close>

definition ends_stream :: "string \<Rightarrow> bool" where
  "ends_stream stop \<longleftrightarrow> stop \<in> {WYOMING_EVENT_AUDIO_STOP, WYOMING_EVENT_TRANSCRIBE_STOP}"

lemma stop_sendable: "platform_ok P 9000 \<Longrightarrow> ends_stream stop \<Longrightarrow> sendable P (bare_msg stop)"
  by (rule audio_sendable(3) [of default_format])
    (auto simp: ends_stream_def format_ok_def default_format_def)

lemma stream_audio_feeds:
  assumes "format_ok fmt" and "sendable P (bare_msg stop)" and "ends_stream stop"
  shows "segments_ok P zss \<Longrightarrow>
     pending (s_io s) = frames P (stream_chunks fmt zss @ [bare_msg stop]) @ rest \<Longrightarrow>
     feed process c fmt' zss (s_world s) = (ts, w) \<Longrightarrow> texts_ok P ts \<Longrightarrow>
     session_writable s \<Longrightarrow> s_stop s = None \<Longrightarrow>
     \<exists>s'. stream_audio P process c fmt' s = (True, s') \<and> sent s (frames P (partial_msgs ts)) s' \<and>
       pending (s_io s') = rest \<and> s_world s' = w"
proof (induction zss arbitrary: s ts)
  case Nil
  then have "pending (s_io s) = frame P (bare_msg stop) @ rest"
    by (simp add: stream_chunks_def)
  then obtain s' where s': "receive P s = (WYOMING_OK, bare_msg stop, s')"
    "pending (s_io s') = rest" "only_received s s'"
    by (rule receive_msg [OF assms(2)])
  then have "stream_audio P process c fmt' s = (True, s')"
    using Nil.prems(6) assms(3)
    by (auto simp: stream_audio.simps [of P process c fmt' s] check_running_None ends_stream_def)
  with Nil s' show ?case using only_received_sent [OF s'(3)] by (auto simp: only_received_def)
next
  case (Cons zs zss)
  let ?p = "samples_bytes zs"
  have zs: "sendable P (chunk_msg fmt ?p)"
    by (rule segment_sendable [OF assms(1)]) (use Cons.prems(1) in simp_all)
  have "pending (s_io s) = frame P (chunk_msg fmt ?p) @
      frames P (stream_chunks fmt zss @ [bare_msg stop]) @ rest"
    using Cons.prems(2) by (simp add: stream_chunks_def)
  then obtain s1 where s1: "receive P s = (WYOMING_OK, chunk_msg fmt ?p, s1)"
    "pending (s_io s1) = frames P (stream_chunks fmt zss @ [bare_msg stop]) @ rest"
    "only_received s s1"
    by (rule receive_msg [OF zs])
  obtain res w1 us where f: "process c (Some zs) fmt' False (s_world s) = (res, w1)"
    "feed process c fmt' zss w1 = (us, w)" "ts = said res @ us"
    using Cons.prems(3) by (auto split: prod.splits)
  let ?s2 = "process_chunk P process c fmt' ?p s1"
  have "process c (Some (samples_of ?p)) fmt' False (s_world s1) = (res, w1)"
    using f(1) s1(3) by (simp add: only_received_def)
  moreover have "texts_ok P (said res)" "texts_ok P us" using Cons.prems(4) f(3) by simp_all
  moreover have "session_writable s1" using s1(3) Cons.prems(5) by (simp add: only_received_def)
  ultimately have s2: "sent s1 (frames P (partial_msgs (said res))) ?s2" "s_world ?s2 = w1"
    "pending (s_io ?s2) = pending (s_io s1)"
    using process_chunk_ok [of process c ?p fmt' s1 res w1 P] by blast+
  have step: "stream_audio P process c fmt' s = stream_audio P process c fmt' ?s2"
    using s1(1) Cons.prems(1,6)
    by (simp add: stream_audio.simps [of P process c fmt' s] check_running_None)
  note before = sent_trans [OF only_received_sent [OF s1(3)] s2(1)]
  have "session_writable ?s2" "s_stop ?s2 = None"
    using before Cons.prems(5,6) by (simp_all add: sent_def)
  from Cons.IH [OF _ _ _ \<open>texts_ok P us\<close> this] Cons.prems(1) s1(2) s2(2,3) f(2)
  obtain s' where s': "stream_audio P process c fmt' ?s2 = (True, s')"
    "sent ?s2 (frames P (partial_msgs us)) s'" "pending (s_io s') = rest" "s_world s' = w"
    by auto
  with sent_trans [OF before s'(2)] step f(3) show ?case by simp
qed

lemma drain_event_ok:
  assumes "sendable P e" and "pending (s_io s) = frame P e @ rest"
  shows "sent s [] (drain_event P s)" "pending (s_io (drain_event P s)) = rest"
    "s_world (drain_event P s) = s_world s" "s_rcvtimeo (drain_event P s) = 30"
proof -
  have "pending (s_io (set_rcvtimeo 1 s)) = frame P e @ rest" using assms(2) by simp
  then obtain s' where s': "receive P (set_rcvtimeo 1 s) = (WYOMING_OK, e, s')"
    "pending (s_io s') = rest" "only_received (set_rcvtimeo 1 s) s'"
    by (rule receive_msg [OF assms(1)])
  then have "drain_event P s = set_rcvtimeo 30 s'" by (simp add: drain_event_def)
  with s' show "sent s [] (drain_event P s)" "pending (s_io (drain_event P s)) = rest"
    "s_world (drain_event P s) = s_world s" "s_rcvtimeo (drain_event P s) = 30"
    by (simp_all add: sent_def only_received_def set_rcvtimeo_def session_tx_def session_writable_def)
qed

text \<open>A stream and the event that follows its stop.\<close>

definition stream_request_with ::
  "event list \<Rightarrow> audio_format \<Rightarrow> sample list list \<Rightarrow> string option \<Rightarrow> event list" where
  "stream_request_with stops fmt zss language =
     [request_msg WYOMING_EVENT_TRANSCRIBE_START language, start_msg fmt False] @
     stream_chunks fmt zss @ stops"

definition stop_msgs :: "event list" where
  "stop_msgs = [bare_msg WYOMING_EVENT_AUDIO_STOP, bare_msg WYOMING_EVENT_TRANSCRIBE_STOP]"

definition stream_request :: "audio_format \<Rightarrow> sample list list \<Rightarrow> string option \<Rightarrow> event list" where
  "stream_request = stream_request_with stop_msgs"

definition stream_reply :: "string list \<Rightarrow> string \<Rightarrow> event list" where
  "stream_reply ts text = partial_msgs ts @ [transcript_msg text False]"

lemma run_stream_ok:
  assumes "format_ok fmt" and "platform_ok P 9000" and "segments_ok P zss"
    and "feed process c fmt zss (s_world s) = (ts, w1)" and "process c None fmt True w1 = (res, w2)"
    and "texts_ok P (ts @ [final_text res])" and "asr_stream_destroy srv = Some destroy"
    and "session_writable s" and "s_stop s = None"
    and "pending (s_io s) = frames P (stream_chunks fmt zss @ [bare_msg stop, e]) @ rest"
    and "ends_stream stop" and "sendable P e"
  defines "s' \<equiv> run_stream P srv process c fmt s"
  shows "session_tx s' = session_tx s @ frames P (stream_reply ts (final_text res))"
    "pending (s_io s') = rest" "s_world s' = destroy c w2" "s_live s' = s_live s - 1"
    "s_stop s' = None" "session_writable s'"
proof -
  note stop = stop_sendable [OF assms(2,11)]
  have "pending (s_io s) = frames P (stream_chunks fmt zss @ [bare_msg stop]) @ frame P e @ rest"
    using assms(10) by simp
  moreover have ts: "texts_ok P ts" "c_string (final_text res)"
    "platform_ok P (9000 + 6 * length (final_text res))" using assms(6) by simp_all
  ultimately obtain s1 where s1: "stream_audio P process c fmt s = (True, s1)"
    "sent s (frames P (partial_msgs ts)) s1"
    "pending (s_io s1) = frame P e @ rest" "s_world s1 = w1"
    using stream_audio_feeds [OF assms(1) stop assms(11) assms(3) _ assms(4) _ assms(8,9)] by blast
  obtain rc t where res: "res = (rc, t)" by force
  have reply: "(case t of None \<Rightarrow> [] | Some x \<Rightarrow> x) = final_text res" by (simp add: res final_text_def)
  let ?s2 = "acquire t (s1\<lparr>s_world := w2\<rparr>)"
  let ?s3 = "release t (send P (transcript_event P (final_text res) False) ?s2)"
  have "session_writable ?s2" using s1(2) assms(8) by (simp add: sent_def)
  from sent_transcript [OF ts(2,3) this, of False]
  have s3: "sent s1 (frame P (transcript_msg (final_text res) False)) ?s3"
    by (simp add: sent_def acquire_def release_def session_tx_def session_writable_def)
  have "pending (s_io ?s3) = frame P e @ rest" using s1(3) by simp
  note d = drain_event_ok [OF assms(12) this]
  have run: "s' = release (Some c) ((drain_event P ?s3)\<lparr>s_world := destroy c (s_world (drain_event P ?s3))\<rparr>)"
    using s1(1,4) assms(5,7) reply by (simp add: s'_def run_stream_def res Let_def)
  note all = sent_trans [OF s1(2) sent_trans [OF s3 d(1)]]
  show "session_tx s' = session_tx s @ frames P (stream_reply ts (final_text res))"
    using all by (simp add: run sent_def stream_reply_def)
  show "pending (s_io s') = rest" "s_world s' = destroy c w2" using d by (simp_all add: run)
  show "s_live s' = s_live s - 1" "s_stop s' = None" "session_writable s'"
    using all assms(8,9) by (simp_all add: run sent_def release_def session_writable_def)
qed

lemma step_streaming:
  assumes "asr_stream_create srv = Some create" and "asr_stream_process srv = Some process"
    and "asr_stream_destroy srv = Some destroy"
    and "create fmt (given_language language) (s_world s) = (Some c, w0)"
    and "feed process c fmt zss w0 = (ts, w1)" and "process c None fmt True w1 = (res, w2)"
    and "format_ok fmt" and "segments_ok P zss" and "opt_c_string language"
    and "texts_ok P (ts @ [final_text res])" and "platform_ok P (9000 + 6 * opt_length language)"
    and "session_writable s" and "s_stop s = None"
    and "pending (s_io s) = frames P (stream_request_with [bare_msg stop, e] fmt zss language) @ rest"
    and "ends_stream stop" and "sendable P e"
  shows "advances P srv s (frames P (stream_reply ts (final_text res))) (destroy c w2) rest"
proof -
  let ?req = "request_msg WYOMING_EVENT_TRANSCRIBE_START language"
  let ?l = "given_language language"
  let ?sound = "stream_chunks fmt zss @ [bare_msg stop, e]"
  have p0: "platform_ok P 9000" by (rule platform_ok_mono [OF assms(11)]) simp
  have req: "sendable P ?req" by (rule request_msg_sendable(1) [OF _ _ assms(9,11)]) simp_all
  obtain s1 where s1: "receive P s = (WYOMING_OK, ?req, s1)"
    "pending (s_io s1) = frame P (start_msg fmt False) @ frames P ?sound @ rest" "only_received s s1"
    by (rule receive_msg [OF req]) (use assms(14) in \<open>simp_all add: stream_request_with_def\<close>)
  let ?s2 = "acquire ?l s1"
  have "pending (s_io ?s2) = frame P (start_msg fmt False) @ frames P ?sound @ rest" using s1(2) by simp
  then obtain s3 where s3: "receive_start P ?s2 = (Some fmt, s3)"
    "pending (s_io s3) = frames P ?sound @ rest" "only_received ?s2 s3"
    by (rule receive_start_ok [OF assms(7) p0])
  let ?s4 = "release ?l (acquire (Some c) (s3\<lparr>s_world := w0\<rparr>))"
  let ?s5 = "run_stream P srv process c fmt ?s4"
  have s4: "session_writable ?s4" "s_stop ?s4 = None" "pending (s_io ?s4) = frames P ?sound @ rest"
    and tx: "session_tx ?s4 = session_tx s1" "session_writable ?s4 = session_writable s1"
    using s1(3) s3(2,3) assms(12,13) by (simp_all add: only_received_def)
  have live: "s_live ?s4 = s_live s1 + 1" and world: "s_world ?s4 = w0"
    using s3(3) by (simp_all add: only_received_def acquire_def release_def)
  have "feed process c fmt zss (s_world ?s4) = (ts, w1)" using assms(5) world by simp
  note run = run_stream_ok [where srv = srv, OF assms(7) p0 assms(8) this assms(6,10,3) s4 assms(15,16)]
  have "handle_transcribe_start P srv ?req s1 = Continue ?s5"
    using assms(1,2,4) s1(3) s3 request_language_msg [OF assms(11)]
    by (simp add: handle_transcribe_start_def Let_def only_received_def)
  then have "dispatch P srv ?req s1 = Continue ?s5" by (simp add: dispatch_def request_msg_def)
  from advances_step [OF s1(1,3) assms(13) this] run tx live s4(1) show ?thesis by simp
qed

lemma serve_streaming:
  assumes "asr_stream_create srv = Some create" and "asr_stream_process srv = Some process"
    and "asr_stream_destroy srv = Some destroy"
    and "create fmt (given_language language) (s_world s) = (Some c, w0)"
    and "feed process c fmt zss w0 = (ts, w1)" and "process c None fmt True w1 = (res, w2)"
    and "format_ok fmt" and "segments_ok P zss" and "opt_c_string language"
    and "texts_ok P (ts @ [final_text res])" and "platform_ok P (9000 + 6 * opt_length language)"
    and "session_writable s" and "s_stop s = None"
    and "pending (s_io s) = frames P (stream_request_with [bare_msg stop, e] fmt zss language)"
    and "ends_stream stop" and "sendable P e"
  shows "session_tx (handle_client P srv s) = session_tx s @ frames P (stream_reply ts (final_text res)) \<and>
     s_world (handle_client P srv s) = destroy c w2 \<and> s_live (handle_client P srv s) = s_live s"
  by (rule advances_end [OF step_streaming [OF assms(1-13) _ assms(15,16)] line_room_platform [OF assms(11)]])
     (simp add: assms(14))

subsection \<open>The client\<close>

text \<open>An application that streams: one call to start, one per chunk, one to stop; it gives up
  at the first error.\<close>

fun transcribe_chunks :: "platform \<Rightarrow> conn \<Rightarrow> audio_format \<Rightarrow> sample list list \<Rightarrow> wyoming_error \<times> conn" where
  "transcribe_chunks P conn fmt [] = (WYOMING_OK, conn)"
| "transcribe_chunks P conn fmt (zs # zss) =
     (case wyoming_transcribe_chunk P conn (Some zs) fmt of
        (rc, conn) \<Rightarrow> if rc \<noteq> WYOMING_OK then (rc, conn) else transcribe_chunks P conn fmt zss)"

definition transcribe_stream ::
  "platform \<Rightarrow> conn \<Rightarrow> audio_format \<Rightarrow> string option \<Rightarrow> sample list list \<Rightarrow>
     wyoming_error \<times> string option \<times> conn"
where
  "transcribe_stream P conn fmt language zss =
     (case wyoming_transcribe_start P conn fmt language of
        (rc, conn) \<Rightarrow>
          if rc \<noteq> WYOMING_OK then (rc, None, conn)
          else (case transcribe_chunks P conn fmt zss of
                  (rc, conn) \<Rightarrow>
                    if rc \<noteq> WYOMING_OK then (rc, None, conn)
                    else wyoming_transcribe_stop P conn))"

lemma transcribe_start_posts:
  assumes "format_ok fmt" and "opt_c_string language" and "platform_ok P (9000 + 6 * opt_length language)"
    and "writable (io_fd conn)"
  obtains conn' where "wyoming_transcribe_start P conn fmt language = (WYOMING_OK, conn')"
    and "posted P conn [request_msg WYOMING_EVENT_TRANSCRIBE_START language, start_msg fmt False] conn'"
    and "writable (io_fd conn')"
proof -
  have p0: "platform_ok P 9000" by (rule platform_ok_mono [OF assms(3)]) simp
  have req: "sendable P (request_msg WYOMING_EVENT_TRANSCRIBE_START language)"
    "request_event P WYOMING_EVENT_TRANSCRIBE_START language = request_msg WYOMING_EVENT_TRANSCRIBE_START language"
    by (rule request_msg_sendable [OF _ _ assms(2,3)]; simp)+
  obtain c1 where c1: "conn_write P conn (request_msg WYOMING_EVENT_TRANSCRIBE_START language) = (WYOMING_OK, c1)"
    "posted P conn [request_msg WYOMING_EVENT_TRANSCRIBE_START language] c1" "writable (io_fd c1)"
    by (rule conn_post [OF req(1) assms(4)])
  obtain c2 where c2: "conn_write P c1 (start_msg fmt False) = (WYOMING_OK, c2)"
    "posted P c1 [start_msg fmt False] c2" "writable (io_fd c2)"
    by (rule conn_post [OF audio_sendable(1) [OF assms(1) p0] c1(3)])
  have "wyoming_transcribe_start P conn fmt language = (WYOMING_OK, c2)"
    using c1(1) c2(1) req(2) audio_events_ok(1) [OF platform_mem [OF p0]]
    by (simp add: wyoming_transcribe_start_def)
  with posted_trans [OF c1(2) c2(2)] c2(3) that show thesis by simp
qed

lemma transcribe_chunks_post:
  assumes "format_ok fmt" and "platform_ok P 9000"
  shows "segments_ok P zss \<Longrightarrow> writable (io_fd conn) \<Longrightarrow>
     \<exists>conn'. transcribe_chunks P conn fmt zss = (WYOMING_OK, conn') \<and>
       posted P conn (stream_chunks fmt zss) conn' \<and> writable (io_fd conn')"
proof (induction zss arbitrary: conn)
  case Nil
  then show ?case by (simp add: posted_def stream_chunks_def)
next
  case (Cons zs zss)
  then have zs: "zs \<noteq> []" "platform_ok P (9000 + 2 * length zs)" "segments_ok P zss" by simp_all
  obtain c1 where c1: "conn_write P conn (chunk_msg fmt (samples_bytes zs)) = (WYOMING_OK, c1)"
    "posted P conn [chunk_msg fmt (samples_bytes zs)] c1" "writable (io_fd c1)"
    by (rule conn_post [OF segment_sendable [OF assms(1) zs(1,2)] Cons.prems(2)])
  have "malloc_ok P (2 * length zs)" by (rule platform_ok_malloc [OF zs(2)]) simp
  then have call: "wyoming_transcribe_chunk P conn (Some zs) fmt = (WYOMING_OK, c1)"
    using zs(1) c1(1) audio_events_ok(2) [OF platform_mem [OF assms(2)]]
    by (simp add: wyoming_transcribe_chunk_def)
  obtain c2 where "transcribe_chunks P c1 fmt zss = (WYOMING_OK, c2)"
    "posted P c1 (stream_chunks fmt zss) c2" "writable (io_fd c2)"
    using Cons.IH [OF zs(3) c1(3)] by blast
  with posted_trans [OF c1(2)] call show ?case by (fastforce simp: stream_chunks_def)
qed

text \<open>Partial transcripts are passed over; the final one is the result.\<close>

lemma await_final_reply:
  "texts_ok P ts \<Longrightarrow> texts_ok P [text] \<Longrightarrow>
     pending conn = frames P (stream_reply ts text) @ rest \<Longrightarrow>
     \<exists>conn'. await_final P conn l = (WYOMING_OK, Some text, conn') \<and> pending conn' = rest"
proof (induction ts arbitrary: conn l)
  case Nil
  then have t: "c_string text" "platform_ok P (9000 + 6 * length text)" by simp_all
  have "pending conn = frame P (transcript_msg text False) @ rest" using Nil.prems(3) by (simp add: stream_reply_def)
  then obtain conn' where "wyoming_event_read_iobuf P conn = (WYOMING_OK, transcript_msg text False, conn')"
    "pending conn' = rest"
    by (rule conn_receive [OF transcript_msg_sendable(1) [OF t]])
  moreover have "malloc_ok P (length text + 1)" by (rule platform_ok_malloc [OF t(2)]) simp
  ultimately show ?case
    by (simp add: await_final.simps [of P conn] transcript_msg_def cjson_read strdup_def Let_def)
next
  case (Cons x ts)
  then have x: "c_string x" "platform_ok P (9000 + 6 * length x)" by simp_all
  have "pending conn = frame P (transcript_msg x True) @ frames P (stream_reply ts text) @ rest"
    using Cons.prems(3) by (simp add: stream_reply_def)
  then obtain c1 where c1: "wyoming_event_read_iobuf P conn = (WYOMING_OK, transcript_msg x True, c1)"
    "pending c1 = frames P (stream_reply ts text) @ rest"
    by (rule conn_receive [OF transcript_msg_sendable(1) [OF x]])
  have "await_final P conn l = await_final P c1 (strdup P x)"
    using c1(1) by (simp add: await_final.simps [of P conn] transcript_msg_def cjson_read Let_def)
  with Cons.IH [OF _ Cons.prems(2) c1(2)] Cons.prems(1) show ?case by simp
qed

lemma transcribe_stream_ok:
  assumes "format_ok fmt" and "opt_c_string language" and "platform_ok P (9000 + 6 * opt_length language)"
    and "segments_ok P zss" and "writable (io_fd conn)"
  obtains conn' where "transcribe_stream P conn fmt language zss = await_final P conn' None"
    and "posted P conn (stream_request fmt zss language) conn'"
proof -
  have p0: "platform_ok P 9000" by (rule platform_ok_mono [OF assms(3)]) simp
  note ev = audio_events_ok(3) [OF platform_mem [OF p0]]
  have stop: "sendable P (bare_msg WYOMING_EVENT_AUDIO_STOP)"
    "sendable P (bare_msg WYOMING_EVENT_TRANSCRIBE_STOP)"
    by (rule audio_sendable(3) [OF assms(1) p0]; simp)+
  obtain c1 where c1: "wyoming_transcribe_start P conn fmt language = (WYOMING_OK, c1)"
    "posted P conn [request_msg WYOMING_EVENT_TRANSCRIBE_START language, start_msg fmt False] c1"
    "writable (io_fd c1)"
    by (rule transcribe_start_posts [OF assms(1-3,5)])
  obtain c2 where c2: "transcribe_chunks P c1 fmt zss = (WYOMING_OK, c2)"
    "posted P c1 (stream_chunks fmt zss) c2" "writable (io_fd c2)"
    using transcribe_chunks_post [OF assms(1) p0 assms(4) c1(3)] by blast
  obtain c3 where c3: "conn_write P c2 (bare_msg WYOMING_EVENT_AUDIO_STOP) = (WYOMING_OK, c3)"
    "posted P c2 [bare_msg WYOMING_EVENT_AUDIO_STOP] c3" "writable (io_fd c3)"
    by (rule conn_post [OF stop(1) c2(3)])
  obtain c4 where c4: "conn_write P c3 (bare_msg WYOMING_EVENT_TRANSCRIBE_STOP) = (WYOMING_OK, c4)"
    "posted P c3 [bare_msg WYOMING_EVENT_TRANSCRIBE_STOP] c4" "writable (io_fd c4)"
    by (rule conn_post [OF stop(2) c3(3)])
  have "transcribe_stream P conn fmt language zss = await_final P c4 None"
    using c1(1) c2(1) c3(1) c4(1) ev
    by (simp add: transcribe_stream_def wyoming_transcribe_stop_def)
  moreover have "posted P conn (stream_request fmt zss language) c4"
    using posted_trans [OF c1(2) posted_trans [OF c2(2) posted_trans [OF c3(2) c4(2)]]]
    by (simp add: stream_request_def stream_request_with_def stop_msgs_def)
  ultimately show thesis using that by blast
qed

end
