(* ===== verification/Wy_Safety.thy ===== *)
theory Wy_Safety
  imports Wy_Streaming
begin

text \<open>
  What the server does for an arbitrary client: whatever bytes arrive, in whatever portions,
  whether or not its writes succeed, and whenever the server is stopped, the read buffer stays
  within its bounds, the receive timeout is restored, and what the handler acquires it releases,
  but for one language string. If memory suffices and the engines keep to their contract, the
  connection's output is a sequence of well-formed frames, each of them whole unless its write
  failed.
\<close>

subsection \<open>Engines that keep to their contract\<close>

text \<open>An application's engine may fail and may do anything to its own world; its results are to be
  C strings that fit in memory, its formats \<^verbatim>\<open>int\<close>s, and a streaming engine needs a
  destructor.\<close>

definition text_ok :: "platform \<Rightarrow> string option \<Rightarrow> bool" where
  "text_ok P t = (case t of None \<Rightarrow> True | Some x \<Rightarrow> texts_ok P [x])"

definition engines_ok :: "platform \<Rightarrow> ('u, 'c) server \<Rightarrow> bool" where
  "engines_ok P srv \<longleftrightarrow>
     (\<forall>fn t v sp w. tts_fn srv = Some fn \<longrightarrow> format_ok (snd (snd (fst (fn t v sp w))))) \<and>
     (\<forall>fn zs fmt l w. asr_fn srv = Some fn \<longrightarrow> text_ok P (snd (fst (fn zs fmt l w)))) \<and>
     (\<forall>fn c zs fmt final w. asr_stream_process srv = Some fn \<longrightarrow>
        text_ok P (snd (fst (fn c zs fmt final w)))) \<and>
     (asr_stream_create srv \<noteq> None \<longrightarrow> asr_stream_destroy srv \<noteq> None)"

definition host_ok :: "platform \<Rightarrow> ('u, 'c) server \<Rightarrow> bool" where
  "host_ok P srv \<longleftrightarrow> platform_ok P 9000 \<and> server_room P srv \<and> event_room P (info_msg srv)"

lemma enginesD:
  assumes "engines_ok P srv"
  shows "tts_fn srv = Some fn \<Longrightarrow> fn t v sp w = ((rc, a, fmt), w') \<Longrightarrow> format_ok fmt"
    "asr_fn srv = Some afn \<Longrightarrow> afn zs fmt l w = ((rc, x), w') \<Longrightarrow> text_ok P x"
    "asr_stream_process srv = Some process \<Longrightarrow> process c ys fmt final w = ((rc, x), w') \<Longrightarrow> text_ok P x"
    "asr_stream_create srv = Some create \<Longrightarrow> asr_stream_destroy srv \<noteq> None"
  using assms unfolding engines_ok_def by (metis fst_conv snd_conv option.distinct(1))+

subsection \<open>One step and its effect\<close>

text \<open>What is on the wire: of each message all of its frame, or, when the write failed, the first
  bytes of it.\<close>

definition piece_ok :: "platform \<Rightarrow> event \<times> nat \<Rightarrow> bool" where
  "piece_ok P = (\<lambda>(e, k). sendable P e \<and> k \<le> length (frame P e))"

definition whole :: "platform \<Rightarrow> event \<times> nat \<Rightarrow> bool" where
  "whole P = (\<lambda>(e, k). k = length (frame P e))"

definition wire :: "platform \<Rightarrow> (event \<times> nat) list \<Rightarrow> byte list" where
  "wire P ps = concat (map (\<lambda>(e, k). take k (frame P e)) ps)"

lemma wire_simps [simp]: "wire P [] = []" "wire P (ps @ qs) = wire P ps @ wire P qs"
  by (simp_all add: wire_def)

lemma wire_whole: "list_all (whole P) ps \<Longrightarrow> wire P ps = frames P (map fst ps)"
  by (induction ps) (auto simp: wire_def whole_def frames_def)

text \<open>The pieces up to the first torn one are frames.\<close>

lemma wire_split:
  assumes "list_all (piece_ok P) ps"
  obtains es qs where "wire P ps = frames P es @ wire P qs" and "list_all (sendable P) es"
    and "list_all (piece_ok P) qs" and "qs \<noteq> [] \<longrightarrow> \<not> whole P (hd qs)" and "list_all (whole P) ps \<longrightarrow> qs = []"
proof
  let ?ws = "takeWhile (whole P) ps"
  have "wire P ps = wire P ?ws @ wire P (dropWhile (whole P) ps)" by (simp flip: wire_simps(2))
  moreover have "list_all (whole P) ?ws" by (auto simp: list_all_iff dest: set_takeWhileD)
  ultimately show "wire P ps = frames P (map fst ?ws) @ wire P (dropWhile (whole P) ps)" by (simp add: wire_whole)
  show "list_all (sendable P) (map fst ?ws)" "list_all (piece_ok P) (dropWhile (whole P) ps)"
    using assms by (auto simp: list_all_iff piece_ok_def dest!: set_takeWhileD set_dropWhileD)
  show "dropWhile (whole P) ps \<noteq> [] \<longrightarrow> \<not> whole P (hd (dropWhile (whole P) ps))" using hd_dropWhile by blast
  show "list_all (whole P) ps \<longrightarrow> dropWhile (whole P) ps = []" by (simp add: list_all_iff)
qed

text \<open>\<open>speaks P s s'\<close>: from \<open>s\<close> to \<open>s'\<close> the session sent messages, whole ones if no write fails.\<close>

definition speaks :: "platform \<Rightarrow> 'u session \<Rightarrow> 'u session \<Rightarrow> bool" where
  "speaks P s s' \<longleftrightarrow>
     (\<exists>ps. list_all (piece_ok P) ps \<and> session_tx s' = session_tx s @ wire P ps \<and>
        (session_writable s \<longrightarrow> list_all (whole P) ps)) \<and>
     (session_writable s \<longrightarrow> session_writable s')"

definition fit :: "platform \<Rightarrow> ('u, 'c) server \<Rightarrow> bool" where
  "fit P srv \<longleftrightarrow> engines_ok P srv \<and> host_ok P srv"

text \<open>\<open>serves P srv k s s'\<close>: from \<open>s\<close> to \<open>s'\<close> the session kept its buffer and its timeout in
  order and owns \<open>k\<close> things more; and it only spoke, if memory and engines are fit for it.\<close>

definition serves :: "platform \<Rightarrow> ('u, 'c) server \<Rightarrow> int \<Rightarrow> 'u session \<Rightarrow> 'u session \<Rightarrow> bool" where
  "serves P srv k s s' \<longleftrightarrow>
     (fit P srv \<longrightarrow> speaks P s s') \<and>
     (iobuf_ok (s_io s) \<longrightarrow> iobuf_ok (s_io s')) \<and>
     (s_rcvtimeo s = 30 \<longrightarrow> s_rcvtimeo s' = 30) \<and>
     s_live s' = s_live s + k"

lemma speaks_trans:
  assumes "speaks P s s1" and "speaks P s1 s2"
  shows "speaks P s s2"
proof -
  obtain ps qs where "list_all (piece_ok P) ps" "session_tx s1 = session_tx s @ wire P ps"
    "session_writable s \<longrightarrow> list_all (whole P) ps" "list_all (piece_ok P) qs"
    "session_tx s2 = session_tx s1 @ wire P qs" "session_writable s1 \<longrightarrow> list_all (whole P) qs"
    using assms by (auto simp: speaks_def)
  with assms show ?thesis unfolding speaks_def by (intro conjI exI [of _ "ps @ qs"]) auto
qed

lemma speaks_silent:
  "session_tx s' = session_tx s \<Longrightarrow> (session_writable s \<Longrightarrow> session_writable s') \<Longrightarrow> speaks P s s'"
  unfolding speaks_def by (intro conjI exI [of _ "[]"]) auto

lemma speaks_writable:
  assumes "speaks P s s'" and "session_writable s"
  obtains es where "list_all (sendable P) es" and "session_tx s' = session_tx s @ frames P es"
proof -
  obtain ps where "list_all (piece_ok P) ps" "session_tx s' = session_tx s @ wire P ps" "list_all (whole P) ps"
    using assms by (auto simp: speaks_def)
  then show thesis by (intro that [of "map fst ps"]) (auto simp: list_all_iff piece_ok_def wire_whole)
qed

lemma serves_trans [trans]:
  "serves P srv j s s1 \<Longrightarrow> serves P srv k s1 s2 \<Longrightarrow> serves P srv (j + k) s s2"
  unfolding serves_def by (auto intro: speaks_trans)

lemma serves_then: "serves P srv j s s1 \<Longrightarrow> serves P srv k s1 s2 \<Longrightarrow> j + k = n \<Longrightarrow> serves P srv n s s2"
  using serves_trans by blast

lemma serves_silent:
  "session_tx s' = session_tx s \<Longrightarrow> (session_writable s \<longrightarrow> session_writable s') \<Longrightarrow>
     (iobuf_ok (s_io s) \<longrightarrow> iobuf_ok (s_io s')) \<Longrightarrow> s_rcvtimeo s' = s_rcvtimeo s \<Longrightarrow>
     s_live s' = s_live s + k \<Longrightarrow> serves P srv k s s'"
  unfolding serves_def by (simp add: speaks_silent)

lemma serves_refl [simp]: "serves P srv 0 s s"
  by (rule serves_silent) simp_all

lemma serves_steps:
  "serves P srv 0 s (s\<lparr>s_world := w\<rparr>)"
  "serves P srv (case x of None \<Rightarrow> 0 | Some _ \<Rightarrow> 1) s (acquire x s)"
  "serves P srv (- (case x of None \<Rightarrow> 0 | Some _ \<Rightarrow> 1)) s (release x s)"
  "serves P srv 0 s (snd (check_running s))"
  by (rule serves_silent; simp add: acquire_def release_def session_tx_def session_writable_def
      check_running_def split: prod.split)+

lemma iobuf_ok_fd [simp]: "iobuf_ok (io\<lparr>io_fd := fd\<rparr>) = iobuf_ok io"
  by (simp add: iobuf_ok_def)

lemma send_buffer [simp]: "iobuf_ok (s_io (send P e s)) = iobuf_ok (s_io s)"
  by (simp add: send_def)

text \<open>A write that fails has sent less than the frame.\<close>

lemma send_speaks:
  assumes "sendable P e"
  shows "speaks P s (send P e s)"
proof -
  let ?fd = "io_fd (s_io s)"
  obtain rc fd' where w: "wyoming_event_write_fd P ?fd e = (rc, fd')" by force
  have e: "event_wf e" "event_room P e" using assms by (simp_all add: sendable_def)
  have tx: "session_tx s = tx ?fd" "session_tx (send P e s) = tx fd'"
    by (simp_all add: session_tx_def send_def w)
  consider (all) "tx fd' = tx ?fd @ frame P e"
    | (torn) k where "k < length (frame P e)" "tx fd' = tx ?fd @ take k (frame P e)" "WFail \<in> set (ws ?fd)"
    using write_fd_spec [OF e w] by auto
  then have "\<exists>ps. list_all (piece_ok P) ps \<and> session_tx (send P e s) = session_tx s @ wire P ps \<and>
      (session_writable s \<longrightarrow> list_all (whole P) ps)"
  proof cases
    case all
    then show ?thesis
      using assms by (intro exI [of _ "[(e, length (frame P e))]"]) (simp add: tx piece_ok_def whole_def wire_def)
  next
    case torn
    then show ?thesis
      using assms
      by (intro exI [of _ "[(e, k)]"])
        (simp add: tx piece_ok_def whole_def wire_def session_writable_def writable_def)
  qed
  then show ?thesis using send_ok(2) [OF assms] unfolding speaks_def by blast
qed

lemma serves_send: "(fit P srv \<Longrightarrow> sendable P e) \<Longrightarrow> serves P srv 0 s (send P e s)"
  unfolding serves_def by (simp add: send_speaks)

lemma receive_serves: "receive P s = (rc, e, s') \<Longrightarrow> serves P srv 0 s s'"
  using read_event_settles [of P "s_io s"]
  by (intro serves_silent)
    (auto simp: receive_def settles_def only_reads_def session_tx_def session_writable_def writable_def
      split: prod.splits)

lemma check_running_serves: "check_running s = (r, s') \<Longrightarrow> serves P srv 0 s s'"
  using serves_steps(4) [of P srv s] by simp

subsection \<open>Chains of steps\<close>

abbreviation amount :: "'a option \<Rightarrow> int" where
  "amount x \<equiv> (case x of None \<Rightarrow> 0 | Some _ \<Rightarrow> 1)"

lemma serves_more:
  assumes "serves P srv j s s1"
  shows "serves P srv j s (s1\<lparr>s_world := w\<rparr>)" "serves P srv (j + amount x) s (acquire x s1)"
    "serves P srv (j - amount x) s (release x s1)"
    "(fit P srv \<Longrightarrow> sendable P e) \<Longrightarrow> serves P srv j s (send P e s1)"
proof -
  show "serves P srv j s (s1\<lparr>s_world := w\<rparr>)" using serves_trans [OF assms serves_steps(1)] by simp
  show "serves P srv (j + amount x) s (acquire x s1)" by (rule serves_trans [OF assms serves_steps(2)])
  show "serves P srv (j - amount x) s (release x s1)"
    using serves_trans [OF assms serves_steps(3) [of P srv x s1]] by simp
  show "serves P srv j s (send P e s1)" if "fit P srv \<Longrightarrow> sendable P e"
    using serves_trans [OF assms serves_send [OF that]] by simp
qed

text \<open>What the server sends, if all is fit.\<close>

lemma fitD:
  assumes "fit P srv"
  shows "platform_ok P 9000" "engines_ok P srv" "sendable P (info_event P srv)"
  using assms info_msg_sendable [of P srv] by (simp_all add: fit_def host_ok_def)

lemma audio_fit:
  assumes "fit P srv" and "format_ok fmt"
  shows "sendable P (audio_start_event P fmt True)"
    and "p \<noteq> [] \<Longrightarrow> length p \<le> 8192 \<Longrightarrow> sendable P (audio_chunk_event P fmt p)"
    and "sendable P (bare_event P WYOMING_EVENT_AUDIO_STOP)"
proof -
  note p = fitD(1) [OF assms(1)]
  note msgs = audio_sendable [OF assms(2) p] and ev = audio_events_ok [OF platform_mem [OF p]]
  show "sendable P (audio_start_event P fmt True)" using msgs(1) ev(1) by simp
  show "sendable P (audio_chunk_event P fmt p)" if "p \<noteq> []" "length p \<le> 8192"
    using msgs(2) [OF that] ev(2) that(1) by simp
  have "sendable P (bare_msg WYOMING_EVENT_AUDIO_STOP)" by (rule msgs(3)) simp_all
  then show "sendable P (bare_event P WYOMING_EVENT_AUDIO_STOP)" using ev(3) by simp
qed

lemma transcript_fit:
  assumes "fit P srv" and "text_ok P (Some t)"
  shows "sendable P (transcript_event P t partial)"
  using assms(2) transcript_msg_sendable [of t P] by (simp add: text_ok_def)

lemma empty_fit: "fit P srv \<Longrightarrow> text_ok P (Some [])"
  using fitD(1) by (simp add: text_ok_def)

lemma send_audio_serves:
  assumes "fit P srv \<Longrightarrow> format_ok fmt"
  shows "serves P srv 0 s (send_audio P fmt zs s)"
  using assms
proof (induction P fmt zs s rule: send_audio.induct)
  case (1 P fmt zs s)
  show ?case
  proof (cases "zs = []")
    case False
    let ?p = "samples_bytes (take AUDIO_CHUNK_SAMPLES zs)"
    have "?p \<in> set (server_pieces zs)" using server_pieces_rec [of zs] False by simp
    then have "?p \<noteq> []" "length ?p \<le> 8192" using server_pieces_bounds by auto
    then have "serves P srv 0 s (send P (audio_chunk_event P fmt ?p) s)"
      using "1.prems" audio_fit(2) by (intro serves_send) blast
    from serves_then [OF this "1.IH" [OF False "1.prems"]] False show ?thesis
      by (simp add: send_audio.simps [of P fmt zs s])
  qed (simp add: send_audio.simps)
qed

lemma handle_synthesize_serves: "serves P srv 0 s (handle_synthesize P srv e s)"
proof (cases "data_string (ev_data e) ''text''")
  case None
  then show ?thesis by (simp add: handle_synthesize_def Let_def)
next
  case data: (Some t)
  show ?thesis
  proof (cases "tts_fn srv")
    case None
    with data show ?thesis by (simp add: handle_synthesize_def Let_def)
  next
    case fn: (Some fn)
    let ?v = "cJSON_GetObjectItemCaseSensitive (ev_data e) ''voice''"
    obtain rc a fmt w where f: "fn t (if is_object ?v then data_string ?v ''name'' else None)
        (if is_object ?v then data_string ?v ''speaker'' else None) (s_world s) = ((rc, a, fmt), w)"
      by (metis surj_pair)
    have fmt: "format_ok fmt" if "fit P srv" by (rule enginesD(1) [OF fitD(2) [OF that] fn f])
    note got = serves_more(2) [OF serves_more(1) [OF serves_refl], of P srv a s w]
    have start: "serves P srv (0 + amount a) s
        (send P (audio_start_event P fmt True) (acquire a (s\<lparr>s_world := w\<rparr>)))"
      using fmt audio_fit(1) by (intro serves_more(4) [OF got]) blast
    have audio: "serves P srv (0 + amount a) s (send_audio P fmt zs
        (send P (audio_start_event P fmt True) (acquire a (s\<lparr>s_world := w\<rparr>))))" for zs
      using serves_trans [OF start send_audio_serves [of P srv fmt _ zs]] fmt by simp
    have stopped: "serves P srv (0 + amount a) s (send P (bare_event P WYOMING_EVENT_AUDIO_STOP)
        (send_audio P fmt zs (send P (audio_start_event P fmt True) (acquire a (s\<lparr>s_world := w\<rparr>)))))" for zs
      using fmt audio_fit(3) by (intro serves_more(4) [OF audio]) blast
    show ?thesis
      using data fn f got serves_more(3) [OF got, of a] serves_more(3) [OF stopped, of a]
      by (cases a) (simp_all add: handle_synthesize_def Let_def)
  qed
qed

lemma receive_start_serves: "receive_start P s = (f, s') \<Longrightarrow> serves P srv 0 s s'"
  by (auto simp: receive_start_def dest: receive_serves split: prod.splits if_splits)

lemma receive_audio_serves:
  "receive_audio P b s = (g, b', s') \<Longrightarrow> pcm_ok b \<Longrightarrow> serves P srv 0 s s' \<and> pcm_ok b'"
proof (induction P b s rule: receive_audio.induct)
  case (1 P b s)
  obtain r s1 where c: "check_running s = (r, s1)" by force
  obtain rc e s2 where rcv: "receive P s1 = (rc, e, s2)" by (cases "receive P s1")
  have s2: "serves P srv 0 s s2" using serves_trans [OF check_running_serves [OF c] receive_serves [OF rcv]] by simp
  note s1 = check_running_serves [OF c, of P srv]
  have more: "serves P srv 0 s2 s' \<and> pcm_ok b' \<Longrightarrow> serves P srv 0 s s' \<and> pcm_ok b'"
    using serves_trans [OF s2] by force
  note IH = "1.IH" [OF c [symmetric] _ rcv [symmetric] refl]
  show ?case
    using "1.prems" s1 s2 IH c rcv more pcm_append_Some(1)
    by (subst (asm) receive_audio.simps) (auto split: if_splits option.splits)
qed

lemma answer_transcribe_serves:
  assumes "asr_fn srv = Some fn"
  shows "serves P srv (- amount language) s (answer_transcribe P fn fmt language g b s)"
proof -
  obtain rc t w where f: "fn (pcm_samples b) fmt language (s_world s) = ((rc, t), w)" by (metis surj_pair)
  define reply where "reply = (case t of Some x \<Rightarrow> if rc = WYOMING_OK then x else [] | None \<Rightarrow> [])"
  have msg: "sendable P (transcript_event P reply False)" if fit: "fit P srv"
  proof -
    have "text_ok P t" by (rule enginesD(2) [OF fitD(2) [OF fit] assms f])
    then have "text_ok P (Some reply)" using empty_fit [OF fit] by (auto simp: reply_def split: option.split)
    then show ?thesis by (rule transcript_fit [OF fit])
  qed
  note got = serves_more(2) [OF serves_refl, of P srv "pcm b" s]
  note idle = serves_more(3) [OF serves_more(3) [OF got, of "pcm b"], of language]
  note call = serves_more(3) [OF serves_more(2) [OF serves_more(1) [OF got, of w], of t], of "pcm b"]
  note answered = serves_more(3) [OF serves_more(3) [OF serves_more(4) [OF call msg], of t], of language]
  show ?thesis
    using idle answered f by (simp add: answer_transcribe_def Let_def reply_def)
qed

subsection \<open>The branches of a connection\<close>

lemma handle_transcribe_serves:
  shows "handle_transcribe P srv e s = Continue s' \<Longrightarrow> serves P srv 0 s s'"
    and "handle_transcribe P srv e s = Break s' \<Longrightarrow>
       serves P srv (amount (request_language P e)) s s' \<and> asr_fn srv \<noteq> None"
proof -
  let ?l = "request_language P e"
  have s1: "serves P srv (amount ?l) s (acquire ?l s)" by (rule serves_steps(2))
  obtain f s2 where f: "receive_start P (acquire ?l s) = (f, s2)" by force
  have s2: "serves P srv (amount ?l) s s2" using serves_trans [OF s1 receive_start_serves [OF f]] by simp
  obtain g b s3 where g: "receive_audio P pcm_empty s2 = (g, b, s3)" by (metis surj_pair)
  have s3: "serves P srv (amount ?l) s s3"
    using serves_trans [OF s2, of 0 s3] receive_audio_serves [OF g, where srv = srv] by simp
  have s4: "serves P srv 0 s (answer_transcribe P fn fmt ?l g b s3)" if "asr_fn srv = Some fn" for fn fmt
    using serves_trans [OF s3 answer_transcribe_serves [where language = ?l, OF that]] by simp
  show "serves P srv 0 s s'" if "handle_transcribe P srv e s = Continue s'"
    using that f g s4 serves_more(3) [OF s1, of ?l]
    by (auto simp: handle_transcribe_def Let_def split: option.splits)
  show "serves P srv (amount ?l) s s' \<and> asr_fn srv \<noteq> None" if "handle_transcribe P srv e s = Break s'"
    using that f g s2 by (auto simp: handle_transcribe_def Let_def split: option.splits)
qed

lemma process_chunk_serves:
  assumes "asr_stream_process srv = Some process"
  shows "serves P srv 0 s (process_chunk P process c fmt p s)"
proof -
  obtain rc t w where f: "process c (Some (samples_of p)) fmt False (s_world s) = ((rc, t), w)"
    by (metis surj_pair)
  have t: "text_ok P t" if "fit P srv" by (rule enginesD(3) [OF fitD(2) [OF that] assms f])
  note got = serves_more(2) [OF serves_more(1) [OF serves_refl], of P srv t s w]
  note quiet = serves_more(3) [OF got, of t]
  have said: "serves P srv (0 + amount t) s (send P (transcript_event P x True) (acquire t (s\<lparr>s_world := w\<rparr>)))"
    if "t = Some x" for x
    using t that transcript_fit by (intro serves_more(4) [OF got]) blast
  show ?thesis
    using f quiet serves_more(3) [OF said, of _ t] by (cases t) (simp_all add: process_chunk_def Let_def)
qed

lemma stream_audio_serves:
  "stream_audio P process c fmt s = (g, s') \<Longrightarrow> asr_stream_process srv = Some process \<Longrightarrow> serves P srv 0 s s'"
proof (induction P process c fmt s rule: stream_audio.induct)
  case (1 P process c fmt s)
  obtain r s1 where c: "check_running s = (r, s1)" by force
  obtain rc e s2 where rcv: "receive P s1 = (rc, e, s2)" by (cases "receive P s1")
  note s1 = check_running_serves [OF c, of P srv]
  have s2: "serves P srv 0 s s2" using serves_trans [OF s1 receive_serves [OF rcv]] by simp
  have s3: "serves P srv 0 s2 (process_chunk P process c fmt (payload_text e) s2)"
    by (rule process_chunk_serves [OF "1.prems"(2)])
  have more: "serves P srv 0 s2 s' \<Longrightarrow> serves P srv 0 s s'" for s' using serves_trans [OF s2] by force
  have more2: "serves P srv 0 (process_chunk P process c fmt (payload_text e) s2) s' \<Longrightarrow> serves P srv 0 s s'"
    using serves_trans [OF s3] more by force
  note IH = "1.IH" [OF c [symmetric] _ rcv [symmetric] refl]
  show ?case
    using "1.prems" s1 s2 IH c rcv more more2
    by (subst (asm) stream_audio.simps) (auto split: if_splits)
qed

lemma drain_event_serves: "serves P srv 0 s (drain_event P s)"
proof -
  obtain rc e s1 where r: "receive P (set_rcvtimeo 1 s) = (rc, e, s1)" by (metis surj_pair)
  have "session_tx s1 = session_tx s" "session_writable s1 = session_writable s"
    "iobuf_ok (s_io s) \<longrightarrow> iobuf_ok (s_io s1)" "s_live s1 = s_live s"
    using r read_event_settles [of P "s_io s"]
    by (auto simp: receive_def settles_def only_reads_def session_tx_def session_writable_def writable_def
        set_rcvtimeo_def split: prod.splits)
  moreover have "drain_event P s = set_rcvtimeo 30 s1" by (simp only: drain_event_def r prod.case)
  ultimately show ?thesis
    unfolding serves_def
    by (auto simp: set_rcvtimeo_def session_tx_def session_writable_def intro: speaks_silent)
qed

lemma run_stream_serves:
  assumes "asr_stream_process srv = Some process" and "asr_stream_destroy srv = Some destroy"
  shows "serves P srv (- 1) s (run_stream P srv process c fmt s)"
proof -
  obtain g s1 where a: "stream_audio P process c fmt s = (g, s1)" by force
  have s1: "serves P srv 0 s s1" by (rule stream_audio_serves [OF a assms(1)])
  obtain rc t w where f: "process c None fmt True (s_world s1) = ((rc, t), w)" by (metis surj_pair)
  define reply where "reply = (case t of None \<Rightarrow> [] | Some x \<Rightarrow> x)"
  have msg: "sendable P (transcript_event P reply False)" if fit: "fit P srv"
  proof (rule transcript_fit [OF fit])
    show "text_ok P (Some reply)"
      using enginesD(3) [OF fitD(2) [OF fit] assms(1) f] empty_fit [OF fit] by (cases t) (simp_all add: reply_def)
  qed
  note got = serves_more(2) [OF serves_more(1) [OF s1, of w], of t]
  let ?s2 = "release t (send P (transcript_event P reply False) (acquire t (s1\<lparr>s_world := w\<rparr>)))"
  have s2: "serves P srv 0 s ?s2" using serves_more(3) [OF serves_more(4) [OF got msg], of t] by simp
  define s3 where "s3 = (if g then drain_event P ?s2 else ?s2)"
  have s3: "serves P srv 0 s s3" using s2 serves_trans [OF s2 drain_event_serves] by (simp add: s3_def)
  have "run_stream P srv process c fmt s = release (Some c) (s3\<lparr>s_world := destroy c (s_world s3)\<rparr>)"
    unfolding s3_def reply_def by (simp add: run_stream_def a f assms(2) Let_def)
  moreover have "serves P srv (- 1) s (release (Some c) (s3\<lparr>s_world := destroy c (s_world s3)\<rparr>))"
    using serves_more(3) [OF serves_more(1) [OF s3], of "Some c"] by simp
  ultimately show ?thesis by simp
qed

text \<open>A streaming engine comes with its destructor.\<close>

definition stream_closes :: "('u, 'c) server \<Rightarrow> bool" where
  "stream_closes srv \<longleftrightarrow> (asr_stream_create srv \<noteq> None \<longrightarrow> asr_stream_destroy srv \<noteq> None)"

lemma fit_closes: "fit P srv \<Longrightarrow> stream_closes srv"
  by (simp add: fit_def engines_ok_def stream_closes_def)

lemma handle_transcribe_start_serves:
  assumes "stream_closes srv"
  shows "serves P srv 0 s (session_of (handle_transcribe_start P srv e s))"
proof -
  let ?l = "request_language P e"
  have s1: "serves P srv (amount ?l) s (acquire ?l s)" by (rule serves_steps(2))
  have none: "serves P srv 0 s (release ?l (acquire ?l s))" using serves_more(3) [OF s1, of ?l] by simp
  obtain f s2 where f: "receive_start P (acquire ?l s) = (f, s2)" by force
  have s2: "serves P srv (amount ?l) s s2" using serves_trans [OF s1 receive_start_serves [OF f]] by simp
  have broken: "serves P srv 0 s (release ?l s2)" using serves_more(3) [OF s2, of ?l] by simp
  have run: "serves P srv 0 s (case ctx of None \<Rightarrow> release ?l (acquire ctx (s2\<lparr>s_world := w\<rparr>))
      | Some c \<Rightarrow> run_stream P srv process c fmt (release ?l (acquire ctx (s2\<lparr>s_world := w\<rparr>))))"
    if set: "asr_stream_create srv = Some create" "asr_stream_process srv = Some process"
    for create process ctx w fmt
  proof -
    have s3: "serves P srv (amount ctx) s (release ?l (acquire ctx (s2\<lparr>s_world := w\<rparr>)))"
      using serves_more(3) [OF serves_more(2) [OF serves_more(1) [OF s2, of w], of ctx], of ?l] by simp
    obtain destroy where d: "asr_stream_destroy srv = Some destroy"
      using assms set(1) by (auto simp: stream_closes_def)
    show ?thesis
    proof (cases ctx)
      case None
      with s3 show ?thesis by simp
    next
      case (Some c)
      with serves_trans [OF s3 run_stream_serves [OF set(2) d]] show ?thesis by simp
    qed
  qed
  consider (unset) "asr_stream_create srv = None \<or> asr_stream_process srv = None"
    | (set) create process where "asr_stream_create srv = Some create" "asr_stream_process srv = Some process"
    by (cases "asr_stream_create srv"; cases "asr_stream_process srv") auto
  then show ?thesis
  proof cases
    case unset
    with none show ?thesis by (auto simp: handle_transcribe_start_def Let_def split: option.split)
  next
    case set
    show ?thesis
    proof (cases f)
      case None
      with set f broken show ?thesis by (simp add: handle_transcribe_start_def Let_def)
    next
      case (Some fmt)
      obtain ctx w where c: "create fmt ?l (s_world s2) = (ctx, w)" by force
      from set f Some c run [OF set, of ctx w fmt] show ?thesis
        by (cases ctx) (simp_all add: handle_transcribe_start_def Let_def)
    qed
  qed
qed

text \<open>The whole connection. The one thing that may stay behind is the language string of a
  \<^verbatim>\<open>transcribe\<close> request whose audio never started.\<close>

lemma dispatch_serves:
  assumes "stream_closes srv"
  shows "\<exists>k \<in> {0, 1}. serves P srv k s (session_of (dispatch P srv e s)) \<and>
     (k = 0 \<or> asr_fn srv \<noteq> None \<and> (\<exists>s'. dispatch P srv e s = Break s'))"
proof -
  have describe: "serves P srv 0 s (send P (info_event P srv) s)" by (rule serves_send [OF fitD(3)])
  have transcribe: "\<exists>k \<in> {0, 1}. serves P srv k s (session_of (handle_transcribe P srv e s)) \<and>
     (k = 0 \<or> asr_fn srv \<noteq> None \<and> (\<exists>s'. handle_transcribe P srv e s = Break s'))"
  proof (cases "handle_transcribe P srv e s")
    case (Continue s')
    then show ?thesis using handle_transcribe_serves(1) by simp
  next
    case (Break s')
    from handle_transcribe_serves(2) [OF this] Break show ?thesis
      by (cases "request_language P e") auto
  qed
  show ?thesis
    using describe transcribe handle_synthesize_serves [of P srv s e] handle_transcribe_start_serves [OF assms]
    by (auto simp: dispatch_def)
qed

lemma handle_client_serves:
  "stream_closes srv \<Longrightarrow> \<exists>k \<in> {0, 1}. serves P srv k s (handle_client P srv s) \<and> (k = 0 \<or> asr_fn srv \<noteq> None)"
proof (induction P srv s rule: handle_client.induct)
  case (1 P srv s)
  obtain r s1 where c: "check_running s = (r, s1)" by force
  obtain rc e s2 where rcv: "receive P s1 = (rc, e, s2)" by (cases "receive P s1")
  note s1 = check_running_serves [OF c, of P srv]
  have s2: "serves P srv 0 s s2" using serves_trans [OF s1 receive_serves [OF rcv]] by simp
  obtain k where k: "k \<in> {0, 1}" "serves P srv k s2 (session_of (dispatch P srv e s2))"
    "k = 0 \<or> asr_fn srv \<noteq> None \<and> (\<exists>s'. dispatch P srv e s2 = Break s')"
    using dispatch_serves [OF "1.prems"] by blast
  have s3: "serves P srv k s (session_of (dispatch P srv e s2))" using serves_trans [OF s2 k(2)] by simp
  show ?case
  proof (cases "r \<and> rc = WYOMING_OK \<and> (\<exists>s3. dispatch P srv e s2 = Continue s3)")
    case True
    then obtain s4 where d: "dispatch P srv e s2 = Continue s4" by blast
    then have "k = 0" using k(3) by auto
    with s3 d have s4: "serves P srv 0 s s4" by simp
    have "handle_client P srv s = handle_client P srv s4"
      using True c rcv d by (subst handle_client.simps) simp
    moreover obtain j where "j \<in> {0, 1}" "serves P srv j s4 (handle_client P srv s4)" "j = 0 \<or> asr_fn srv \<noteq> None"
      using "1.IH" [OF c [symmetric] _ rcv [symmetric] refl _ d] True "1.prems" by blast
    ultimately show ?thesis using serves_trans [OF s4] by force
  next
    case False
    then show ?thesis
      using s1 s2 s3 k c rcv
      by (subst handle_client.simps, cases "dispatch P srv e s2") auto
  qed
qed

lemma handle_client_speaks:
  assumes "engines_ok P srv" and "host_ok P srv"
  shows "speaks P s (handle_client P srv s)"
proof -
  have "fit P srv" using assms by (simp add: fit_def)
  with handle_client_serves [OF fit_closes [OF this], of P s] show ?thesis by (auto simp: serves_def)
qed

text \<open>How the string stays behind: an event other than \<^verbatim>\<open>audio-start\<close> follows the
  request. The connection also ends there, without an answer.\<close>

lemma transcribe_break:
  assumes "asr_fn srv = Some fn" and "given_language language = Some l" and "opt_c_string language"
    and "platform_ok P (9000 + 6 * opt_length language)"
    and "sendable P e" and "ev_type e \<noteq> Some WYOMING_EVENT_AUDIO_START" and "s_stop s = None"
    and "pending (s_io s) = frames P [request_msg WYOMING_EVENT_TRANSCRIBE language, e] @ rest"
  defines "s' \<equiv> handle_client P srv s"
  shows "s_live s' = s_live s + 1 \<and> session_tx s' = session_tx s \<and> pending (s_io s') = rest"
proof -
  let ?req = "request_msg WYOMING_EVENT_TRANSCRIBE language"
  have req: "sendable P ?req" by (rule request_msg_sendable(1) [OF _ _ assms(3,4)]) simp_all
  obtain s1 where s1: "receive P s = (WYOMING_OK, ?req, s1)" "pending (s_io s1) = frame P e @ rest"
    "only_received s s1"
    by (rule receive_msg [OF req, of s "frame P e @ rest"]) (use assms(8) in simp_all)
  have lang: "request_language P ?req = Some l" using request_language_msg [OF assms(4)] assms(2) by simp
  let ?s2 = "acquire (Some l) s1"
  obtain s3 where s3: "receive P ?s2 = (WYOMING_OK, e, s3)" "pending (s_io s3) = rest" "only_received ?s2 s3"
    by (rule receive_msg [OF assms(5), of ?s2 rest]) (use s1(2) in simp_all)
  have "dispatch P srv ?req s1 = Break s3"
    using assms(1,6) lang s3(1)
    by (simp add: dispatch_def request_msg_def handle_transcribe_def receive_start_def Let_def)
  then have "s' = s3"
    using s1(1) assms(7) unfolding s'_def by (subst handle_client.simps) (simp add: check_running_None)
  with s1(3) s3(2,3) show ?thesis by (simp add: only_received_def acquire_def session_tx_def)
qed

subsection \<open>Events the server does not serve\<close>

definition served_types :: "string list" where
  "served_types = [WYOMING_EVENT_DESCRIBE, WYOMING_EVENT_SYNTHESIZE, WYOMING_EVENT_TRANSCRIBE,
     WYOMING_EVENT_TRANSCRIBE_START]"

definition not_served :: "event \<Rightarrow> bool" where
  "not_served e \<longleftrightarrow> (\<forall>type\<in>set served_types. ev_type e \<noteq> Some type)"

lemma step_ignored:
  assumes "sendable P e" and "not_served e" and "s_stop s = None" and "pending (s_io s) = frame P e @ rest"
  shows "advances P srv s [] (s_world s) rest"
proof -
  obtain s1 where s1: "receive P s = (WYOMING_OK, e, s1)" "pending (s_io s1) = rest" "only_received s s1"
    by (rule receive_msg [OF assms(1,4)])
  have "dispatch P srv e s1 = Continue s1"
    using assms(2) by (simp add: dispatch_def not_served_def served_types_def)
  from advances_step [OF s1(1,3) assms(3) this, of "[]"] s1(2,3) assms(3) show ?thesis
    by (simp add: only_received_def)
qed

lemma steps_ignored:
  "list_all (\<lambda>e. sendable P e \<and> not_served e) es \<Longrightarrow> s_stop s = None \<Longrightarrow>
     pending (s_io s) = frames P es @ rest \<Longrightarrow> advances P srv s [] (s_world s) rest"
proof (induction es arbitrary: s)
  case Nil
  then show ?case using advances_refl [of s P srv] by simp
next
  case (Cons e es)
  then have "advances P srv s [] (s_world s) (frames P es @ rest)"
    by (intro step_ignored [where e = e]) simp_all
  from advances_trans [OF this, of "[]" "s_world s" rest] Cons.IH Cons.prems(1) show ?case
    by (simp add: list_all_iff) metis
qed

end
