(* ===== verification/Wy_Conversation.thy ===== *)
theory Wy_Conversation
  imports Wy_Safety
begin

text \<open>
  A whole connection: any number of requests, of all the kinds the protocol has, one after the
  other. The specification knows no bytes, buffers or memory: a server answers a request with
  messages and moves its engines to another world. \<open>handle_client\<close> of \<^verbatim>\<open>src/server.c\<close>
  implements it.
\<close>

subsection \<open>Requests\<close>

datatype request =
    Describe
  | Synthesize string "string option"
  | Transcribe audio_format "sample list" "string option"
  | Stream audio_format "sample list list" "string option"
  | Other event

text \<open>What a client writes for them.\<close>

fun request_msgs :: "request \<Rightarrow> event list" where
  "request_msgs Describe = [bare_msg WYOMING_EVENT_DESCRIBE]"
| "request_msgs (Synthesize text voice) = [synthesize_msg text voice]"
| "request_msgs (Transcribe fmt zs language) = transcribe_upload fmt zs language"
| "request_msgs (Stream fmt zss language) = stream_request fmt zss language"
| "request_msgs (Other e) = [e]"

text \<open>Texts are C strings, sound is not empty, and there is memory for the messages.\<close>

fun request_ok :: "platform \<Rightarrow> request \<Rightarrow> bool" where
  "request_ok P Describe = True"
| "request_ok P (Synthesize text voice) =
     (c_string text \<and> opt_c_string voice \<and> platform_ok P (9000 + 6 * length text + 6 * opt_length voice))"
| "request_ok P (Transcribe fmt zs language) =
     (format_ok fmt \<and> zs \<noteq> [] \<and> opt_c_string language \<and> platform_ok P (9000 + 6 * opt_length language) \<and>
      pcm_room P 16000 (length zs))"
| "request_ok P (Stream fmt zss language) =
     (format_ok fmt \<and> segments_ok P zss \<and> opt_c_string language \<and>
      platform_ok P (9000 + 6 * opt_length language))"
| "request_ok P (Other e) = (sendable P e \<and> not_served e)"

subsection \<open>Answers\<close>

text \<open>A stream that is answered: the context, fed, finished and destroyed.\<close>

definition answer_stream ::
  "('u, 'c) stream_process_fn \<Rightarrow> ('u, 'c) stream_destroy_fn \<Rightarrow> 'c \<Rightarrow> audio_format \<Rightarrow> sample list list \<Rightarrow>
     'u \<Rightarrow> event list \<times> 'u" where
  "answer_stream process destroy c fmt zss w =
     (case feed process c fmt zss w of
        (ts, w) \<Rightarrow> (case process c None fmt True w of
                     (res, w) \<Rightarrow> (stream_reply ts (final_text res), destroy c w)))"

text \<open>A server without the engine, and an engine that fails to synthesize or to start, are
  silent: the client gets nothing.\<close>

fun answer :: "('u, 'c) server \<Rightarrow> 'u \<Rightarrow> request \<Rightarrow> event list \<times> 'u" where
  "answer srv w Describe = ([info_msg srv], w)"
| "answer srv w (Synthesize text voice) =
     (case tts_fn srv of
        None \<Rightarrow> ([], w)
      | Some fn \<Rightarrow>
          (case fn text voice None w of
             ((WYOMING_OK, Some zs, fmt), w) \<Rightarrow> (audio_reply fmt zs, w)
           | (_, w) \<Rightarrow> ([], w)))"
| "answer srv w (Transcribe fmt zs language) =
     (case asr_fn srv of
        None \<Rightarrow> ([], w)
      | Some fn \<Rightarrow>
          (case fn zs fmt (given_language language) w of
             (res, w) \<Rightarrow> ([transcript_msg (reply_text res) False], w)))"
| "answer srv w (Stream fmt zss language) =
     (case (asr_stream_create srv, asr_stream_process srv, asr_stream_destroy srv) of
        (Some create, Some process, Some destroy) \<Rightarrow>
          (case create fmt (given_language language) w of
             (None, w) \<Rightarrow> ([], w)
           | (Some c, w) \<Rightarrow> answer_stream process destroy c fmt zss w)
      | _ \<Rightarrow> ([], w))"
| "answer srv w (Other e) = ([], w)"

fun converse :: "('u, 'c) server \<Rightarrow> 'u \<Rightarrow> request list \<Rightarrow> event list \<times> 'u" where
  "converse srv w [] = ([], w)"
| "converse srv w (r # rs) =
     (case answer srv w r of (es, w) \<Rightarrow> (case converse srv w rs of (es', w) \<Rightarrow> (es @ es', w)))"

subsection \<open>One request\<close>

text \<open>Messages around a request that nobody serves.\<close>

lemma not_served_msgs [simp]:
  "not_served (start_msg fmt t)" "not_served (chunk_msg fmt p)"
  "not_served (bare_msg WYOMING_EVENT_AUDIO_STOP)" "not_served (bare_msg WYOMING_EVENT_TRANSCRIBE_STOP)"
  by (simp_all add: not_served_def served_types_def start_msg_def chunk_msg_def bare_msg_def)

lemma upload_ignored:
  assumes "format_ok fmt" and "platform_ok P 9000"
  shows "list_all (\<lambda>e. sendable P e \<and> not_served e) (upload fmt (client_pieces zs))"
proof -
  note msgs = audio_sendable [OF assms]
  have "sendable P (bare_msg WYOMING_EVENT_AUDIO_STOP)" by (rule msgs(3)) simp_all
  moreover have "sendable P (chunk_msg fmt p)" if "p \<in> set (client_pieces zs)" for p
    using client_pieces_bounds [OF that] msgs(2) by simp
  ultimately show ?thesis
    using msgs(1) by (simp add: upload_def list_all_iff)
qed

lemma stream_ignored:
  assumes "format_ok fmt" and "platform_ok P 9000" and "segments_ok P zss"
  shows "list_all (\<lambda>e. sendable P e \<and> not_served e) (stream_chunks fmt zss @ stop_msgs)"
    and "sendable P (start_msg fmt False) \<and> not_served (start_msg fmt False)"
proof -
  have "sendable P (bare_msg WYOMING_EVENT_AUDIO_STOP)" "sendable P (bare_msg WYOMING_EVENT_TRANSCRIBE_STOP)"
    by (rule stop_sendable [OF assms(2)]; simp add: ends_stream_def)+
  then show "list_all (\<lambda>e. sendable P e \<and> not_served e) (stream_chunks fmt zss @ stop_msgs)"
    using segment_sendable [OF assms(1)] assms(3)
    by (simp add: stream_chunks_def stop_msgs_def segments_ok_def list_all_iff)
  show "sendable P (start_msg fmt False) \<and> not_served (start_msg fmt False)"
    using audio_sendable(1) [OF assms(1,2)] by simp
qed

lemma advances_ignoring:
  assumes "advances P srv s bs w (frames P es @ rest)" and "list_all (\<lambda>e. sendable P e \<and> not_served e) es"
  shows "advances P srv s bs w rest"
proof -
  have "advances P srv s (bs @ []) w rest"
  proof (rule advances_trans [OF assms(1)])
    fix s' :: "'a session"
    assume "s_stop s' = None" "s_world s' = w" "pending (s_io s') = frames P es @ rest"
    with steps_ignored [OF assms(2), of s' rest srv] show "advances P srv s' [] w rest" by simp
  qed
  then show ?thesis by simp
qed

text \<open>A synthesis that fails.\<close>

lemma step_synthesize_fails:
  assumes "tts_fn srv = None \<and> w = s_world s \<or>
      (\<exists>fn rc audio fmt. tts_fn srv = Some fn \<and> fn text voice None (s_world s) = ((rc, audio, fmt), w) \<and>
         (rc \<noteq> WYOMING_OK \<or> audio = None))"
    and "request_ok P (Synthesize text voice)" and "s_stop s = None"
    and "pending (s_io s) = frame P (synthesize_msg text voice) @ rest"
  shows "advances P srv s [] w rest"
proof -
  have "sendable P (synthesize_msg text voice)" using assms(2) synthesize_msg_sendable by simp
  then obtain s1 where s1: "receive P s = (WYOMING_OK, synthesize_msg text voice, s1)"
    "pending (s_io s1) = rest" "only_received s s1"
    by (rule receive_msg [OF _ assms(4)])
  let ?s2 = "handle_synthesize P srv (synthesize_msg text voice) s1"
  have data: "data_string (ev_data (synthesize_msg text voice)) ''text'' = Some text"
    by (simp add: synthesize_msg_def data_string_def cjson_read)
  have v: "(if is_object v then data_string v ''name'' else None) = voice"
    "(if is_object v then data_string v ''speaker'' else None) = None"
    if "v = cJSON_GetObjectItemCaseSensitive (ev_data (synthesize_msg text voice)) ''voice''" for v
    unfolding that
    by (cases voice; simp add: synthesize_msg_def data_string_def cjson_read)+
  have w: "s_world s1 = s_world s" using s1(3) by (simp add: only_received_def)
  have "?s2 = s1 \<and> w = s_world s1 \<or> (\<exists>a :: sample list option. ?s2 = release a (acquire a (s1\<lparr>s_world := w\<rparr>)))"
  proof (cases "tts_fn srv")
    case None
    then show ?thesis using assms(1) data w by (simp add: handle_synthesize_def Let_def)
  next
    case (Some fn)
    then obtain rc audio fmt where f: "fn text voice None (s_world s1) = ((rc, audio, fmt), w)"
      "rc \<noteq> WYOMING_OK \<or> audio = None"
      using assms(1) w by auto
    have "?s2 = release audio (acquire audio (s1\<lparr>s_world := w\<rparr>))"
      using f data v [OF refl] Some
      by (cases audio) (simp_all add: handle_synthesize_def Let_def acquire_def release_def)
    then show ?thesis by blast
  qed
  then have "session_tx ?s2 = session_tx s1 @ []" "session_writable ?s2 = session_writable s1"
    "s_stop ?s2 = s_stop s1" "s_live ?s2 = s_live s1" "s_world ?s2 = w" "pending (s_io ?s2) = rest"
    using s1(2) by auto
  moreover have "s_stop s1 = None" using s1(3) assms(3) by (simp add: only_received_def)
  ultimately show ?thesis
    using advances_step [OF s1(1,3) assms(3) dispatch_synthesize, of srv "[]"] by simp
qed

text \<open>A transcription without an engine: the request and the sound are passed over.\<close>

lemma step_request_ignored:
  assumes "sendable P (request_msg type language)" and "s_stop s = None"
    and "pending (s_io s) = frame P (request_msg type language) @ frames P es @ rest"
    and "\<And>s'. dispatch P srv (request_msg type language) s' = Continue (release l (acquire l s'))"
    and "list_all (\<lambda>e. sendable P e \<and> not_served e) es"
  shows "advances P srv s [] (s_world s) rest"
proof -
  obtain s1 where s1: "receive P s = (WYOMING_OK, request_msg type language, s1)"
    "pending (s_io s1) = frames P es @ rest" "only_received s s1"
    by (rule receive_msg [OF assms(1,3)])
  have "advances P srv s [] (s_world s) (frames P es @ rest)"
    using advances_step [OF s1(1,3) assms(2,4), of "[]"] s1(2,3) assms(2) by (simp add: only_received_def)
  from advances_ignoring [OF this assms(5)] show ?thesis .
qed

lemma step_transcribe_none:
  assumes "asr_fn srv = None" and "request_ok P (Transcribe fmt zs language)" and "s_stop s = None"
    and "pending (s_io s) = frames P (transcribe_upload fmt zs language) @ rest"
  shows "advances P srv s [] (s_world s) rest"
proof (rule step_request_ignored [OF _ assms(3)])
  have p0: "platform_ok P 9000" using assms(2) by (auto intro: platform_ok_mono)
  show "sendable P (request_msg WYOMING_EVENT_TRANSCRIBE language)"
    by (rule request_msg_sendable(1)) (use assms(2) in simp_all)
  show "list_all (\<lambda>e. sendable P e \<and> not_served e) (upload fmt (client_pieces zs))"
    by (rule upload_ignored [OF _ p0]) (use assms(2) in simp)
  show "pending (s_io s) = frame P (request_msg WYOMING_EVENT_TRANSCRIBE language) @
      frames P (upload fmt (client_pieces zs)) @ rest"
    using assms(4) by (simp add: transcribe_upload_def)
  show "dispatch P srv (request_msg WYOMING_EVENT_TRANSCRIBE language) s' =
      Continue (release (given_language language) (acquire (given_language language) s'))" for s'
    using assms(1,2) request_language_msg [of P language]
    by (simp add: dispatch_def request_msg_def handle_transcribe_def Let_def)
qed

lemma step_stream_none:
  assumes "asr_stream_create srv = None \<or> asr_stream_process srv = None"
    and "request_ok P (Stream fmt zss language)" and "s_stop s = None"
    and "pending (s_io s) = frames P (stream_request fmt zss language) @ rest"
  shows "advances P srv s [] (s_world s) rest"
proof (rule step_request_ignored [OF _ assms(3)])
  have p0: "platform_ok P 9000" using assms(2) by (auto intro: platform_ok_mono)
  show "sendable P (request_msg WYOMING_EVENT_TRANSCRIBE_START language)"
    by (rule request_msg_sendable(1)) (use assms(2) in simp_all)
  show "list_all (\<lambda>e. sendable P e \<and> not_served e) (start_msg fmt False # stream_chunks fmt zss @ stop_msgs)"
    using stream_ignored [OF _ p0, of fmt zss] assms(2) by simp
  show "pending (s_io s) = frame P (request_msg WYOMING_EVENT_TRANSCRIBE_START language) @
      frames P (start_msg fmt False # stream_chunks fmt zss @ stop_msgs) @ rest"
    using assms(4) by (simp add: stream_request_def stream_request_with_def)
  show "dispatch P srv (request_msg WYOMING_EVENT_TRANSCRIBE_START language) s' =
      Continue (release (given_language language) (acquire (given_language language) s'))" for s'
    using assms(1,2) request_language_msg [of P language]
    by (cases "asr_stream_create srv"; cases "asr_stream_process srv")
       (simp_all add: dispatch_def request_msg_def handle_transcribe_start_def Let_def)
qed

text \<open>A stream whose context cannot be made.\<close>

lemma step_stream_refused:
  assumes "asr_stream_create srv = Some create" and "asr_stream_process srv \<noteq> None"
    and "create fmt (given_language language) (s_world s) = (None, w)"
    and "request_ok P (Stream fmt zss language)" and "s_stop s = None"
    and "pending (s_io s) = frames P (stream_request fmt zss language) @ rest"
  shows "advances P srv s [] w rest"
proof -
  let ?req = "request_msg WYOMING_EVENT_TRANSCRIBE_START language"
  let ?l = "given_language language"
  let ?tail = "stream_chunks fmt zss @ stop_msgs"
  have ok: "format_ok fmt" "segments_ok P zss" "opt_c_string language" "platform_ok P (9000 + 6 * opt_length language)"
    using assms(4) by simp_all
  have p0: "platform_ok P 9000" by (rule platform_ok_mono [OF ok(4)]) simp
  have req: "sendable P ?req" by (rule request_msg_sendable(1) [OF _ _ ok(3,4)]) simp_all
  obtain s1 where s1: "receive P s = (WYOMING_OK, ?req, s1)"
    "pending (s_io s1) = frame P (start_msg fmt False) @ frames P ?tail @ rest" "only_received s s1"
    by (rule receive_msg [OF req]) (use assms(6) in \<open>simp_all add: stream_request_def stream_request_with_def\<close>)
  let ?s2 = "acquire ?l s1"
  have "pending (s_io ?s2) = frame P (start_msg fmt False) @ frames P ?tail @ rest" using s1(2) by simp
  then obtain s3 where s3: "receive_start P ?s2 = (Some fmt, s3)" "pending (s_io s3) = frames P ?tail @ rest"
    "only_received ?s2 s3"
    by (rule receive_start_ok [OF ok(1) p0])
  let ?s4 = "release ?l (acquire (None :: 'b option) (s3\<lparr>s_world := w\<rparr>))"
  have "create fmt ?l (s_world s3) = (None, w)"
    using assms(3) s1(3) s3(3) by (simp add: only_received_def)
  then have "handle_transcribe_start P srv ?req s1 = Continue ?s4"
    using assms(1,2) s3(1) request_language_msg [OF ok(4)]
    by (auto simp: handle_transcribe_start_def Let_def)
  then have "dispatch P srv ?req s1 = Continue ?s4" by (simp add: dispatch_def request_msg_def)
  moreover have "session_tx ?s4 = session_tx s1 @ []" "session_writable ?s4 = session_writable s1"
    "s_stop ?s4 = None" "s_world ?s4 = w" "pending (s_io ?s4) = frames P ?tail @ rest"
    using s1(3) s3(2,3) assms(5) by (simp_all add: only_received_def)
  moreover have "s_live ?s4 = s_live s1"
    using s3(3) by (simp add: only_received_def acquire_def release_def)
  ultimately have "advances P srv s [] w (frames P ?tail @ rest)"
    using advances_step [OF s1(1,3) assms(5), of srv ?s4 "[]"] by simp
  from advances_ignoring [OF this stream_ignored(1) [OF ok(1) p0 ok(2)]] show ?thesis .
qed

subsection \<open>Any request\<close>

text \<open>What the engines say can be sent.\<close>

lemma feed_texts_ok:
  assumes "engines_ok P srv" and "asr_stream_process srv = Some process"
  shows "feed process c fmt zss w = (ts, w') \<Longrightarrow> texts_ok P ts"
proof (induction zss arbitrary: w ts)
  case (Cons zs zss)
  obtain res w1 us where f: "process c (Some zs) fmt False w = (res, w1)" "feed process c fmt zss w1 = (us, w')"
    "ts = said res @ us"
    using Cons.prems by (auto split: prod.splits)
  obtain rc x where res: "res = (rc, x)" by force
  have "text_ok P x" by (rule enginesD(3) [OF assms f(1) [unfolded res]])
  then have "texts_ok P (said res)" by (auto simp: res said_def text_ok_def split: option.split)
  with Cons.IH [OF f(2)] f(3) show ?case by simp
qed simp

lemma reply_text_ok:
  assumes "engines_ok P srv" and "asr_fn srv = Some fn" and "fn zs fmt l w = (res, w')" and "platform_ok P 9000"
  shows "c_string (reply_text res)" and "platform_ok P (9000 + 6 * length (reply_text res))"
proof -
  obtain rc x where res: "res = (rc, x)" by force
  have "text_ok P x" by (rule enginesD(2) [OF assms(1,2) assms(3) [unfolded res]])
  then show "c_string (reply_text res)" and "platform_ok P (9000 + 6 * length (reply_text res))"
    using assms(4) by (auto simp: res reply_text_def text_ok_def split: option.split)
qed

lemma step_stream:
  assumes "engines_ok P srv" and "request_ok P (Stream fmt zss language)"
    and "session_writable s" and "s_stop s = None"
    and "pending (s_io s) = frames P (stream_request fmt zss language) @ rest"
    and "answer srv (s_world s) (Stream fmt zss language) = (es, w)"
  shows "advances P srv s (frames P es) w rest"
proof (cases "asr_stream_create srv = None \<or> asr_stream_process srv = None")
  case True
  then have "es = []" "w = s_world s" using assms(6) by (auto split: option.splits)
  with step_stream_none [OF True assms(2,4,5)] show ?thesis by simp
next
  case False
  then obtain create process where eng: "asr_stream_create srv = Some create" "asr_stream_process srv = Some process"
    by auto
  obtain destroy where d: "asr_stream_destroy srv = Some destroy" using enginesD(4) [OF assms(1) eng(1)] by auto
  obtain c w0 where cr: "create fmt (given_language language) (s_world s) = (c, w0)" by force
  have ok: "format_ok fmt" "segments_ok P zss" "opt_c_string language" "platform_ok P (9000 + 6 * opt_length language)"
    using assms(2) by simp_all
  have p0: "platform_ok P 9000" by (rule platform_ok_mono [OF ok(4)]) simp
  show ?thesis
  proof (cases c)
    case None
    with cr eng d assms(6) have "es = []" "w = w0" by auto
    with step_stream_refused [OF eng(1) _ cr [unfolded None] assms(2,4,5)] eng(2) show ?thesis by simp
  next
    case (Some ctx)
    obtain ts w1 where f: "feed process ctx fmt zss w0 = (ts, w1)" by force
    obtain res w2 where fin: "process ctx None fmt True w1 = (res, w2)" by (metis surj_pair)
    obtain rc x where res: "res = (rc, x)" by force
    have "text_ok P x" by (rule enginesD(3) [OF assms(1) eng(2) fin [unfolded res]])
    then have "texts_ok P (ts @ [final_text res])"
      using feed_texts_ok [OF assms(1) eng(2) f] p0 by (auto simp: res final_text_def text_ok_def split: option.split)
    moreover have "pending (s_io s) = frames P (stream_request_with [bare_msg WYOMING_EVENT_AUDIO_STOP,
        bare_msg WYOMING_EVENT_TRANSCRIBE_STOP] fmt zss language) @ rest"
      using assms(5) by (simp add: stream_request_def stop_msgs_def)
    moreover have "es = stream_reply ts (final_text res)" "w = destroy ctx w2"
      using assms(6) eng d cr Some f fin by (auto simp: answer_stream_def)
    moreover have "sendable P (bare_msg WYOMING_EVENT_TRANSCRIBE_STOP)"
      by (rule stop_sendable [OF p0]) (simp add: ends_stream_def)
    moreover have "ends_stream WYOMING_EVENT_AUDIO_STOP" by (simp add: ends_stream_def)
    ultimately show ?thesis
      using step_streaming [OF eng d cr [unfolded Some] f fin ok(1-3) _ ok(4) assms(3,4)] by simp
  qed
qed

lemma step_request:
  assumes "engines_ok P srv" and "host_ok P srv" and "request_ok P r"
    and "session_writable s" and "s_stop s = None"
    and "pending (s_io s) = frames P (request_msgs r) @ rest" and "answer srv (s_world s) r = (es, w)"
  shows "advances P srv s (frames P es) w rest"
proof (cases r)
  case Describe
  with assms step_describe [of P srv s rest] show ?thesis by (auto simp: host_ok_def)
next
  case (Synthesize t voice)
  have p: "pending (s_io s) = frame P (synthesize_msg t voice) @ rest" using assms(6) Synthesize by simp
  show ?thesis
  proof (cases "tts_fn srv")
    case None
    with assms(7) Synthesize have "es = []" "w = s_world s" by simp_all
    with step_synthesize_fails [OF _ _ assms(5) p, of srv "s_world s"] None assms(3) Synthesize show ?thesis by simp
  next
    case (Some fn)
    obtain rc audio fmt w1 where f: "fn t voice None (s_world s) = ((rc, audio, fmt), w1)" by (metis surj_pair)
    show ?thesis
    proof (cases "rc = WYOMING_OK \<and> audio \<noteq> None")
      case True
      then obtain zs where zs: "rc = WYOMING_OK" "audio = Some zs" by auto
      with f Some assms(7) Synthesize have "es = audio_reply fmt zs" "w = w1" by auto
      moreover have "format_ok fmt" by (rule enginesD(1) [OF assms(1) Some f])
      ultimately show ?thesis
        using step_synthesize [OF Some _ _ _ _ _ p assms(4,5)] f zs assms(3) Synthesize by simp
    next
      case False
      with f Some assms(7) Synthesize have "es = []" "w = w1" by (auto split: wyoming_error.splits option.splits)
      with step_synthesize_fails [OF _ _ assms(5) p, of srv w1] f Some False assms(3) Synthesize show ?thesis by auto
    qed
  qed
next
  case (Transcribe fmt zs language)
  have p: "pending (s_io s) = frames P (transcribe_upload fmt zs language) @ rest" using assms(6) Transcribe by simp
  have ok: "format_ok fmt" "zs \<noteq> []" "opt_c_string language" "platform_ok P (9000 + 6 * opt_length language)"
    "pcm_room P 16000 (length zs)"
    using assms(3) Transcribe by simp_all
  show ?thesis
  proof (cases "asr_fn srv")
    case None
    with assms(7) Transcribe have "es = []" "w = s_world s" by simp_all
    with step_transcribe_none [OF None _ assms(5) p] assms(3) Transcribe show ?thesis by simp
  next
    case (Some fn)
    obtain res w1 where f: "fn zs fmt (given_language language) (s_world s) = (res, w1)" by (metis surj_pair)
    have "platform_ok P 9000" by (rule platform_ok_mono [OF ok(4)]) simp
    note t = reply_text_ok [OF assms(1) Some f this]
    from f Some assms(7) Transcribe have "es = [transcript_msg (reply_text res) False]" "w = w1" by auto
    with step_transcribe [OF Some f ok(1-3) t(1) ok(4) t(2) ok(5) assms(4,5) p] show ?thesis by simp
  qed
next
  case (Stream fmt zss language)
  with step_stream [OF assms(1) _ assms(4,5)] assms(3,6,7) show ?thesis by simp
next
  case (Other e)
  with step_ignored [of P e s rest srv] assms(3,5-7) show ?thesis by simp
qed

subsection \<open>All of them\<close>

lemma conversation_advances:
  assumes "engines_ok P srv" and "host_ok P srv"
  shows "list_all (request_ok P) rs \<Longrightarrow> session_writable s \<Longrightarrow> s_stop s = None \<Longrightarrow>
     pending (s_io s) = frames P (concat (map request_msgs rs)) @ rest \<Longrightarrow>
     converse srv (s_world s) rs = (es, w) \<Longrightarrow> advances P srv s (frames P es) w rest"
proof (induction rs arbitrary: s es)
  case Nil
  then show ?case using advances_refl [of s P srv] by simp
next
  case (Cons r rs)
  obtain es1 w1 es2 where a: "answer srv (s_world s) r = (es1, w1)" "converse srv w1 rs = (es2, w)" "es = es1 @ es2"
    using Cons.prems(5) by (auto split: prod.splits)
  have "advances P srv s (frames P es1) w1 (frames P (concat (map request_msgs rs)) @ rest)"
    by (rule step_request [OF assms _ Cons.prems(2,3) _ a(1)]) (use Cons.prems(1,4) in simp_all)
  then have "advances P srv s (frames P es1 @ frames P es2) w rest"
    by (rule advances_trans) (use Cons.IH Cons.prems(1,2) a(2) in simp)
  then show ?case by (simp add: a(3))
qed

lemma conversation:
  assumes "engines_ok P srv" and "host_ok P srv" and "list_all (request_ok P) rs"
    and "session_writable s" and "s_stop s = None"
    and "pending (s_io s) = frames P (concat (map request_msgs rs))"
    and "converse srv (s_world s) rs = (es, w)"
  shows "session_tx (handle_client P srv s) = session_tx s @ frames P es \<and>
    s_world (handle_client P srv s) = w \<and> s_live (handle_client P srv s) = s_live s"
proof -
  have room: "line_room P 1" using assms(2) line_room_platform by (auto simp: host_ok_def)
  have "advances P srv s (frames P es) w []"
    by (rule conversation_advances [OF assms(1-5) _ assms(7)]) (simp add: assms(6))
  from advances_end [OF this room] show ?thesis .
qed

end
