(* ===== verification/Wy_Calls.thy ===== *)
theory Wy_Calls
  imports Wy_Conversation
begin

text \<open>
  The other side of \<open>Wy_Conversation\<close>: a client that makes any number of calls on one
  connection. What it sends does not depend on what it gets; and what it gets, when the server
  answers every request, is the outcome that the specification gives each of them.
\<close>

subsection \<open>Calls and their outcomes\<close>

datatype outcome =
    Described wyoming_error wyoming_info
  | Sounded wyoming_error "sample list" audio_format
  | Heard wyoming_error "string option"
  | Sent wyoming_error

fun perform :: "platform \<Rightarrow> conn \<Rightarrow> request \<Rightarrow> outcome \<times> conn" where
  "perform P conn Describe =
     (case wyoming_describe P conn of (rc, info, conn) \<Rightarrow> (Described rc info, conn))"
| "perform P conn (Synthesize text voice) =
     (case wyoming_synthesize_pcm P conn (Some text) voice of
        (rc, audio, fmt, conn) \<Rightarrow> (Sounded rc (case audio of None \<Rightarrow> [] | Some zs \<Rightarrow> zs) fmt, conn))"
| "perform P conn (Transcribe fmt zs language) =
     (case wyoming_transcribe_pcm P conn (Some zs) fmt language of (rc, t, conn) \<Rightarrow> (Heard rc t, conn))"
| "perform P conn (Stream fmt zss language) =
     (case transcribe_stream P conn fmt language zss of (rc, t, conn) \<Rightarrow> (Heard rc t, conn))"
| "perform P conn (Other e) = (case conn_write P conn e of (rc, conn) \<Rightarrow> (Sent rc, conn))"

fun perform_all :: "platform \<Rightarrow> conn \<Rightarrow> request list \<Rightarrow> outcome list \<times> conn" where
  "perform_all P conn [] = ([], conn)"
| "perform_all P conn (r # rs) =
     (case perform P conn r of
        (x, conn) \<Rightarrow> (case perform_all P conn rs of (xs, conn) \<Rightarrow> (x # xs, conn)))"

text \<open>What a call is to return, \<open>None\<close> for a request that the server leaves unanswered: the call
  would take the next answer for its own.\<close>

fun outcome_of :: "('u, 'c) server \<Rightarrow> 'u \<Rightarrow> request \<Rightarrow> outcome option" where
  "outcome_of srv w Describe = Some (Described WYOMING_OK (info_of srv))"
| "outcome_of srv w (Synthesize text voice) =
     (case tts_fn srv of
        None \<Rightarrow> None
      | Some fn \<Rightarrow>
          (case fn text voice None w of
             ((WYOMING_OK, Some zs, fmt), w) \<Rightarrow> Some (Sounded WYOMING_OK zs fmt)
           | _ \<Rightarrow> None))"
| "outcome_of srv w (Transcribe fmt zs language) =
     (case asr_fn srv of
        None \<Rightarrow> None
      | Some fn \<Rightarrow> Some (Heard WYOMING_OK (Some (reply_text (fst (fn zs fmt (given_language language) w))))))"
| "outcome_of srv w (Stream fmt zss language) =
     (case (asr_stream_create srv, asr_stream_process srv) of
        (Some create, Some process) \<Rightarrow>
          (case create fmt (given_language language) w of
             (None, w) \<Rightarrow> None
           | (Some c, w) \<Rightarrow>
               Some (Heard WYOMING_OK (Some (final_text (fst (process c None fmt True (snd (feed process c fmt zss w))))))))
      | _ \<Rightarrow> None)"
| "outcome_of srv w (Other e) = Some (Sent WYOMING_OK)"

fun outcomes :: "('u, 'c) server \<Rightarrow> 'u \<Rightarrow> request list \<Rightarrow> outcome list option" where
  "outcomes srv w [] = Some []"
| "outcomes srv w (r # rs) =
     (case outcome_of srv w r of
        None \<Rightarrow> None
      | Some x \<Rightarrow> map_option ((#) x) (outcomes srv (snd (answer srv w r)) rs))"

text \<open>The client has memory for what the synthesizer makes.\<close>

definition tts_fits :: "platform \<Rightarrow> ('u, 'c) server \<Rightarrow> bool" where
  "tts_fits P srv \<longleftrightarrow>
     (\<forall>fn t v sp w zs fmt w'. tts_fn srv = Some fn \<longrightarrow> fn t v sp w = ((WYOMING_OK, Some zs, fmt), w') \<longrightarrow>
        pcm_room P 4096 (length zs))"

subsection \<open>What is sent\<close>

lemma posted_reads:
  assumes "posted P conn es conn1" and "only_reads conn1 conn'"
  shows "tx (io_fd conn') = tx (io_fd conn) @ frames P es \<and> writable (io_fd conn') = writable (io_fd conn)"
  using assms by (simp add: posted_def only_reads_def writable_def)

lemma perform_sends:
  assumes "platform_ok P 9000" and "request_ok P r" and "writable (io_fd conn)"
    and "perform P conn r = (x, conn')"
  shows "tx (io_fd conn') = tx (io_fd conn) @ frames P (request_msgs r) \<and> writable (io_fd conn') = writable (io_fd conn)"
proof (cases r)
  case Describe
  obtain c1 where c1: "conn_write P conn (bare_event P WYOMING_EVENT_DESCRIBE) = (WYOMING_OK, c1)"
    "posted P conn [bare_msg WYOMING_EVENT_DESCRIBE] c1"
    by (rule wyoming_describe_posts [OF assms(1,3)])
  obtain rc info where "wyoming_describe P conn = (rc, info, conn')"
    using assms(4) Describe by (auto split: prod.splits)
  from posted_reads [OF c1(2) wyoming_describe_only_reads [OF c1(1) this]] show ?thesis by (simp add: Describe)
next
  case (Synthesize t voice)
  then have ok: "c_string t" "opt_c_string voice" "platform_ok P (9000 + 6 * length t + 6 * opt_length voice)"
    using assms(2) by simp_all
  obtain c1 where c1: "wyoming_synthesize_pcm P conn (Some t) voice =
      collect_audio P c1 pcm_empty \<lparr>rate = 0, width = 0, channels = 0\<rparr> False"
    "posted P conn [synthesize_msg t voice] c1"
    by (rule wyoming_synthesize_pcm_posts [OF ok assms(3)])
  obtain rc a f where "collect_audio P c1 pcm_empty \<lparr>rate = 0, width = 0, channels = 0\<rparr> False = (rc, a, f, conn')"
    using assms(4) Synthesize c1(1) by (auto split: prod.splits)
  from posted_reads [OF c1(2) collect_audio_only_reads [OF this]] show ?thesis by (simp add: Synthesize)
next
  case (Transcribe fmt zs language)
  then have ok: "zs \<noteq> []" "format_ok fmt" "opt_c_string language" "platform_ok P (9000 + 6 * opt_length language)"
    using assms(2) by simp_all
  obtain c1 where c1: "wyoming_transcribe_pcm P conn (Some zs) fmt language = await_transcript P c1"
    "posted P conn (transcribe_upload fmt zs language) c1"
    by (rule wyoming_transcribe_pcm_posts [OF ok assms(3)])
  obtain rc t where "await_transcript P c1 = (rc, t, conn')"
    using assms(4) Transcribe c1(1) by (auto split: prod.splits)
  from posted_reads [OF c1(2) await_transcript_only_reads [OF this]] show ?thesis by (simp add: Transcribe)
next
  case (Stream fmt zss language)
  then have ok: "format_ok fmt" "opt_c_string language" "platform_ok P (9000 + 6 * opt_length language)"
    "segments_ok P zss"
    using assms(2) by simp_all
  obtain c1 where c1: "transcribe_stream P conn fmt language zss = await_final P c1 None"
    "posted P conn (stream_request fmt zss language) c1"
    by (rule transcribe_stream_ok [OF ok assms(3)])
  obtain rc t where "await_final P c1 None = (rc, t, conn')"
    using assms(4) Stream c1(1) by (auto split: prod.splits)
  from posted_reads [OF c1(2) await_final_only_reads [OF this]] show ?thesis by (simp add: Stream)
next
  case (Other e)
  then have "sendable P e" using assms(2) by simp
  then obtain c1 where "conn_write P conn e = (WYOMING_OK, c1)" "posted P conn [e] c1"
    by (rule conn_post [OF _ assms(3)])
  with assms(4) Other show ?thesis by (simp add: posted_def)
qed

lemma perform_all_sends:
  assumes "platform_ok P 9000"
  shows "list_all (request_ok P) rs \<Longrightarrow> writable (io_fd conn) \<Longrightarrow> perform_all P conn rs = (xs, conn') \<Longrightarrow>
     tx (io_fd conn') = tx (io_fd conn) @ frames P (concat (map request_msgs rs))"
proof (induction rs arbitrary: conn xs)
  case (Cons r rs)
  obtain x c1 ys where c: "perform P conn r = (x, c1)" "perform_all P c1 rs = (ys, conn')"
    using Cons.prems(3) by (auto split: prod.splits)
  have "request_ok P r" using Cons.prems(1) by simp
  note s = perform_sends [OF assms this Cons.prems(2) c(1)]
  from Cons.IH [OF _ _ c(2)] Cons.prems(1,2) s show ?case by simp
qed simp

subsection \<open>What is received\<close>

lemma perform_ok:
  assumes "engines_ok P srv" and "host_ok P srv" and "server_ok srv" and "tts_fits P srv"
    and "request_ok P r" and "outcome_of srv w r = Some x" and "answer srv w r = (es, w')"
    and "writable (io_fd conn)" and "pending conn = frames P es @ rest"
  shows "\<exists>conn'. perform P conn r = (x, conn') \<and> pending conn' = rest"
proof (cases r)
  case Describe
  have h: "platform_ok P 9000" "server_room P srv" "event_room P (info_msg srv)"
    using assms(2) by (simp_all add: host_ok_def)
  obtain c1 where c1: "conn_write P conn (bare_event P WYOMING_EVENT_DESCRIBE) = (WYOMING_OK, c1)"
    "posted P conn [bare_msg WYOMING_EVENT_DESCRIBE] c1"
    by (rule wyoming_describe_posts [OF h(1) assms(8)])
  have "pending c1 = frame P (info_msg srv) @ rest" using c1(2) assms(7,9) Describe by (auto simp: posted_def)
  from wyoming_describe_reads [OF assms(3) h(2,3) c1(1) this] show ?thesis using assms(6) Describe by auto
next
  case (Synthesize t voice)
  then have ok: "c_string t" "opt_c_string voice" "platform_ok P (9000 + 6 * length t + 6 * opt_length voice)"
    using assms(5) by simp_all
  obtain fn where fn: "tts_fn srv = Some fn" using assms(6) Synthesize by (auto split: option.splits)
  obtain rc a fmt w1 where run: "fn t voice None w = ((rc, a, fmt), w1)" by (metis surj_pair)
  obtain zs where f: "tts_fn srv = Some fn" "fn t voice None w = ((WYOMING_OK, Some zs, fmt), w1)"
    "x = Sounded WYOMING_OK zs fmt"
    using assms(6) Synthesize fn run by (auto split: option.splits wyoming_error.splits)
  have fmt: "format_ok fmt" by (rule enginesD(1) [OF assms(1) f(1,2)])
  have h: "platform_ok P 9000" using assms(2) by (simp add: host_ok_def)
  have fits: "pcm_room P 4096 (length zs)" using assms(4) f(1,2) unfolding tts_fits_def by blast
  obtain c1 where c1: "wyoming_synthesize_pcm P conn (Some t) voice =
      collect_audio P c1 pcm_empty \<lparr>rate = 0, width = 0, channels = 0\<rparr> False"
    "posted P conn [synthesize_msg t voice] c1"
    by (rule wyoming_synthesize_pcm_posts [OF ok assms(8)])
  have "pending c1 = frames P (audio_reply fmt zs) @ rest"
    using c1(2) assms(7,9) f(1,2) Synthesize by (auto simp: posted_def)
  from collect_reply [OF fmt h fits this, of "\<lparr>rate = 0, width = 0, channels = 0\<rparr>" False]
  obtain conn' b where "collect_audio P c1 pcm_empty \<lparr>rate = 0, width = 0, channels = 0\<rparr> False =
      (WYOMING_OK, pcm b, fmt, conn')" "pcm_samples b = zs" "pending conn' = rest"
    by blast
  then show ?thesis using c1(1) f(3) Synthesize by (simp add: pcm_samples_def)
next
  case (Transcribe fmt zs language)
  then have ok: "zs \<noteq> []" "format_ok fmt" "opt_c_string language" "platform_ok P (9000 + 6 * opt_length language)"
    using assms(5) by simp_all
  obtain fn where fn: "asr_fn srv = Some fn" using assms(6) Transcribe by (auto split: option.splits)
  obtain res w1 where f: "fn zs fmt (given_language language) w = (res, w1)" by (metis surj_pair)
  have h: "platform_ok P 9000" using assms(2) by (simp add: host_ok_def)
  note t = reply_text_ok [OF assms(1) fn f h]
  obtain c1 where c1: "wyoming_transcribe_pcm P conn (Some zs) fmt language = await_transcript P c1"
    "posted P conn (transcribe_upload fmt zs language) c1"
    by (rule wyoming_transcribe_pcm_posts [OF ok assms(8)])
  have "pending c1 = frame P (transcript_msg (reply_text res) False) @ rest"
    using c1(2) assms(7,9) fn f Transcribe by (auto simp: posted_def)
  from await_transcript_ok [OF transcript_msg_sendable(1) [OF t] t(2) this] show ?thesis
    using c1(1) assms(6) fn f Transcribe by auto
next
  case (Stream fmt zss language)
  then have ok: "format_ok fmt" "opt_c_string language" "platform_ok P (9000 + 6 * opt_length language)"
    "segments_ok P zss"
    using assms(5) by simp_all
  have h: "platform_ok P 9000" using assms(2) by (simp add: host_ok_def)
  obtain create process c w0 where eng: "asr_stream_create srv = Some create" "asr_stream_process srv = Some process"
    "create fmt (given_language language) w = (Some c, w0)"
    "x = Heard WYOMING_OK (Some (final_text (fst (process c None fmt True (snd (feed process c fmt zss w0))))))"
    using assms(6) Stream by (auto split: option.splits prod.splits)
  obtain destroy where d: "asr_stream_destroy srv = Some destroy"
    using enginesD(4) [OF assms(1) eng(1)] by auto
  obtain ts w1 where f: "feed process c fmt zss w0 = (ts, w1)" by force
  obtain rc y w2 where fin: "process c None fmt True w1 = ((rc, y), w2)" by (metis surj_pair)
  have y: "texts_ok P [final_text (rc, y)]"
    using enginesD(3) [OF assms(1) eng(2) fin] h by (auto simp: final_text_def text_ok_def split: option.split)
  obtain c1 where c1: "transcribe_stream P conn fmt language zss = await_final P c1 None"
    "posted P conn (stream_request fmt zss language) c1"
    by (rule transcribe_stream_ok [OF ok assms(8)])
  have "pending c1 = frames P (stream_reply ts (final_text (rc, y))) @ rest"
    using c1(2) assms(7,9) eng d f fin Stream by (auto simp: posted_def answer_stream_def)
  from await_final_reply [OF feed_texts_ok [OF assms(1) eng(2) f] y this, of None] show ?thesis
    using c1(1) eng f fin Stream by auto
next
  case (Other e)
  then have "sendable P e" using assms(5) by simp
  then obtain c1 where c1: "conn_write P conn e = (WYOMING_OK, c1)" "posted P conn [e] c1"
    by (rule conn_post [OF _ assms(8)])
  have "pending c1 = rest" using c1(2) assms(7,9) Other by (simp add: posted_def)
  then show ?thesis using c1(1) assms(6) Other by auto
qed

lemma perform_all_ok:
  assumes "engines_ok P srv" and "host_ok P srv" and "server_ok srv" and "tts_fits P srv"
  shows "list_all (request_ok P) rs \<Longrightarrow> outcomes srv w rs = Some xs \<Longrightarrow> converse srv w rs = (es, w') \<Longrightarrow>
     writable (io_fd conn) \<Longrightarrow> pending conn = frames P es @ rest \<Longrightarrow>
     \<exists>conn'. perform_all P conn rs = (xs, conn') \<and> pending conn' = rest"
proof (induction rs arbitrary: w xs es conn)
  case (Cons r rs)
  have h: "platform_ok P 9000" using assms(2) by (simp add: host_ok_def)
  have r: "request_ok P r" "list_all (request_ok P) rs" using Cons.prems(1) by simp_all
  obtain es1 w1 es2 where a: "answer srv w r = (es1, w1)" "converse srv w1 rs = (es2, w')" "es = es1 @ es2"
    using Cons.prems(3) by (auto split: prod.splits)
  obtain x ys where x: "outcome_of srv w r = Some x" "outcomes srv w1 rs = Some ys" "xs = x # ys"
    using Cons.prems(2) a(1) by (auto split: option.splits)
  have "pending conn = frames P es1 @ frames P es2 @ rest" using Cons.prems(5) a(3) by simp
  then obtain c1 where c1: "perform P conn r = (x, c1)" "pending c1 = frames P es2 @ rest"
    using perform_ok [OF assms r(1) x(1) a(1) Cons.prems(4)] by blast
  have "writable (io_fd c1)" using perform_sends [OF h r(1) Cons.prems(4) c1(1)] Cons.prems(4) by simp
  from Cons.IH [OF r(2) x(2) a(2) this c1(2)] c1(1) x(3) show ?case by auto
qed simp

subsection \<open>Both sides\<close>

lemma conversation_exchange:
  assumes "engines_ok P srv" and "host_ok P srv" and "server_ok srv" and "tts_fits P srv"
    and "list_all (request_ok P) rs" and "outcomes srv (s_world s) rs = Some xs"
    and "session_writable s" and "s_stop s = None" and "session_tx s = []"
    and "writable (io_fd conn)" and "tx (io_fd conn) = []"
    and "perform_all P conn rs = (ys, conn')"
    and "pending (s_io s) = tx (io_fd conn')"
    and "pending conn = session_tx (handle_client P srv s)"
  shows "ys = xs \<and> pending conn' = [] \<and>
     s_world (handle_client P srv s) = snd (converse srv (s_world s) rs) \<and>
     s_live (handle_client P srv s) = s_live s"
proof -
  obtain es w where c: "converse srv (s_world s) rs = (es, w)" by force
  have h: "platform_ok P 9000" using assms(2) by (simp add: host_ok_def)
  have "pending (s_io s) = frames P (concat (map request_msgs rs))"
    using perform_all_sends [OF h assms(5,10,12)] assms(11,13) by simp
  note served = conversation [OF assms(1,2,5,7,8) this c]
  then have "pending conn = frames P es @ []" using assms(9,14) by simp
  from perform_all_ok [OF assms(1-6) c assms(10) this] assms(12) served c show ?thesis by simp
qed

end
