(* ===== verification/Cjson_Safety.thy ===== *)
theory Cjson_Safety
  imports Cjson_Roundtrip
begin

text \<open>
  What \<^verbatim>\<open>cJSON_Parse\<close> can return for arbitrary input: a tree of bounded depth whose strings
  and keys are C strings.
\<close>

definition good_at :: "nat \<Rightarrow> cJSON \<Rightarrow> bool" where
  "good_at d v \<longleftrightarrow> json_wf v \<and> nested (CJSON_NESTING_LIMIT - d) v"

lemma good_at_leaf [simp]:
  "good_at d cJSON_NULL" "good_at d cJSON_True" "good_at d cJSON_False" "good_at d (cJSON_Number x)"
  "good_at d (cJSON_String s) = c_string s"
  by (simp_all add: good_at_def)

lemma good_at_node:
  assumes "d < CJSON_NESTING_LIMIT"
  shows "list_all (good_at (Suc d)) xs \<Longrightarrow> good_at d (cJSON_Array xs)"
    "list_all (\<lambda>(k, v). c_string k \<and> good_at (Suc d) v) kvs \<Longrightarrow> good_at d (cJSON_Object kvs)"
  using assms by (auto simp: good_at_def list_all_iff)

lemma parse_string_c_string: "parse_string P r = Some (s, q) \<Longrightarrow> c_string s"
  by (auto simp: parse_string_def split: list.splits option.splits if_splits)

lemma parse_number_good: "parse_number r = Some (v, q) \<Longrightarrow> good_at d v"
  by (auto simp: parse_number_def Let_def split: prod.splits if_splits)

lemma parse_good:
  "parse_value P d r = Some (v, q) \<Longrightarrow> good_at d v"
  "parse_elements P d r = Some (vs, q) \<Longrightarrow> list_all (good_at d) vs"
  "parse_members P d r = Some (kvs, q) \<Longrightarrow> list_all (\<lambda>(k, v). c_string k \<and> good_at d v) kvs"
proof (induction P d r and P d r and P d r arbitrary: v q and vs q and kvs q
    rule: parse_value_parse_elements_parse_members.induct)
  case (1 P d r)
  note res = "1.prems" [unfolded parse_value.simps [of P d r]]
  show ?case
  proof (cases "take 4 r = ''null'' \<or> take 5 r = ''false'' \<or> take 4 r = ''true''")
    case True
    with res show ?thesis by (auto split: if_splits)
  next
    case lit: False
    then obtain c t where r: "r = c # t" using res by (cases r) (auto split: if_splits)
    consider (str) s where "c = QUOTE" "parse_string P r = Some (s, q)" "v = cJSON_String s"
      | (num) "parse_number r = Some (v, q)"
      | (nil) "d < CJSON_NESTING_LIMIT" "v = cJSON_Array [] \<or> v = cJSON_Object []"
      | (arr) e u xs where "c = CHR ''[''" "d < CJSON_NESTING_LIMIT" "skip_whitespace t = e # u"
          "e \<noteq> CHR '']''" "parse_elements P (Suc d) (e # u) = Some (xs, q)" "v = cJSON_Array xs"
      | (obj) e u xs where "c = CHR ''{''" "d < CJSON_NESTING_LIMIT" "skip_whitespace t = e # u"
          "e \<noteq> CHR ''}''" "parse_members P (Suc d) (e # u) = Some (xs, q)" "v = cJSON_Object xs"
      using res lit r by (auto simp: not_le split: if_splits list.splits)
    then show ?thesis
    proof cases
      case str
      then show ?thesis using parse_string_c_string by simp
    next
      case num
      then show ?thesis by (rule parse_number_good)
    next
      case nil
      then show ?thesis using good_at_node(1) [OF nil(1), of "[]"] good_at_node(2) [OF nil(1), of "[]"] by auto
    next
      case arr
      then have "list_all (good_at (Suc d)) xs" using "1.IH"(1) lit r by (auto simp: isdigit_def)
      with arr good_at_node(1) show ?thesis by simp
    next
      case obj
      then have "list_all (\<lambda>(k, v). c_string k \<and> good_at (Suc d) v) xs"
        using "1.IH"(2) lit r by (auto simp: isdigit_def)
      with obj good_at_node(2) show ?thesis by simp
    qed
  qed
next
  case (2 P d r)
  note res = "2.prems" [unfolded parse_elements.simps [of P d r]]
  from res obtain v w c t where m: "malloc_ok P sizeof_cJSON"
    and v: "parse_value P d (skip_whitespace r) = Some (v, w)" and c: "skip_whitespace w = c # t"
    by (auto split: if_splits option.splits list.splits)
  have g: "good_at d v" using "2.IH"(1) m v by simp
  show ?case
  proof (cases "c = CHR '',''")
    case True
    with res m v c obtain us where us: "parse_elements P d t = Some (us, q)" "vs = v # us" by auto
    with "2.IH"(2) [OF _ v refl c True] m g show ?thesis by simp
  next
    case False
    with res m v c g show ?thesis by (auto split: if_splits)
  qed
next
  case (3 P d r)
  note res = "3.prems" [unfolded parse_members.simps [of P d r]]
  from res have m: "\<not> (\<not> malloc_ok P sizeof_cJSON \<or> r = [])" by (auto split: if_splits)
  obtain k w where k: "parse_string P (skip_whitespace r) = Some (k, w)"
    using res m by (cases "parse_string P (skip_whitespace r)") auto
  obtain c t where c: "skip_whitespace w = c # t"
    using res m k by (cases "skip_whitespace w") auto
  have colon: "\<not> c \<noteq> CHR '':''" using res m k c by (auto split: if_splits)
  obtain v y where v: "parse_value P d (skip_whitespace t) = Some (v, y)"
    using res m k c colon by (cases "parse_value P d (skip_whitespace t)") auto
  obtain e u where e: "skip_whitespace y = e # u"
    using res m k c colon v by (cases "skip_whitespace y") auto
  have g: "c_string k" "good_at d v"
    using parse_string_c_string [OF k] "3.IH"(1) [OF m k refl c colon v] by simp_all
  show ?case
  proof (cases "e = CHR '',''")
    case True
    with res m k c colon v e obtain us where us: "parse_members P d u = Some (us, q)" "kvs = (k, v) # us"
      by auto
    with "3.IH"(2) [OF m k refl c colon v refl e True us(1)] g show ?thesis by simp
  next
    case False
    with res m k c colon v e g show ?thesis by (auto split: if_splits)
  qed
qed

lemma cJSON_Parse_good: "cJSON_Parse P s = Some v \<Longrightarrow> json_wf v \<and> nested CJSON_NESTING_LIMIT v"
  using parse_good(1) [of P 0 "skip_whitespace (skip_utf8_bom (cstr s @ [NUL]))" v]
  by (auto simp: cJSON_Parse_def cJSON_ParseWithLengthOpts_def good_at_def
      split: if_splits option.splits prod.splits)

end
