(* ===== verification/Cjson_Minify.thy ===== *)
theory Cjson_Minify
  imports Cjson_Roundtrip
begin

text \<open>
  \<^verbatim>\<open>cJSON_Minify\<close> of \<^verbatim>\<open>src/cJSON/cJSON.c\<close>, which takes white space and comments out of
  a text in place. What is written stays behind what is read, so it is a function of the text.
  Minifying what the formatted printer gives yields what the unformatted one gives, as long as no
  string ends in a backslash: such a string is taken not to end.
\<close>

subsection \<open>The code\<close>

fun skip_oneline_comment :: "string \<Rightarrow> string" where
  "skip_oneline_comment [] = []"
| "skip_oneline_comment (c # t) = (if c = NL then t else skip_oneline_comment t)"

fun skip_multiline_comment :: "string \<Rightarrow> string" where
  "skip_multiline_comment [] = []"
| "skip_multiline_comment (c # t) =
     (if c = CHR ''*'' \<and> take 1 t = ''/'' then tl t else skip_multiline_comment t)"

text \<open>Behind the opening quote: what is copied, and what follows.\<close>

fun minify_string :: "string \<Rightarrow> string \<times> string" where
  "minify_string [] = ([], [])"
| "minify_string (c # t) =
     (if c = QUOTE then ([QUOTE], t)
      else case t of
             e # u \<Rightarrow>
               if c = BSL \<and> e = QUOTE
               then (case minify_string u of (copied, rest) \<Rightarrow> (BSL # QUOTE # copied, rest))
               else (case minify_string t of (copied, rest) \<Rightarrow> (c # copied, rest))
           | [] \<Rightarrow> ([c], []))"

lemma skip_oneline_length: "length (skip_oneline_comment t) \<le> length t"
  by (induction t) auto

lemma skip_multiline_length: "length (skip_multiline_comment t) \<le> length t"
  by (induction t) auto

lemma minify_string_length: "length (snd (minify_string t)) \<le> length t"
proof (induction t rule: minify_string.induct)
  case (2 c t)
  show ?case
  proof (cases t)
    case (Cons e u)
    with 2 show ?thesis
      by (cases "minify_string t"; cases "minify_string u") (auto split: if_splits)
  qed simp
qed simp

function cJSON_Minify :: "string \<Rightarrow> string" where
  "cJSON_Minify [] = []"
| "cJSON_Minify (c # t) =
     (if c \<in> {CHR '' '', CHR 0x09, CHR 0x0D, NL} then cJSON_Minify t
      else if c = CHR ''/'' then
        (if take 1 t = ''/'' then cJSON_Minify (skip_oneline_comment (tl t))
         else if take 1 t = ''*'' then cJSON_Minify (skip_multiline_comment (tl t))
         else cJSON_Minify t)
      else if c = QUOTE then
        (case minify_string t of (copied, rest) \<Rightarrow> QUOTE # copied @ cJSON_Minify rest)
      else c # cJSON_Minify t)"
  by pat_completeness auto
termination
proof (relation "measure length", goal_cases)
  case (3 c t)
  then show ?case using skip_oneline_length [of "tl t"] by simp
next
  case (4 c t)
  then show ?case using skip_multiline_length [of "tl t"] by simp
next
  case (6 c t x copied)
  then show ?case using minify_string_length [of t] by (metis le_imp_less_Suc length_Cons in_measure snd_conv)
qed simp_all

declare cJSON_Minify.simps(2) [simp del]

subsection \<open>Printed text\<close>

text \<open>Characters that are copied outside of strings.\<close>

definition kept :: "char \<Rightarrow> bool" where
  "kept c \<longleftrightarrow> 32 < code c \<and> c \<noteq> CHR ''/'' \<and> c \<noteq> QUOTE"

lemma minify_kept: "list_all kept s \<Longrightarrow> cJSON_Minify (s @ t) = s @ cJSON_Minify t"
  by (induction s) (auto simp: kept_def cJSON_Minify.simps(2))

definition layout :: "string \<Rightarrow> bool" where
  "layout s \<longleftrightarrow> set s \<subseteq> {CHR '' '', CHR 0x09, CHR 0x0D, NL}"

lemma layout_simps [simp]: "layout []" "layout (tabs n)" "layout [NL]" "layout '' ''"
  by (auto simp: layout_def tabs_def)

lemma minify_layout: "layout s \<Longrightarrow> cJSON_Minify (s @ t) = cJSON_Minify t"
  by (induction s) (auto simp: layout_def cJSON_Minify.simps(2))

lemma minify_punctuation:
  "cJSON_Minify (comma f @ t) = CHR '','' # cJSON_Minify t"
  "cJSON_Minify (brace f @ t) = CHR ''{'' # cJSON_Minify t"
  "cJSON_Minify (colon f @ t) = CHR '':'' # cJSON_Minify t"
  "cJSON_Minify (ending f False @ t) = CHR '','' # cJSON_Minify t"
  "cJSON_Minify (ending f True @ t) = cJSON_Minify t"
  by (auto simp: comma_def brace_def colon_def ending_def tabs_def cJSON_Minify.simps(2))

text \<open>A string that does not end in a backslash is copied to its end.\<close>

definition unslashed :: "string \<Rightarrow> bool" where
  "unslashed s \<longleftrightarrow> s = [] \<or> last s \<noteq> BSL"

lemma minify_string_step:
  "minify_string (QUOTE # t) = ([QUOTE], t)"
  "minify_string (BSL # QUOTE # t) = apfst ((@) [BSL, QUOTE]) (minify_string t)"
  "e \<noteq> QUOTE \<Longrightarrow> minify_string (BSL # e # t) = apfst ((#) BSL) (minify_string (e # t))"
  "c \<noteq> QUOTE \<Longrightarrow> c \<noteq> BSL \<Longrightarrow> minify_string (c # t) = apfst ((#) c) (minify_string t)"
  by (auto simp: minify_string.simps(2) [of c] split: prod.split list.split)

declare minify_string.simps(2) [simp del]

lemma apfst_append: "apfst ((#) c) (apfst ((@) s) x) = apfst ((@) (c # s)) x" "apfst ((@) []) x = x"
  by (cases x; simp)+

lemma minify_string_copy:
  "list_all (\<lambda>c. c \<noteq> QUOTE \<and> c \<noteq> BSL) s \<Longrightarrow> minify_string (s @ t) = apfst ((@) s) (minify_string t)"
  by (induction s) (simp_all add: minify_string_step(4) apfst_append)

lemma minify_string_escape:
  "c \<noteq> QUOTE \<Longrightarrow> c \<noteq> BSL \<Longrightarrow> minify_string (escape_char c @ t) = apfst ((@) (escape_char c)) (minify_string t)"
proof (cases "31 < code c \<and> c \<noteq> QUOTE \<and> c \<noteq> BSL")
  case True
  then show ?thesis
    using minify_string_copy [of "[c]" t] by (simp add: escape_char_def)
next
  case False
  assume c: "c \<noteq> QUOTE" "c \<noteq> BSL"
  obtain u where u: "escape_char c = BSL # u" "u \<noteq> []" "list_all (\<lambda>c. c \<noteq> QUOTE \<and> c \<noteq> BSL) u"
  proof -
    have "code c div 16 < 16" "code c mod 16 < 16"
      using nat_of_char_less_256 [of c] by (auto simp: less_mult_imp_div_less)
    then have "hex_digit (code c div 16) \<noteq> QUOTE" "hex_digit (code c div 16) \<noteq> BSL"
      "hex_digit (code c mod 16) \<noteq> QUOTE" "hex_digit (code c mod 16) \<noteq> BSL"
      using hex_digit_plain by blast+
    with False c that show ?thesis by (auto simp: escape_char_def u04x_def split: if_splits)
  qed
  then obtain e u' where e: "u = e # u'" by (cases u) auto
  have "minify_string (escape_char c @ t) = apfst ((#) BSL) (minify_string (u @ t))"
    using u(1,3) e minify_string_step(3) [of e "u' @ t"] by simp
  also have "\<dots> = apfst ((@) (escape_char c)) (minify_string t)"
    unfolding minify_string_copy [OF u(3)] by (cases "minify_string t") (simp add: u(1))
  finally show ?thesis .
qed

lemma escape_char_first: "\<exists>e u. escape_char c = e # u \<and> e \<noteq> QUOTE"
  by (auto simp: escape_char_def)

lemma minify_string_quote:
  "unslashed s \<Longrightarrow> minify_string (concat (map escape_char s) @ QUOTE # t) =
     (concat (map escape_char s) @ [QUOTE], t)"
proof (induction s)
  case Nil
  then show ?case by (simp add: minify_string_step(1))
next
  case (Cons c s)
  have s: "unslashed s" using Cons.prems by (auto simp: unslashed_def split: if_splits)
  note IH = Cons.IH [OF s]
  consider "c = QUOTE" | "c = BSL" | "c \<noteq> QUOTE" "c \<noteq> BSL" by blast
  then show ?case
  proof cases
    case 1
    with IH show ?thesis by (simp add: escape_char_def minify_string_step(2))
  next
    case 2
    with Cons.prems have "s \<noteq> []" by (auto simp: unslashed_def)
    then obtain c' s' where s': "s = c' # s'" by (cases s) auto
    obtain e u where e: "escape_char c' = e # u" "e \<noteq> QUOTE" using escape_char_first by blast
    let ?r = "concat (map escape_char s) @ QUOTE # t"
    have r: "?r = e # u @ concat (map escape_char s') @ QUOTE # t" by (simp add: s' e(1))
    have "minify_string (BSL # BSL # ?r) = apfst ((#) BSL) (apfst ((#) BSL) (minify_string ?r))"
      using minify_string_step(3) [OF e(2)] minify_string_step(3) [of BSL ?r] by (simp add: r)
    moreover have "escape_char c = [BSL, BSL]" by (simp add: 2 escape_char_def)
    ultimately show ?thesis using IH by simp
  next
    case 3
    from minify_string_escape [OF this, of "concat (map escape_char s) @ QUOTE # t"] IH
    show ?thesis by simp
  qed
qed

lemma minify_quote: "unslashed s \<Longrightarrow> cJSON_Minify (quote s @ t) = quote s @ cJSON_Minify t"
  by (simp add: quote_def cJSON_Minify.simps(2) minify_string_quote)

text \<open>A tree in which no string and no key ends in a backslash.\<close>

fun unslashed_tree :: "cJSON \<Rightarrow> bool" where
  "unslashed_tree (cJSON_String s) = unslashed s"
| "unslashed_tree (cJSON_Array xs) = list_all unslashed_tree xs"
| "unslashed_tree (cJSON_Object kvs) = list_all (\<lambda>(k, v). unslashed k \<and> unslashed_tree v) kvs"
| "unslashed_tree _ = True"

lemma dec_int_kept: "list_all kept (dec_int i)"
  using dec_int_chars by (force simp: list_all_iff kept_def isdigit_def)

lemma minify_render_at:
  "int_numbers v \<Longrightarrow> unslashed_tree v \<Longrightarrow> cJSON_Minify (render_at f d v @ t) = render v @ cJSON_Minify t"
  "list_all int_numbers xs \<Longrightarrow> list_all unslashed_tree xs \<Longrightarrow>
     cJSON_Minify (elements_at f d xs @ t) = commas (map render xs) @ cJSON_Minify t"
  "list_all (\<lambda>(k, v). int_numbers v) kvs \<Longrightarrow> list_all (\<lambda>(k, v). unslashed k \<and> unslashed_tree v) kvs \<Longrightarrow>
     cJSON_Minify (members_at f d kvs @ t) = commas (map member_text kvs) @ cJSON_Minify t"
proof (induction f d v and f d xs and f d kvs arbitrary: t and t and t
    rule: render_at_elements_at_members_at.induct)
  case (4 f d x)
  then show ?case using minify_kept [OF dec_int_kept] by (simp add: number_text_int_valued)
next
  case (7 f d xs)
  then show ?case by (simp add: cJSON_Minify.simps(2))
next
  case (8 f d kvs)
  then have "cJSON_Minify (members_at f (Suc d) kvs @ t') = commas (map member_text kvs) @ cJSON_Minify t'" for t'
    by simp
  then show ?case
    by (simp add: minify_punctuation minify_layout [OF layout_simps(2)] cJSON_Minify.simps(2))
next
  case (10 f d x xs)
  then show ?case by (simp add: minify_punctuation)
next
  case (12 f d kv kvs)
  obtain k v where kv: "kv = (k, v)" by (cases kv)
  with "12.prems" have k: "unslashed k" "int_numbers v" "unslashed_tree v"
    "list_all (\<lambda>(k, v). int_numbers v) kvs" "list_all (\<lambda>(k, v). unslashed k \<and> unslashed_tree v) kvs"
    by simp_all
  have v: "cJSON_Minify (render_at f d v @ t') = render v @ cJSON_Minify t'" for t'
    using "12.IH"(1) k by (simp add: kv)
  have r: "cJSON_Minify (members_at f d kvs @ t') = commas (map member_text kvs) @ cJSON_Minify t'" for t'
    using "12.IH"(2) k by simp
  have q: "cJSON_Minify (quote k @ t') = quote k @ cJSON_Minify t'" for t' by (rule minify_quote [OF k(1)])
  define i where "i = (if f then tabs d else [])"
  have "layout i" by (simp add: i_def)
  then have "cJSON_Minify (members_at f d (kv # kvs) @ t) =
      quote k @ CHR '':'' # render v @ cJSON_Minify (ending f (kvs = []) @ members_at f d kvs @ t)"
    by (simp add: kv i_def [symmetric] minify_layout q minify_punctuation(3) v)
  also have "\<dots> = commas (map member_text (kv # kvs)) @ cJSON_Minify t"
    using r by (cases "kvs = []") (simp_all add: kv minify_punctuation(4,5) member_text_def)
  finally show ?case .
qed (auto simp: minify_quote cJSON_Minify.simps(2))

lemma minify_render: "int_numbers v \<Longrightarrow> unslashed_tree v \<Longrightarrow> cJSON_Minify (render_at f 0 v) = render v"
  using minify_render_at(1) [of v f 0 "[]"] by simp

text \<open>With such a string, minifying changes what the text means: here a blank goes missing from
  the string behind it.\<close>

lemma minify_breaks:
  "cJSON_Minify (render (cJSON_Array [cJSON_String [BSL], cJSON_String ''a b''])) =
     render (cJSON_Array [cJSON_String [BSL], cJSON_String ''ab''])"
  by code_simp

end
