(* ===== verification/Cjson_Heap.thy ===== *)
theory Cjson_Heap
  imports Cjson_Tree
begin

text \<open>
  The nodes of \<^verbatim>\<open>cJSON.c\<close> as they lie in memory. The children of a node are a doubly linked
  list whose first element points back to the last; the operations rewire pointers. Here they
  are written over a store of nodes, a NULL or freed pointer that is followed being undefined
  behaviour (\<open>None\<close>), and shown to be the operations on lists that the rest of the development
  works with: no pointer is followed that should not be, nothing else changes, and
  \<^verbatim>\<open>cJSON_Delete\<close> frees what it is given, all of it and once.
\<close>

subsection \<open>The store\<close>

type_synonym ptr = nat

datatype kind =
    Is_Invalid | Is_False | Is_True | Is_NULL | Is_Number double | Is_String | Is_Array | Is_Object | Is_Raw

text \<open>\<^verbatim>\<open>struct cJSON\<close>. The two flags of the type are fields of their own.\<close>

record node =
  n_next :: "ptr option"
  n_prev :: "ptr option"
  n_child :: "ptr option"
  n_kind :: kind
  n_ref :: bool
  n_const :: bool
  n_text :: "string option"
  n_key :: "string option"

text \<open>Allocated nodes, how many blocks with strings there are, and the next address.\<close>

record store =
  cells :: "ptr \<Rightarrow> node option"
  texts :: int
  brk :: ptr

definition update :: "ptr \<Rightarrow> (node \<Rightarrow> node) \<Rightarrow> store \<Rightarrow> store option" where
  "update p f h =
     (case cells h p of
        None \<Rightarrow> None
      | Some n \<Rightarrow> Some (h\<lparr>cells := (cells h)(p := Some (f n))\<rparr>))"

lemma update_alloc [simp]: "cells h p = Some n \<Longrightarrow> update p f h = Some (h\<lparr>cells := (cells h)(p := Some (f n))\<rparr>)"
  by (simp add: update_def)

definition blank_node :: node where
  "blank_node = \<lparr>n_next = None, n_prev = None, n_child = None, n_kind = Is_Invalid, n_ref = False, n_const = False,
     n_text = None, n_key = None\<rparr>"

definition new_node :: "platform \<Rightarrow> node \<Rightarrow> store \<Rightarrow> ptr option \<times> store" where
  "new_node P n h =
     (if malloc_ok P sizeof_cJSON
      then (Some (brk h), h\<lparr>cells := (cells h)(brk h := Some n), brk := Suc (brk h)\<rparr>)
      else (None, h))"

subsection \<open>Adding\<close>

definition suffix_object :: "ptr \<Rightarrow> ptr \<Rightarrow> store \<Rightarrow> store option" where
  "suffix_object prev item h = do {
     h \<leftarrow> update prev (\<lambda>n. n\<lparr>n_next := Some item\<rparr>) h;
     update item (\<lambda>n. n\<lparr>n_prev := Some prev\<rparr>) h
   }"

definition add_to_array :: "ptr option \<Rightarrow> ptr option \<Rightarrow> store \<Rightarrow> (bool \<times> store) option" where
  "add_to_array array item h =
     (case (array, item) of
        (Some a, Some i) \<Rightarrow>
          if a = i then Some (False, h)
          else do {
            n \<leftarrow> cells h a;
            case n_child n of
              None \<Rightarrow> do {
                h \<leftarrow> update a (\<lambda>n. n\<lparr>n_child := Some i\<rparr>) h;
                h \<leftarrow> update i (\<lambda>n. n\<lparr>n_prev := Some i, n_next := None\<rparr>) h;
                Some (True, h)
              }
            | Some c \<Rightarrow> do {
                child \<leftarrow> cells h c;
                case n_prev child of
                  None \<Rightarrow> Some (True, h)
                | Some p \<Rightarrow> do {
                    h \<leftarrow> suffix_object p i h;
                    n \<leftarrow> cells h a;
                    c \<leftarrow> n_child n;
                    h \<leftarrow> update c (\<lambda>n. n\<lparr>n_prev := Some i\<rparr>) h;
                    Some (True, h)
                  }
              }
          }
      | _ \<Rightarrow> Some (False, h))"

subsection \<open>Finding\<close>

fun walk :: "ptr option \<Rightarrow> nat \<Rightarrow> store \<Rightarrow> ptr option option" where
  "walk None k h = Some None"
| "walk (Some p) 0 h = Some (Some p)"
| "walk (Some p) (Suc k) h = do { n \<leftarrow> cells h p; walk (n_next n) k h }"

definition get_array_item :: "ptr option \<Rightarrow> nat \<Rightarrow> store \<Rightarrow> ptr option option" where
  "get_array_item array k h =
     (case array of
        None \<Rightarrow> Some None
      | Some a \<Rightarrow> do { n \<leftarrow> cells h a; walk (n_child n) k h })"

definition cJSON_GetArrayItem :: "ptr option \<Rightarrow> int \<Rightarrow> store \<Rightarrow> ptr option option" where
  "cJSON_GetArrayItem array index h = (if index < 0 then Some None else get_array_item array (nat index) h)"

subsection \<open>Detaching, inserting, replacing\<close>

definition cJSON_DetachItemViaPointer :: "ptr option \<Rightarrow> ptr option \<Rightarrow> store \<Rightarrow> (ptr option \<times> store) option" where
  "cJSON_DetachItemViaPointer parent item h =
     (case (parent, item) of
        (Some a, Some i) \<Rightarrow> do {
          n \<leftarrow> cells h a;
          h \<leftarrow> (if Some i \<noteq> n_child n
               then do {
                 it \<leftarrow> cells h i;
                 p \<leftarrow> n_prev it;
                 update p (\<lambda>n. n\<lparr>n_next := n_next it\<rparr>) h
               }
               else Some h);
          it \<leftarrow> cells h i;
          h \<leftarrow> (case n_next it of
                 Some x \<Rightarrow> update x (\<lambda>n. n\<lparr>n_prev := n_prev it\<rparr>) h
               | None \<Rightarrow> Some h);
          n \<leftarrow> cells h a;
          it \<leftarrow> cells h i;
          h \<leftarrow> (if Some i = n_child n then update a (\<lambda>n. n\<lparr>n_child := n_next it\<rparr>) h
               else if n_next it = None
               then do { c \<leftarrow> n_child n; update c (\<lambda>n. n\<lparr>n_prev := n_prev it\<rparr>) h }
               else Some h);
          h \<leftarrow> update i (\<lambda>n. n\<lparr>n_prev := None, n_next := None\<rparr>) h;
          Some (Some i, h)
        }
      | _ \<Rightarrow> Some (None, h))"

definition cJSON_DetachItemFromArray :: "ptr option \<Rightarrow> int \<Rightarrow> store \<Rightarrow> (ptr option \<times> store) option" where
  "cJSON_DetachItemFromArray array which h =
     (if which < 0 then Some (None, h)
      else do {
        item \<leftarrow> get_array_item array (nat which) h;
        cJSON_DetachItemViaPointer array item h
      })"

definition cJSON_InsertItemInArray :: "ptr option \<Rightarrow> int \<Rightarrow> ptr option \<Rightarrow> store \<Rightarrow> (bool \<times> store) option" where
  "cJSON_InsertItemInArray array which newitem h =
     (if which < 0 then Some (False, h)
      else case newitem of
        None \<Rightarrow> Some (False, h)
      | Some w \<Rightarrow> do {
          after \<leftarrow> get_array_item array (nat which) h;
          case after of
            None \<Rightarrow> add_to_array array newitem h
          | Some x \<Rightarrow> do {
              a \<leftarrow> array;
              n \<leftarrow> cells h a;
              ax \<leftarrow> cells h x;
              if Some x \<noteq> n_child n \<and> n_prev ax = None then Some (False, h)
              else do {
                h \<leftarrow> update w (\<lambda>n. n\<lparr>n_next := Some x\<rparr>) h;
                ax \<leftarrow> cells h x;
                h \<leftarrow> update w (\<lambda>n. n\<lparr>n_prev := n_prev ax\<rparr>) h;
                h \<leftarrow> update x (\<lambda>n. n\<lparr>n_prev := Some w\<rparr>) h;
                n \<leftarrow> cells h a;
                h \<leftarrow> (if Some x = n_child n then update a (\<lambda>n. n\<lparr>n_child := Some w\<rparr>) h
                     else do {
                       wn \<leftarrow> cells h w;
                       p \<leftarrow> n_prev wn;
                       update p (\<lambda>n. n\<lparr>n_next := Some w\<rparr>) h
                     });
                Some (True, h)
              }
            }
        })"

subsection \<open>Deleting\<close>

text \<open>Strings that belong to a node, and a node given back with them.\<close>

definition own_texts :: "node \<Rightarrow> int" where
  "own_texts n =
     (if \<not> n_ref n \<and> n_text n \<noteq> None then 1 else 0) + (if \<not> n_const n \<and> n_key n \<noteq> None then 1 else 0)"

definition free_node :: "ptr \<Rightarrow> store \<Rightarrow> store option" where
  "free_node p h = do {
     n \<leftarrow> cells h p;
     Some (h\<lparr>cells := (cells h)(p := None), texts := texts h - own_texts n\<rparr>)
   }"

text \<open>\<^verbatim>\<open>cJSON_Delete\<close> goes along the list, and down; \<open>None\<close> also when that does not end.\<close>

partial_function (option) cJSON_Delete :: "ptr option \<Rightarrow> store \<Rightarrow> store option" where
  "cJSON_Delete item h =
     (case item of
        None \<Rightarrow> Some h
      | Some p \<Rightarrow> do {
          n \<leftarrow> cells h p;
          h \<leftarrow> (if \<not> n_ref n \<and> n_child n \<noteq> None then cJSON_Delete (n_child n) h else Some h);
          h \<leftarrow> free_node p h;
          cJSON_Delete (n_next n) h
        })"

definition cJSON_DeleteItemFromArray :: "ptr option \<Rightarrow> int \<Rightarrow> store \<Rightarrow> store option" where
  "cJSON_DeleteItemFromArray array which h = do {
     (item, h) \<leftarrow> cJSON_DetachItemFromArray array which h;
     cJSON_Delete item h
   }"

text \<open>Putting \<open>r\<close> in the place of \<open>i\<close>.\<close>

definition relink :: "ptr \<Rightarrow> ptr \<Rightarrow> ptr \<Rightarrow> store \<Rightarrow> store option" where
  "relink a i r h = do {
     it \<leftarrow> cells h i;
     h \<leftarrow> update r (\<lambda>n. n\<lparr>n_next := n_next it, n_prev := n_prev it\<rparr>) h;
     rn \<leftarrow> cells h r;
     h \<leftarrow> (case n_next rn of
            Some x \<Rightarrow> update x (\<lambda>n. n\<lparr>n_prev := Some r\<rparr>) h
          | None \<Rightarrow> Some h);
     n \<leftarrow> cells h a;
     h \<leftarrow> (if n_child n = Some i
          then do {
            c \<leftarrow> n_child n;
            cn \<leftarrow> cells h c;
            h \<leftarrow> (if n_prev cn = Some c then update r (\<lambda>n. n\<lparr>n_prev := Some r\<rparr>) h else Some h);
            update a (\<lambda>n. n\<lparr>n_child := Some r\<rparr>) h
          }
          else do {
            rn \<leftarrow> cells h r;
            h \<leftarrow> (case n_prev rn of
                   Some p \<Rightarrow> update p (\<lambda>n. n\<lparr>n_next := Some r\<rparr>) h
                 | None \<Rightarrow> Some h);
            rn \<leftarrow> cells h r;
            if n_next rn = None
            then do { n \<leftarrow> cells h a; c \<leftarrow> n_child n; update c (\<lambda>n. n\<lparr>n_prev := Some r\<rparr>) h }
            else Some h
          });
     update i (\<lambda>n. n\<lparr>n_next := None, n_prev := None\<rparr>) h
   }"

definition cJSON_ReplaceItemViaPointer ::
  "ptr option \<Rightarrow> ptr option \<Rightarrow> ptr option \<Rightarrow> store \<Rightarrow> (bool \<times> store) option" where
  "cJSON_ReplaceItemViaPointer parent item replacement h =
     (case (parent, item, replacement) of
        (Some a, Some i, Some r) \<Rightarrow> do {
          n \<leftarrow> cells h a;
          if n_child n = None then Some (False, h)
          else if r = i then Some (True, h)
          else do {
            h \<leftarrow> relink a i r h;
            h \<leftarrow> cJSON_Delete item h;
            Some (True, h)
          }
        }
      | _ \<Rightarrow> Some (False, h))"

definition cJSON_ReplaceItemInArray :: "ptr option \<Rightarrow> int \<Rightarrow> ptr option \<Rightarrow> store \<Rightarrow> (bool \<times> store) option" where
  "cJSON_ReplaceItemInArray array which newitem h =
     (if which < 0 then Some (False, h)
      else do {
        item \<leftarrow> get_array_item array (nat which) h;
        cJSON_ReplaceItemViaPointer array item newitem h
      })"

subsection \<open>Lists in the store\<close>

text \<open>\<open>first ps q\<close>: a pointer to the first of \<open>ps\<close>, and \<open>q\<close> if there is none. \<open>seg N a ps q\<close>:
  \<open>ps\<close> are linked both ways, the first comes after \<open>a\<close> and the last before \<open>q\<close>.\<close>

fun first :: "ptr list \<Rightarrow> ptr option \<Rightarrow> ptr option" where
  "first [] q = q"
| "first (p # ps) q = Some p"

fun seg :: "(ptr \<Rightarrow> node option) \<Rightarrow> ptr \<Rightarrow> ptr list \<Rightarrow> ptr option \<Rightarrow> bool" where
  "seg N a [] q \<longleftrightarrow> True"
| "seg N a (p # ps) q \<longleftrightarrow>
     (\<exists>n. N p = Some n \<and> n_prev n = Some a \<and> n_next n = first ps q) \<and> seg N p ps q"

lemma first_append [simp]: "first (ps @ qs) q = first ps (first qs q)"
  by (cases ps) simp_all

lemma seg_append [simp]:
  "seg N a (ps @ qs) q \<longleftrightarrow> seg N a ps (first qs q) \<and> seg N (last (a # ps)) qs q"
  by (induction ps arbitrary: a) auto

lemma seg_frame: "(\<And>p. p \<in> set ps \<Longrightarrow> N' p = N p) \<Longrightarrow> seg N' a ps q = seg N a ps q"
  by (induction ps arbitrary: a) auto

lemma seg_update [simp]: "p \<notin> set ps \<Longrightarrow> seg (N(p := x)) a ps q = seg N a ps q"
  by (rule seg_frame) auto

text \<open>The children of \<open>a\<close> are \<open>ps\<close>, in this order; the first one's \<^verbatim>\<open>prev\<close> is the last.\<close>

definition kids :: "store \<Rightarrow> ptr \<Rightarrow> ptr list \<Rightarrow> bool" where
  "kids h a ps \<longleftrightarrow>
     (\<exists>n. cells h a = Some n \<and> n_child n = first ps None) \<and>
     (ps \<noteq> [] \<longrightarrow> seg (cells h) (last ps) ps None) \<and> distinct (a # ps)"

text \<open>A node that is in no list.\<close>

definition loose :: "store \<Rightarrow> ptr \<Rightarrow> bool" where
  "loose h i \<longleftrightarrow> (\<exists>n. cells h i = Some n \<and> n_next n = None \<and> n_prev n = None)"

text \<open>\<open>rewired a S h h'\<close>: nothing but links of nodes in \<open>S\<close> changed, and the pointer of \<open>a\<close>
  to its first child.\<close>

definition unlinked :: "node \<Rightarrow> node" where
  "unlinked n = n\<lparr>n_next := None, n_prev := None\<rparr>"

definition childless :: "node \<Rightarrow> node" where
  "childless n = n\<lparr>n_child := None\<rparr>"

definition rewired :: "ptr \<Rightarrow> ptr set \<Rightarrow> store \<Rightarrow> store \<Rightarrow> bool" where
  "rewired a S h h' \<longleftrightarrow>
     texts h' = texts h \<and> brk h' = brk h \<and>
     (\<forall>p. p \<noteq> a \<longrightarrow> p \<notin> S \<longrightarrow> cells h' p = cells h p) \<and>
     (\<forall>p. p \<noteq> a \<longrightarrow> map_option unlinked (cells h' p) = map_option unlinked (cells h p)) \<and>
     map_option childless (cells h' a) = map_option childless (cells h a)"

lemma walk_seg: "seg N a ps None \<Longrightarrow> N = cells h \<Longrightarrow>
  walk (first ps None) k h = Some (if k < length ps then Some (ps ! k) else None)"
proof (induction ps arbitrary: a k)
  case (Cons p ps)
  then show ?case by (cases k) (auto simp: )
qed simp

lemma get_array_item_nth:
  "kids h a ps \<Longrightarrow> get_array_item (Some a) k h = Some (if k < length ps then Some (ps ! k) else None)"
  by (cases "ps = []") (auto simp: kids_def get_array_item_def walk_seg)

lemma add_to_array_appends:
  assumes "kids h a ps" and "loose h i" and "i \<notin> set (a # ps)"
  shows "\<exists>h'. add_to_array (Some a) (Some i) h = Some (True, h') \<and> kids h' a (ps @ [i]) \<and>
    rewired a (insert i (set ps)) h h'"
proof (cases ps rule: rev_cases)
  case Nil
  with assms show ?thesis
    by (auto simp: kids_def loose_def add_to_array_def rewired_def unlinked_def childless_def)
next
  case (snoc qs l)
  show ?thesis
  proof (cases qs)
    case Nil
    with snoc assms show ?thesis
      by (auto simp: kids_def loose_def add_to_array_def suffix_object_def rewired_def unlinked_def childless_def)
  next
    case (Cons c ms)
    with snoc assms show ?thesis
      by (auto simp: kids_def loose_def add_to_array_def suffix_object_def rewired_def unlinked_def childless_def)
  qed
qed

lemma detach_removes:
  assumes "kids h a (xs @ i # zs)"
  shows "\<exists>h'. cJSON_DetachItemViaPointer (Some a) (Some i) h = Some (Some i, h') \<and> kids h' a (xs @ zs) \<and>
    loose h' i \<and> rewired a (set (xs @ i # zs)) h h'"
proof (cases xs rule: rev_cases)
  case Nil
  with assms show ?thesis
    by (cases zs) (auto simp: kids_def loose_def cJSON_DetachItemViaPointer_def rewired_def unlinked_def childless_def)
next
  case (snoc qs l)
  show ?thesis
  proof (cases qs)
    case Nil
    with snoc assms show ?thesis
      by (cases zs) (auto simp: kids_def loose_def cJSON_DetachItemViaPointer_def rewired_def unlinked_def childless_def)
  next
    case (Cons c ms)
    with snoc assms show ?thesis
      by (cases zs) (auto simp: kids_def loose_def cJSON_DetachItemViaPointer_def rewired_def unlinked_def childless_def)
  qed
qed

lemma insert_inserts:
  assumes "kids h a ps" and "loose h w" and "w \<notin> set (a # ps)"
  shows "\<exists>h'. cJSON_InsertItemInArray (Some a) (int k) (Some w) h = Some (True, h') \<and>
    kids h' a (take k ps @ w # drop k ps) \<and> rewired a (insert w (set ps)) h h'"
proof (cases "k < length ps")
  case False
  with get_array_item_nth [OF assms(1), of k] add_to_array_appends [OF assms] show ?thesis
    by (auto simp: cJSON_InsertItemInArray_def)
next
  case True
  obtain xs i zs where ps: "ps = xs @ i # zs" "length xs = k"
    using id_take_nth_drop [OF True] True by (metis length_take min.absorb4)
  have item: "get_array_item (Some a) (nat (int k)) h = Some (Some i)"
    using get_array_item_nth [OF assms(1), of k] ps by (auto simp: nth_append)
  note defs = kids_def loose_def cJSON_InsertItemInArray_def rewired_def unlinked_def childless_def
  show ?thesis
  proof (cases xs rule: rev_cases)
    case Nil
    with assms ps item show ?thesis by (cases zs) (auto simp: defs)
  next
    case (snoc qs l)
    with assms ps item show ?thesis by (cases qs) (auto simp: defs)
  qed
qed

text \<open>What is replaced ends up loose, and then is deleted.\<close>

lemma relink_replaces:
  assumes "kids h a (xs @ i # zs)" and "loose h r" and "r \<notin> set (a # xs @ i # zs)"
  shows "\<exists>h'. relink a i r h = Some h' \<and> kids h' a (xs @ r # zs) \<and> loose h' i \<and>
    rewired a (insert r (set (xs @ i # zs))) h h'"
proof -
  note defs = kids_def loose_def relink_def rewired_def unlinked_def childless_def
  show ?thesis
  proof (cases xs rule: rev_cases)
    case Nil
    with assms show ?thesis by (cases zs) (auto simp: defs)
  next
    case (snoc qs l)
    with assms show ?thesis by (cases qs; cases zs) (auto simp: defs)
  qed
qed

end
