(* ===== verification/Cjson_Memory.thy ===== *)
theory Cjson_Memory
  imports Cjson_Heap
begin

text \<open>
  Trees in the store of \<open>Cjson_Heap\<close>: \<open>holds h s v\<close> says that the nodes of shape \<open>s\<close> represent
  the tree \<open>v\<close>. The pointer operations are the operations on trees, and deleting gives back
  exactly the nodes and strings of a tree.
\<close>

subsection \<open>Shapes\<close>

text \<open>Where a tree lies: the address of its root and the shapes of the children.\<close>

datatype shape = Shape (root: ptr) (subs: "shape list")

fun owned :: "shape list \<Rightarrow> ptr list" where
  "owned [] = []"
| "owned (Shape p cs # ss) = p # owned cs @ owned ss"

lemma owned_append [simp]: "owned (ss @ ts) = owned ss @ owned ts"
  by (induction ss rule: owned.induct) simp_all

lemma owned_Cons: "owned (s # ss) = owned [s] @ owned ss"
  by (cases s) simp

lemma root_owned: "s \<in> set ss \<Longrightarrow> root s \<in> set (owned ss)"
  by (induction ss rule: owned.induct) auto

lemma owned_subset: "s \<in> set ss \<Longrightarrow> set (owned [s]) \<subseteq> set (owned ss)"
proof -
  assume "s \<in> set ss"
  then obtain xs ys where "ss = xs @ s # ys" by (meson split_list)
  then show ?thesis by (simp only: owned_append owned_Cons [of s ys] set_append) blast
qed

lemma map_root_distinct: "distinct (owned ss) \<Longrightarrow> distinct (map root ss)"
  by (induction ss rule: owned.induct) (auto dest: root_owned)

subsection \<open>Deleting\<close>

text \<open>\<open>forest N ss\<close>: the roots are linked by \<^verbatim>\<open>next\<close>, and so are the children below. A reference
  owns no children.\<close>

fun forest :: "(ptr \<Rightarrow> node option) \<Rightarrow> shape list \<Rightarrow> bool" where
  "forest N [] \<longleftrightarrow> True"
| "forest N (Shape p cs # ss) \<longleftrightarrow>
     (\<exists>n. N p = Some n \<and> n_next n = first (map root ss) None \<and>
        (if n_ref n then cs = [] else n_child n = first (map root cs) None)) \<and>
     forest N cs \<and> forest N ss"

definition texts_of :: "(ptr \<Rightarrow> node option) \<Rightarrow> ptr list \<Rightarrow> int" where
  "texts_of N ps = sum_list (map (\<lambda>p. own_texts (the (N p))) ps)"

definition without :: "ptr set \<Rightarrow> (ptr \<Rightarrow> node option) \<Rightarrow> ptr \<Rightarrow> node option" where
  "without S N = (\<lambda>p. if p \<in> S then None else N p)"

definition deleted :: "shape list \<Rightarrow> store \<Rightarrow> store" where
  "deleted ss h = h\<lparr>cells := without (set (owned ss)) (cells h), texts := texts h - texts_of (cells h) (owned ss)\<rparr>"

lemma forest_frame: "(\<And>p. p \<in> set (owned ss) \<Longrightarrow> N' p = N p) \<Longrightarrow> forest N' ss = forest N ss"
  by (induction ss rule: owned.induct) auto

lemma texts_of_frame: "(\<And>p. p \<in> set ps \<Longrightarrow> N' p = N p) \<Longrightarrow> texts_of N' ps = texts_of N ps"
  unfolding texts_of_def by (induction ps) auto

lemma delete_forest:
  "forest (cells h) ss \<Longrightarrow> distinct (owned ss) \<Longrightarrow>
     cJSON_Delete (first (map root ss) None) h = Some (deleted ss h)"
proof (induction ss arbitrary: h rule: owned.induct)
  case 1
  then show ?case
    by (subst cJSON_Delete.simps) (simp add: deleted_def without_def texts_of_def)
next
  case (2 p cs ss)
  obtain n where n: "cells h p = Some n" "n_next n = first (map root ss) None"
    "if n_ref n then cs = [] else n_child n = first (map root cs) None"
    and f: "forest (cells h) cs" "forest (cells h) ss"
    using "2.prems"(1) by auto
  have d: "p \<notin> set (owned cs)" "p \<notin> set (owned ss)" "distinct (owned cs)" "distinct (owned ss)"
    "set (owned cs) \<inter> set (owned ss) = {}"
    using "2.prems"(2) by auto
  let ?h1 = "deleted cs h"
  have below: "(if \<not> n_ref n \<and> n_child n \<noteq> None then cJSON_Delete (n_child n) h else Some h) = Some ?h1"
  proof (cases "\<not> n_ref n \<and> n_child n \<noteq> None")
    case True
    with n(3) "2.IH"(1) [OF f(1) d(3)] show ?thesis by simp
  next
    case False
    with n(3) have "cs = []" by (cases cs) (auto split: if_splits)
    then have "?h1 = h" by (simp add: deleted_def without_def texts_of_def)
    with False show ?thesis by auto
  qed
  let ?h2 = "?h1\<lparr>cells := (cells ?h1)(p := None), texts := texts ?h1 - own_texts n\<rparr>"
  have "cells ?h1 p = Some n" using n(1) d(1) by (simp add: deleted_def without_def)
  then have here: "free_node p ?h1 = Some ?h2" by (simp add: free_node_def)
  have same: "cells ?h2 q = cells h q" if "q \<in> set (owned ss)" for q
    using that d(2,5) by (auto simp: deleted_def without_def)
  have "forest (cells ?h2) ss" using forest_frame [of ss "cells ?h2" "cells h"] same f(2) by simp
  from "2.IH"(2) [OF this d(4)] have rest: "cJSON_Delete (n_next n) ?h2 = Some (deleted ss ?h2)"
    by (simp add: n(2))
  have "cells (deleted ss ?h2) = cells (deleted (Shape p cs # ss) h)"
    by (auto simp: deleted_def without_def)
  moreover have "texts (deleted ss ?h2) = texts (deleted (Shape p cs # ss) h)"
    using texts_of_frame [of "owned ss" "cells ?h2" "cells h"] same n(1)
    by (simp add: deleted_def) (simp add: texts_of_def)
  ultimately have "deleted ss ?h2 = deleted (Shape p cs # ss) h"
    by (simp add: deleted_def)
  with n(1) below here rest show ?case
    by (subst cJSON_Delete.simps) simp
qed

subsection \<open>What a store holds\<close>

definition key_at :: "(ptr \<Rightarrow> node option) \<Rightarrow> shape \<Rightarrow> string option" where
  "key_at N s = (case N (root s) of None \<Rightarrow> None | Some n \<Rightarrow> n_key n)"

definition keyed :: "string option \<Rightarrow> cJSON option \<Rightarrow> (string \<times> cJSON) option" where
  "keyed k v = do { k \<leftarrow> k; v \<leftarrow> v; Some (k, v) }"

text \<open>The value of a node whose children have the values \<open>xs\<close>, with their keys \<open>kvs\<close>.\<close>

definition node_value :: "node \<Rightarrow> cJSON list option \<Rightarrow> (string \<times> cJSON) list option \<Rightarrow> cJSON option" where
  "node_value n xs kvs =
     (case n_kind n of
        Is_Invalid \<Rightarrow> None
      | Is_False \<Rightarrow> Some cJSON_False
      | Is_True \<Rightarrow> Some cJSON_True
      | Is_NULL \<Rightarrow> Some cJSON_NULL
      | Is_Number d \<Rightarrow> Some (cJSON_Number d)
      | Is_String \<Rightarrow> map_option cJSON_String (n_text n)
      | Is_Raw \<Rightarrow> map_option cJSON_Raw (n_text n)
      | Is_Array \<Rightarrow> map_option cJSON_Array xs
      | Is_Object \<Rightarrow> map_option cJSON_Object kvs)"

fun tree_of :: "(ptr \<Rightarrow> node option) \<Rightarrow> shape \<Rightarrow> cJSON option" where
  "tree_of N (Shape p cs) = do {
     n \<leftarrow> N p;
     node_value n (those (map (tree_of N) cs)) (those (map (\<lambda>c. keyed (key_at N c) (tree_of N c)) cs))
   }"

fun linked :: "(ptr \<Rightarrow> node option) \<Rightarrow> shape \<Rightarrow> bool" where
  "linked N (Shape p cs) \<longleftrightarrow>
     (\<exists>n. N p = Some n \<and> \<not> n_ref n \<and> n_child n = first (map root cs) None) \<and>
     (cs \<noteq> [] \<longrightarrow> seg N (root (last cs)) (map root cs) None) \<and> list_all (linked N) cs"

definition holds :: "store \<Rightarrow> shape \<Rightarrow> cJSON \<Rightarrow> bool" where
  "holds h s v \<longleftrightarrow> linked (cells h) s \<and> distinct (owned [s]) \<and> tree_of (cells h) s = Some v"

lemma node_value_cong:
  "n_kind n' = n_kind n \<Longrightarrow> n_text n' = n_text n \<Longrightarrow> node_value n' = node_value n"
  unfolding node_value_def by (intro ext) (simp only:)

text \<open>What matters of the nodes: below the root all, of the root all but its place in a list.\<close>

definition kept :: "(ptr \<Rightarrow> node option) \<Rightarrow> (ptr \<Rightarrow> node option) \<Rightarrow> shape \<Rightarrow> bool" where
  "kept N N' s \<longleftrightarrow>
     (\<forall>p\<in>set (owned (subs s)). N' p = N p) \<and>
     map_option unlinked (N' (root s)) = map_option unlinked (N (root s))"

lemma linked_frame: "(\<And>p. p \<in> set (owned [s]) \<Longrightarrow> N' p = N p) \<Longrightarrow> linked N' s = linked N s"
proof (induction s)
  case (Shape p cs)
  have "linked N' c = linked N c" if "c \<in> set cs" for c
    using Shape.IH [OF that] Shape.prems owned_subset [OF that] by auto
  then have "list_all (linked N') cs = list_all (linked N) cs" by (simp add: list_all_iff)
  moreover have "seg N' a (map root cs) q = seg N a (map root cs) q" for a q
    using Shape.prems root_owned [of _ cs] by (intro seg_frame) auto
  ultimately show ?case using Shape.prems [of p] by simp
qed

lemma tree_of_frame: "(\<And>p. p \<in> set (owned [s]) \<Longrightarrow> N' p = N p) \<Longrightarrow> tree_of N' s = tree_of N s"
proof (induction s)
  case (Shape p cs)
  have t: "tree_of N' c = tree_of N c" if "c \<in> set cs" for c
    using Shape.IH [OF that] Shape.prems owned_subset [OF that] by auto
  have k: "key_at N' c = key_at N c" if "c \<in> set cs" for c
    using Shape.prems root_owned [OF that] by (simp add: key_at_def)
  have "map (tree_of N') cs = map (tree_of N) cs"
    "map (\<lambda>c. keyed (key_at N' c) (tree_of N' c)) cs = map (\<lambda>c. keyed (key_at N c) (tree_of N c)) cs"
    using t k by simp_all
  then show ?case using Shape.prems [of p] by (simp only: tree_of.simps owned.simps append_Nil2) simp
qed

lemma unlinked_eq:
  "unlinked n' = unlinked n \<Longrightarrow>
     n_child n' = n_child n \<and> n_ref n' = n_ref n \<and> n_kind n' = n_kind n \<and> n_text n' = n_text n \<and> n_key n' = n_key n"
  by (cases n; cases n') (simp add: unlinked_def)

lemma kept_linked:
  assumes "kept N N' s"
  shows "linked N' s = linked N s" and "tree_of N' s = tree_of N s" and "key_at N' s = key_at N s"
proof -
  obtain p cs where s: "s = Shape p cs" by (cases s)
  have below: "N' q = N q" if "q \<in> set (owned cs)" for q using assms that by (simp add: kept_def s)
  have root: "map_option unlinked (N' p) = map_option unlinked (N p)" using assms by (simp add: kept_def s)
  have l: "linked N' c = linked N c" "tree_of N' c = tree_of N c" "key_at N' c = key_at N c" if "c \<in> set cs" for c
    using below owned_subset [OF that] linked_frame [of c N' N] tree_of_frame [of c N' N] root_owned [OF that]
    by (auto simp: key_at_def)
  have "list_all (linked N') cs = list_all (linked N) cs" using l(1) by (simp add: list_all_iff)
  moreover have "seg N' a (map root cs) q = seg N a (map root cs) q" for a q
    using below root_owned [of _ cs] by (intro seg_frame) auto
  ultimately show "linked N' s = linked N s"
    using root by (cases "N p"; cases "N' p") (auto simp: s dest: unlinked_eq)
  have "map (tree_of N') cs = map (tree_of N) cs"
    "map (\<lambda>c. keyed (key_at N' c) (tree_of N' c)) cs = map (\<lambda>c. keyed (key_at N c) (tree_of N c)) cs"
    using l(2,3) by simp_all
  note eq = this
  have "N' p \<bind> (\<lambda>n. node_value n xs kvs) = N p \<bind> (\<lambda>n. node_value n xs kvs)" for xs kvs
    using root by (cases "N p"; cases "N' p") (auto dest!: unlinked_eq intro: node_value_cong [THEN fun_cong, THEN fun_cong])
  then show "tree_of N' s = tree_of N s" by (simp only: s tree_of.simps eq)
  show "key_at N' s = key_at N s"
    using root by (cases "N p"; cases "N' p") (auto simp: s key_at_def dest: unlinked_eq)
qed

subsection \<open>New children\<close>

lemma those_map_Some: "those (map f cs) = Some xs \<longleftrightarrow> list_all2 (\<lambda>c v. f c = Some v) cs xs"
proof (induction cs arbitrary: xs)
  case (Cons c cs)
  then show ?case
    by (cases xs) (auto split: option.splits simp: Cons.IH [symmetric])
qed auto

lemma rewired_root:
  assumes "rewired a S h h'" and "cells h a = Some n"
  obtains n' where "cells h' a = Some n'" and "n_ref n' = n_ref n" and "n_kind n' = n_kind n"
    and "n_text n' = n_text n" and "n_key n' = n_key n"
proof -
  from assms obtain n' where n': "cells h' a = Some n'" "childless n' = childless n"
    by (auto simp: rewired_def)
  then have "n_ref n' = n_ref n \<and> n_kind n' = n_kind n \<and> n_text n' = n_text n \<and> n_key n' = n_key n"
    by (cases n; cases n') (simp add: childless_def)
  with n' that show thesis by blast
qed

lemma rewired_kept:
  assumes "rewired a S h h'" and "a \<notin> set (owned [c])" and "S \<inter> set (owned (subs c)) = {}"
  shows "kept (cells h) (cells h') c"
  using assms by (cases c) (auto simp: rewired_def kept_def)

text \<open>A node whose list of children has been rewired holds the new children, as they were.\<close>

lemma regraft:
  assumes "rewired a S h h'" and "kids h' a (map root cs)" and "a \<notin> set (owned cs)"
    and "\<And>c. c \<in> set cs \<Longrightarrow> linked (cells h) c \<and> S \<inter> set (owned (subs c)) = {}"
    and "cells h a = Some n" and "\<not> n_ref n"
  shows "linked (cells h') (Shape a cs)"
    and "tree_of (cells h') (Shape a cs) =
      node_value n (those (map (tree_of (cells h)) cs))
        (those (map (\<lambda>c. keyed (key_at (cells h) c) (tree_of (cells h) c)) cs))"
proof -
  obtain n' where n': "cells h' a = Some n'" "n_ref n' = n_ref n" "n_kind n' = n_kind n" "n_text n' = n_text n"
    by (rule rewired_root [OF assms(1,5)]) blast
  have k: "kept (cells h) (cells h') c" if "c \<in> set cs" for c
    using rewired_kept [OF assms(1)] assms(3,4) owned_subset [OF that] that by blast
  note same = kept_linked [OF k]
  have "list_all (linked (cells h')) cs" using same(1) assms(4) by (simp add: list_all_iff)
  with assms(2,6) n'(1,2) show "linked (cells h') (Shape a cs)"
    by (auto simp: kids_def last_map)
  have "map (tree_of (cells h')) cs = map (tree_of (cells h)) cs"
    "map (\<lambda>c. keyed (key_at (cells h') c) (tree_of (cells h') c)) cs =
       map (\<lambda>c. keyed (key_at (cells h) c) (tree_of (cells h) c)) cs"
    using same(2,3) by simp_all
  then show "tree_of (cells h') (Shape a cs) =
      node_value n (those (map (tree_of (cells h)) cs))
        (those (map (\<lambda>c. keyed (key_at (cells h) c) (tree_of (cells h) c)) cs))"
    using n' node_value_cong [OF n'(3,4)] by (simp only: tree_of.simps) simp
qed

subsection \<open>Edits\<close>

text \<open>A node with its children, in good order.\<close>

definition stands :: "store \<Rightarrow> ptr \<Rightarrow> shape list \<Rightarrow> bool" where
  "stands h a cs \<longleftrightarrow> linked (cells h) (Shape a cs) \<and> distinct (a # owned cs)"

text \<open>After an edit the children are \<open>ds\<close>, each with the value and the key that it had.\<close>

definition regrown :: "store \<Rightarrow> ptr \<Rightarrow> shape list \<Rightarrow> store \<Rightarrow> bool" where
  "regrown h a ds h' \<longleftrightarrow>
     stands h' a ds \<and>
     (\<forall>c\<in>set ds. tree_of (cells h') c = tree_of (cells h) c \<and> key_at (cells h') c = key_at (cells h) c) \<and>
     map_option n_kind (cells h' a) = map_option n_kind (cells h a)"

text \<open>A tree that is in no list, and may be put under \<open>a\<close>.\<close>

definition addable :: "store \<Rightarrow> ptr \<Rightarrow> shape list \<Rightarrow> shape \<Rightarrow> bool" where
  "addable h a cs s \<longleftrightarrow> linked (cells h) s \<and> loose h (root s) \<and> distinct (a # owned (cs @ [s]))"

text \<open>Nothing but the nodes at \<open>ps\<close> has changed.\<close>

definition only :: "ptr list \<Rightarrow> store \<Rightarrow> store \<Rightarrow> bool" where
  "only ps h h' \<longleftrightarrow> (\<forall>p. p \<notin> set ps \<longrightarrow> cells h' p = cells h p)"

lemma rewired_only: "rewired a S h h' \<Longrightarrow> a \<in> set ps \<Longrightarrow> S \<subseteq> set ps \<Longrightarrow> only ps h h'"
  by (auto simp: rewired_def only_def dest: subsetD)

lemma roots_owned: "root ` set ss \<subseteq> set (owned ss)"
  using root_owned by blast

lemma roots_disjoint:
  "distinct (owned ss) \<Longrightarrow> c \<in> set ss \<Longrightarrow> root ` set ss \<inter> set (owned (subs c)) = {}"
proof (induction ss rule: owned.induct)
  case (2 p cs ss)
  show ?case
  proof (cases "c = Shape p cs")
    case True
    with 2(3) roots_owned [of ss] show ?thesis by auto
  next
    case False
    with 2(4) have "c \<in> set ss" by simp
    moreover from owned_subset [OF this] have "set (owned (subs c)) \<subseteq> set (owned ss)" by (cases c) auto
    ultimately show ?thesis using 2 by auto
  qed
qed simp

lemma stands_kids:
  assumes "stands h a cs"
  shows "kids h a (map root cs)"
  using assms map_root_distinct [of cs] root_owned [of _ cs]
  by (auto simp: stands_def kids_def last_map)

lemma stands_child:
  assumes "stands h a cs" and "c \<in> set cs"
  shows "linked (cells h) c" and "root ` set cs \<inter> set (owned (subs c)) = {}"
  using assms roots_disjoint [of cs c] by (auto simp: stands_def list_all_iff)

lemma addable_child:
  assumes "stands h a cs" and "addable h a cs s" and "c \<in> set (s # cs)"
  shows "linked (cells h) c" and "insert (root s) (root ` set cs) \<inter> set (owned (subs c)) = {}"
  using assms stands_child [of h a cs c] roots_disjoint [of "cs @ [s]" c] by (auto simp: addable_def)

lemma addable_root: "addable h a cs s \<Longrightarrow> root s \<notin> set (a # map root cs)"
  using roots_owned [of cs] root_owned [of s "[s]"] by (auto simp: addable_def)

lemma edit_regrows:
  assumes "stands h a cs" and "rewired a S h h'" and "kids h' a (map root ds)" and "distinct (a # owned ds)"
    and "\<And>c. c \<in> set ds \<Longrightarrow> linked (cells h) c \<and> S \<inter> set (owned (subs c)) = {}"
  shows "regrown h a ds h'"
proof -
  obtain n where n: "cells h a = Some n" "\<not> n_ref n" using assms(1) by (auto simp: stands_def)
  obtain n' where "cells h' a = Some n'" "n_kind n' = n_kind n"
    by (rule rewired_root [OF assms(2) n(1)]) blast
  moreover have "kept (cells h) (cells h') c" if "c \<in> set ds" for c
    using rewired_kept [OF assms(2)] assms(4,5) owned_subset [OF that] that by auto
  note kept_linked(2,3) [OF this]
  moreover have "linked (cells h') (Shape a ds)"
    using regraft(1) [OF assms(2,3) _ assms(5) n] assms(4) by simp
  ultimately show ?thesis using assms(4) n(1) by (simp add: regrown_def stands_def)
qed

lemma insert_regrows:
  assumes "stands h a cs" and "addable h a cs s"
  shows "\<exists>h'. cJSON_InsertItemInArray (Some a) (int k) (Some (root s)) h = Some (True, h') \<and>
    regrown h a (take k cs @ s # drop k cs) h' \<and> only (a # owned (cs @ [s])) h h'"
proof -
  have s: "loose h (root s)" "distinct (a # owned (cs @ [s]))" using assms(2) by (simp_all add: addable_def)
  obtain h' where h': "cJSON_InsertItemInArray (Some a) (int k) (Some (root s)) h = Some (True, h')"
    "kids h' a (take k (map root cs) @ root s # drop k (map root cs))"
    "rewired a (insert (root s) (set (map root cs))) h h'"
    using insert_inserts [OF stands_kids [OF assms(1)] s(1) addable_root [OF assms(2)], of k] by blast
  let ?ds = "take k cs @ s # drop k cs"
  have kids: "kids h' a (map root ?ds)" using h'(2) by (simp add: take_map drop_map)
  have "owned cs = owned (take k cs) @ owned (drop k cs)" by (simp flip: owned_append)
  then have "distinct (a # owned (take k cs @ drop k cs @ [s]))" using s(2) by simp
  then have d: "distinct (a # owned ?ds)"
    by (simp only: owned_append owned_Cons [of s "drop k cs"]) auto
  have sub: "c \<in> set (s # cs)" if "c \<in> set ?ds" for c
    using that by (auto dest: in_set_takeD in_set_dropD)
  have "regrown h a ?ds h'"
    using edit_regrows [OF assms(1) h'(3) kids d] addable_child [OF assms sub] by simp
  moreover have "only (a # owned (cs @ [s])) h h'"
    using roots_owned [of cs] root_owned [of s "[s]"] by (intro rewired_only [OF h'(3)]) auto
  ultimately show ?thesis using h'(1) by blast
qed

lemma add_regrows:
  assumes "stands h a cs" and "addable h a cs s"
  shows "\<exists>h'. add_to_array (Some a) (Some (root s)) h = Some (True, h') \<and>
    regrown h a (cs @ [s]) h' \<and> only (a # owned (cs @ [s])) h h'"
proof -
  have "cJSON_InsertItemInArray (Some a) (int (length cs)) (Some (root s)) h = add_to_array (Some a) (Some (root s)) h"
    using get_array_item_nth [OF stands_kids [OF assms(1)], of "length cs"]
    by (simp add: cJSON_InsertItemInArray_def)
  with insert_regrows [OF assms, of "length cs"] show ?thesis by simp
qed

text \<open>The child at place \<open>k\<close>, in the middle of the others.\<close>

lemma child_split:
  assumes "k < length cs"
  shows "map root cs = map root (take k cs) @ root (cs ! k) # map root (drop (Suc k) cs)"
    and "owned cs = owned (take k cs) @ owned [cs ! k] @ owned (drop (Suc k) cs)"
proof -
  have cs: "cs = take k cs @ cs ! k # drop (Suc k) cs" using assms by (rule id_take_nth_drop)
  show "map root cs = map root (take k cs) @ root (cs ! k) # map root (drop (Suc k) cs)"
    using arg_cong [OF cs, of "map root"] by simp
  show "owned cs = owned (take k cs) @ owned [cs ! k] @ owned (drop (Suc k) cs)"
    using cs by (metis owned_append owned_Cons)
qed

lemma child_kept:
  assumes "stands h a cs" and "k < length cs" and "rewired a S h h'"
    and "S \<inter> set (owned (subs (cs ! k))) = {}"
  shows "kept (cells h) (cells h') (cs ! k)"
  using assms child_split(2) [OF assms(2)] by (intro rewired_kept) (auto simp: stands_def)

lemma detach_regrows:
  assumes "stands h a cs" and "k < length cs"
  shows "\<exists>h'. cJSON_DetachItemViaPointer (Some a) (Some (root (cs ! k))) h = Some (Some (root (cs ! k)), h') \<and>
    regrown h a (take k cs @ drop (Suc k) cs) h' \<and> addable h' a (take k cs @ drop (Suc k) cs) (cs ! k) \<and>
    tree_of (cells h') (cs ! k) = tree_of (cells h) (cs ! k) \<and> only (a # owned cs) h h'"
proof -
  note roots = child_split(1) [OF assms(2)] and o = child_split(2) [OF assms(2)]
  let ?ds = "take k cs @ drop (Suc k) cs" and ?c = "cs ! k"
  obtain h' where h': "cJSON_DetachItemViaPointer (Some a) (Some (root ?c)) h = Some (Some (root ?c), h')"
    "kids h' a (map root (take k cs) @ map root (drop (Suc k) cs))" "loose h' (root ?c)"
    "rewired a (set (map root cs)) h h'"
    using detach_removes [of h a "map root (take k cs)" "root ?c" "map root (drop (Suc k) cs)"]
      stands_kids [OF assms(1)] unfolding roots by blast
  have kids: "kids h' a (map root ?ds)" using h'(2) by simp
  have d: "distinct (a # owned ?ds)" and dc: "distinct (a # owned (?ds @ [?c]))"
    using assms(1) o by (auto simp: stands_def)
  have sub: "c \<in> set cs" if "c \<in> set ?ds" for c
    using that by (auto dest: in_set_takeD in_set_dropD)
  have "regrown h a ?ds h'"
    using edit_regrows [OF assms(1) h'(4) kids d] stands_child [OF assms(1) sub] by simp
  moreover have "kept (cells h) (cells h') ?c"
    using child_kept [OF assms h'(4)] stands_child(2) [OF assms(1), of ?c] assms(2) by simp
  note kept_linked [OF this]
  moreover from this(1) have "addable h' a ?ds ?c"
    using stands_child(1) [OF assms(1), of ?c] assms(2) h'(3) dc by (simp add: addable_def)
  moreover have "only (a # owned cs) h h'"
    using roots_owned [of cs] by (intro rewired_only [OF h'(4)]) auto
  ultimately show ?thesis using h'(1) by blast
qed

subsection \<open>Deleting and replacing\<close>

lemma linked_forest:
  "list_all (linked N) ss \<Longrightarrow> ss = [] \<or> seg N x (map root ss) None \<Longrightarrow> forest N ss"
proof (induction ss arbitrary: x rule: owned.induct)
  case (2 p cs ss)
  obtain n where n: "N p = Some n" "\<not> n_ref n" "n_child n = first (map root cs) None"
    and cs: "list_all (linked N) cs" "cs = [] \<or> seg N (root (last cs)) (map root cs) None"
    using "2.prems"(1) by auto
  have ss: "list_all (linked N) ss" "seg N p (map root ss) None" "n_next n = first (map root ss) None"
    using "2.prems" n(1) by simp_all
  have "forest N cs" by (rule "2.IH"(1) [OF cs])
  moreover have "forest N ss" by (rule "2.IH"(2) [OF ss(1) disjI2 [OF ss(2)]])
  ultimately show ?case using n ss(3) by simp
qed simp

lemma loose_forest:
  assumes "linked (cells h) s" and "loose h (root s)"
  shows "forest (cells h) [s]"
proof -
  obtain p cs where s: "s = Shape p cs" by (cases s)
  have "list_all (linked (cells h)) cs" "cs = [] \<or> seg (cells h) (root (last cs)) (map root cs) None"
    using assms(1) by (auto simp only: s linked.simps)
  then have "forest (cells h) cs" by (rule linked_forest)
  moreover obtain n where "cells h p = Some n" "\<not> n_ref n" "n_child n = first (map root cs) None"
    using assms(1) by (auto simp only: s linked.simps)
  moreover from this(1) assms(2) have "n_next n = None" by (auto simp: s loose_def)
  ultimately show ?thesis by (simp add: s)
qed

lemma delete_tree:
  assumes "linked (cells h) s" and "distinct (owned [s])" and "loose h (root s)"
  shows "cJSON_Delete (Some (root s)) h = Some (deleted [s] h)"
  using delete_forest [OF loose_forest [OF assms(1,3)] assms(2)] by simp

lemma deleted_regrown:
  assumes "regrown h a ds h'" and "set (owned ss) \<inter> set (a # owned ds) = {}"
  shows "regrown h a ds (deleted ss h')"
proof -
  have same: "cells (deleted ss h') p = cells h' p" if "p \<in> set (a # owned ds)" for p
    using that assms(2) by (auto simp: deleted_def without_def)
  have "linked (cells (deleted ss h')) (Shape a ds) = linked (cells h') (Shape a ds)"
    by (rule linked_frame) (simp add: same)
  moreover have "tree_of (cells (deleted ss h')) c = tree_of (cells h') c \<and>
    key_at (cells (deleted ss h')) c = key_at (cells h') c" if "c \<in> set ds" for c
  proof
    show "tree_of (cells (deleted ss h')) c = tree_of (cells h') c"
      using owned_subset [OF that] by (intro tree_of_frame same) auto
    show "key_at (cells (deleted ss h')) c = key_at (cells h') c"
      using root_owned [OF that] by (simp add: key_at_def same)
  qed
  ultimately show ?thesis using assms(1) same [of a] by (simp add: regrown_def stands_def)
qed

lemma deleted_gone: "p \<in> set (owned ss) \<Longrightarrow> cells (deleted ss h) p = None"
  by (simp add: deleted_def without_def)

lemma only_deleted: "only ps h h' \<Longrightarrow> set (owned ss) \<subseteq> set ps \<Longrightarrow> only ps h (deleted ss h')"
  by (auto simp: only_def deleted_def without_def)

text \<open>All nodes of \<open>s\<close> have been given back.\<close>

definition gone :: "store \<Rightarrow> shape \<Rightarrow> bool" where
  "gone h s \<longleftrightarrow> list_all (\<lambda>p. cells h p = None) (owned [s])"

lemma delete_child_regrows:
  assumes "stands h a cs" and "k < length cs"
  shows "\<exists>h'. do { (item, h) \<leftarrow> cJSON_DetachItemViaPointer (Some a) (Some (root (cs ! k))) h; cJSON_Delete item h } =
      Some h' \<and>
    regrown h a (take k cs @ drop (Suc k) cs) h' \<and> gone h' (cs ! k) \<and> only (a # owned cs) h h'"
proof -
  let ?ds = "take k cs @ drop (Suc k) cs" and ?c = "cs ! k"
  obtain h' where h': "cJSON_DetachItemViaPointer (Some a) (Some (root ?c)) h = Some (Some (root ?c), h')"
    "regrown h a ?ds h'" "addable h' a ?ds ?c" "only (a # owned cs) h h'"
    using detach_regrows [OF assms] by blast
  have "cJSON_Delete (Some (root ?c)) h' = Some (deleted [?c] h')"
    using h'(3) by (intro delete_tree) (auto simp: addable_def)
  moreover have "regrown h a ?ds (deleted [?c] h')"
    using h'(2,3) by (intro deleted_regrown) (auto simp: addable_def)
  moreover have "only (a # owned cs) h (deleted [?c] h')"
    using h'(4) by (rule only_deleted) (use child_split(2) [OF assms(2)] in auto)
  moreover have "gone (deleted [?c] h') ?c" by (simp add: gone_def list_all_iff deleted_gone)
  ultimately show ?thesis using h'(1) by simp
qed

lemma replace_regrows:
  assumes "stands h a cs" and "addable h a cs s" and "k < length cs"
  shows "\<exists>h'. cJSON_ReplaceItemViaPointer (Some a) (Some (root (cs ! k))) (Some (root s)) h = Some (True, h') \<and>
    regrown h a (cs[k := s]) h' \<and> gone h' (cs ! k) \<and> only (a # owned (cs @ [s])) h h'"
proof -
  note roots = child_split(1) [OF assms(3)] and o = child_split(2) [OF assms(3)]
  let ?c = "cs ! k"
  have s: "loose h (root s)" "distinct (a # owned (cs @ [s]))" using assms(2) by (simp_all add: addable_def)
  note kids = stands_kids [OF assms(1)] and new = addable_root [OF assms(2)]
  obtain n where n: "cells h a = Some n" "n_child n \<noteq> None"
    using kids assms(3) by (cases cs) (auto simp: kids_def)
  obtain h1 where h1: "relink a (root ?c) (root s) h = Some h1"
    "kids h1 a (map root (take k cs) @ root s # map root (drop (Suc k) cs))" "loose h1 (root ?c)"
    "rewired a (insert (root s) (set (map root cs))) h h1"
    using relink_replaces [of h a "map root (take k cs)" "root ?c" "map root (drop (Suc k) cs)" "root s"]
      kids new s(1) unfolding roots by blast
  have upd: "cs[k := s] = take k cs @ s # drop (Suc k) cs" using assms(3) by (rule upd_conv_take_nth_drop)
  have kids1: "kids h1 a (map root (cs[k := s]))" using h1(2) by (simp add: upd)
  have o': "owned (cs[k := s]) = owned (take k cs) @ owned [s] @ owned (drop (Suc k) cs)"
    by (metis upd owned_append owned_Cons)
  have d: "distinct (a # owned (cs[k := s]))" using s(2) by (simp add: o o') blast
  have sub: "c \<in> set (s # cs)" if "c \<in> set (cs[k := s])" for c
    using that set_update_subset_insert [of cs k s] by auto
  have regrown: "regrown h a (cs[k := s]) h1"
    using edit_regrows [OF assms(1) h1(4) kids1 d] addable_child [OF assms(1,2) sub] by simp
  have c: "?c \<in> set (s # cs)" using assms(3) by simp
  have "kept (cells h) (cells h1) ?c"
    using child_kept [OF assms(1,3) h1(4)] addable_child(2) [OF assms(1,2) c] by simp
  from kept_linked(1) [OF this] have "linked (cells h1) ?c" using addable_child(1) [OF assms(1,2) c] by simp
  then have del: "cJSON_Delete (Some (root ?c)) h1 = Some (deleted [?c] h1)"
    using h1(3) s(2) by (intro delete_tree) (auto simp: o)
  have "regrown h a (cs[k := s]) (deleted [?c] h1)"
    using s(2) by (intro deleted_regrown [OF regrown]) (auto simp: o o')
  moreover have "only (a # owned (cs @ [s])) h h1"
    using roots_owned [of cs] root_owned [of s "[s]"] by (intro rewired_only [OF h1(4)]) auto
  then have "only (a # owned (cs @ [s])) h (deleted [?c] h1)"
    by (rule only_deleted) (auto simp: o)
  moreover have "gone (deleted [?c] h1) ?c" by (simp add: gone_def list_all_iff deleted_gone)
  moreover have "root s \<noteq> root ?c" using new assms(3) by auto
  ultimately show ?thesis
    using h1(1) n del by (simp add: cJSON_ReplaceItemViaPointer_def)
qed

end
