(* ===== verification/Cjson_Members.thy ===== *)
theory Cjson_Members
  imports Cjson_Memory
begin

text \<open>
  The members of objects in the store, with their keys, and references; then the edits of
  arrays and objects as the edits of lists that \<open>Cjson_Tree\<close> describes.
\<close>

subsection \<open>Keys\<close>

text \<open>Where the loops of \<^verbatim>\<open>get_object_item\<close> stop. In the comparison without case a member
  without a key differs from every name.\<close>

definition stops :: "bool \<Rightarrow> string \<Rightarrow> string option \<Rightarrow> bool" where
  "stops case_sensitive name key =
     (if case_sensitive then (case key of None \<Rightarrow> True | Some k \<Rightarrow> name = k)
      else (case key of None \<Rightarrow> False | Some k \<Rightarrow> same_name name k))"

partial_function (option) seek :: "bool \<Rightarrow> string \<Rightarrow> ptr option \<Rightarrow> store \<Rightarrow> ptr option option" where
  "seek case_sensitive name cur h =
     (case cur of
        None \<Rightarrow> Some None
      | Some p \<Rightarrow> do {
          n \<leftarrow> cells h p;
          if stops case_sensitive name (n_key n) then Some (Some p)
          else seek case_sensitive name (n_next n) h
        })"

definition get_member :: "ptr option \<Rightarrow> string option \<Rightarrow> bool \<Rightarrow> store \<Rightarrow> ptr option option" where
  "get_member object name case_sensitive h =
     (case (object, name) of
        (Some a, Some s) \<Rightarrow> do {
          n \<leftarrow> cells h a;
          cur \<leftarrow> seek case_sensitive s (n_child n) h;
          case cur of
            None \<Rightarrow> Some None
          | Some p \<Rightarrow> do { n \<leftarrow> cells h p; Some (if n_key n = None then None else Some p) }
        }
      | _ \<Rightarrow> Some None)"

definition drop_key :: "ptr \<Rightarrow> store \<Rightarrow> store option" where
  "drop_key i h = do {
     n \<leftarrow> cells h i;
     Some (h\<lparr>texts := texts h - (if \<not> n_const n \<and> n_key n \<noteq> None then 1 else 0)\<rparr>)
   }"

definition set_key :: "ptr \<Rightarrow> string \<Rightarrow> bool \<Rightarrow> store \<Rightarrow> store option" where
  "set_key i key constant h = update i (\<lambda>n. n\<lparr>n_key := Some key, n_const := constant\<rparr>) h"

text \<open>\<^verbatim>\<open>add_item_to_object\<close>: a constant key is taken as it is, any other is copied.\<close>

definition add_member ::
  "platform \<Rightarrow> ptr option \<Rightarrow> string option \<Rightarrow> ptr option \<Rightarrow> bool \<Rightarrow> store \<Rightarrow> (bool \<times> store) option" where
  "add_member P object name item constant_key h =
     (case (object, name, item) of
        (Some a, Some s, Some i) \<Rightarrow>
          if a = i then Some (False, h)
          else if constant_key then do {
            h \<leftarrow> drop_key i h;
            h \<leftarrow> set_key i s True h;
            add_to_array object item h
          }
          else (case strdup P s of
                  None \<Rightarrow> Some (False, h)
                | Some key \<Rightarrow> do {
                    h \<leftarrow> drop_key i (h\<lparr>texts := texts h + 1\<rparr>);
                    h \<leftarrow> set_key i key False h;
                    add_to_array object item h
                  })
      | _ \<Rightarrow> Some (False, h))"

definition detach_member :: "ptr option \<Rightarrow> string option \<Rightarrow> bool \<Rightarrow> store \<Rightarrow> (ptr option \<times> store) option" where
  "detach_member object name case_sensitive h = do {
     to_detach \<leftarrow> get_member object name case_sensitive h;
     cJSON_DetachItemViaPointer object to_detach h
   }"

definition delete_member :: "ptr option \<Rightarrow> string option \<Rightarrow> bool \<Rightarrow> store \<Rightarrow> store option" where
  "delete_member object name case_sensitive h = do {
     (item, h) \<leftarrow> detach_member object name case_sensitive h;
     cJSON_Delete item h
   }"

definition replace_member ::
  "platform \<Rightarrow> ptr option \<Rightarrow> string option \<Rightarrow> ptr option \<Rightarrow> bool \<Rightarrow> store \<Rightarrow> (bool \<times> store) option" where
  "replace_member P object name replacement case_sensitive h =
     (case (replacement, name) of
        (Some r, Some s) \<Rightarrow> do {
          h \<leftarrow> drop_key r h;
          case strdup P s of
            None \<Rightarrow> do { h \<leftarrow> update r (\<lambda>n. n\<lparr>n_key := None\<rparr>) h; Some (False, h) }
          | Some key \<Rightarrow> do {
              h \<leftarrow> set_key r key False (h\<lparr>texts := texts h + 1\<rparr>);
              item \<leftarrow> get_member object name case_sensitive h;
              cJSON_ReplaceItemViaPointer object item replacement h
            }
        }
      | _ \<Rightarrow> Some (False, h))"

subsection \<open>References\<close>

definition create_reference :: "platform \<Rightarrow> ptr option \<Rightarrow> store \<Rightarrow> (ptr option \<times> store) option" where
  "create_reference P item h =
     (case item of
        None \<Rightarrow> Some (None, h)
      | Some p \<Rightarrow> do {
          n \<leftarrow> cells h p;
          Some (new_node P (n\<lparr>n_key := None, n_ref := True, n_next := None, n_prev := None\<rparr>) h)
        })"

definition cJSON_AddItemReferenceToArray ::
  "platform \<Rightarrow> ptr option \<Rightarrow> ptr option \<Rightarrow> store \<Rightarrow> (bool \<times> store) option" where
  "cJSON_AddItemReferenceToArray P array item h =
     (if array = None then Some (False, h)
      else do { (r, h) \<leftarrow> create_reference P item h; add_to_array array r h })"

definition cJSON_AddItemReferenceToObject ::
  "platform \<Rightarrow> ptr option \<Rightarrow> string option \<Rightarrow> ptr option \<Rightarrow> store \<Rightarrow> (bool \<times> store) option" where
  "cJSON_AddItemReferenceToObject P object name item h =
     (if object = None \<or> name = None then Some (False, h)
      else do { (r, h) \<leftarrow> create_reference P item h; add_member P object name r False h })"

text \<open>A reference is given back without what it refers to.\<close>

lemma reference_spares:
  assumes "create_reference P (Some p) h = Some (Some r, h1)" and "cells h (brk h) = None"
  shows "\<exists>h2. cJSON_Delete (Some r) h1 = Some h2 \<and> cells h2 = cells h \<and> texts h2 = texts h"
proof -
  obtain n where n: "cells h p = Some n" and r: "r = brk h" and
    h1: "h1 = h\<lparr>cells := (cells h)(r := Some (n\<lparr>n_key := None, n_ref := True, n_next := None, n_prev := None\<rparr>)),
      brk := Suc r\<rparr>"
    using assms(1) by (auto simp: create_reference_def new_node_def split: option.splits if_splits bind_splits)
  have "forest (cells h1) [Shape r []]" by (simp add: h1)
  from delete_forest [OF this] have "cJSON_Delete (Some r) h1 = Some (deleted [Shape r []] h1)" by simp
  moreover have "cells (deleted [Shape r []] h1) = cells h" "texts (deleted [Shape r []] h1) = texts h"
    using assms(2) by (auto simp: deleted_def without_def h1 r texts_of_def own_texts_def)
  ultimately show ?thesis by blast
qed

subsection \<open>Arrays\<close>

lemma holds_array:
  "holds h (Shape a cs) (cJSON_Array xs) \<longleftrightarrow>
     stands h a cs \<and> map_option n_kind (cells h a) = Some Is_Array \<and>
     list_all2 (\<lambda>c v. tree_of (cells h) c = Some v) cs xs"
  by (auto simp: holds_def stands_def node_value_def those_map_Some [symmetric] split: kind.splits option.splits)

lemma regrown_array:
  assumes "regrown h a ds h'" and "map_option n_kind (cells h a) = Some Is_Array"
    and "list_all2 (\<lambda>c v. tree_of (cells h) c = Some v) ds ys"
  shows "holds h' (Shape a ds) (cJSON_Array ys)"
proof -
  have "list_all2 (\<lambda>c v. tree_of (cells h') c = Some v) ds ys"
    using assms(1) by (intro list.rel_mono_strong [OF assms(3)]) (simp add: regrown_def)
  with assms(1,2) show ?thesis by (simp add: holds_array regrown_def)
qed

text \<open>A tree that is in no list, and may be put into \<open>t\<close>.\<close>

definition may_add :: "store \<Rightarrow> shape \<Rightarrow> shape \<Rightarrow> cJSON \<Rightarrow> bool" where
  "may_add h t s v \<longleftrightarrow> holds h s v \<and> loose h (root s) \<and> distinct (owned [t, s])"

lemma may_add_addable:
  assumes "may_add h (Shape a cs) s v"
  shows "addable h a cs s" and "tree_of (cells h) s = Some v"
  using assms owned_Cons [of "Shape a cs" "[s]"] by (auto simp: may_add_def addable_def holds_def)

lemma stands_subtree:
  assumes "stands h a cs" and "k < length cs" and "tree_of (cells h) (cs ! k) = Some v"
  shows "holds h (cs ! k) v"
  using assms child_split(2) [of k cs] stands_child(1) [OF assms(1), of "cs ! k"]
  by (simp add: holds_def stands_def)

lemma list_all2_remove:
  "list_all2 R xs ys \<Longrightarrow> list_all2 R (take k xs @ drop (Suc k) xs) (take k ys @ drop (Suc k) ys)"
  by (simp add: list_all2_appendI list_all2_takeI list_all2_dropI)

lemma array_insert:
  assumes "holds h (Shape a cs) (cJSON_Array xs)" and "may_add h (Shape a cs) s v"
  shows "\<exists>h'. cJSON_InsertItemInArray (Some a) (int k) (Some (root s)) h = Some (True, h') \<and>
    holds h' (Shape a (take k cs @ s # drop k cs)) (cJSON_Array (take k xs @ v # drop k xs))"
proof -
  note arr = assms(1) [unfolded holds_array] and new = may_add_addable [OF assms(2)]
  have "list_all2 (\<lambda>c v. tree_of (cells h) c = Some v) (take k cs @ s # drop k cs) (take k xs @ v # drop k xs)"
    using arr new(2) by (simp add: list_all2_appendI list_all2_takeI list_all2_dropI)
  with insert_regrows [OF _ new(1), of k] arr show ?thesis by (blast intro: regrown_array)
qed

lemma array_add:
  assumes "holds h (Shape a cs) (cJSON_Array xs)" and "may_add h (Shape a cs) s v"
  shows "\<exists>h'. add_to_array (Some a) (Some (root s)) h = Some (True, h') \<and>
    holds h' (Shape a (cs @ [s])) (cJSON_Array (xs @ [v]))"
proof -
  note arr = assms(1) [unfolded holds_array] and new = may_add_addable [OF assms(2)]
  have "list_all2 (\<lambda>c v. tree_of (cells h) c = Some v) (cs @ [s]) (xs @ [v])"
    using arr new(2) by (simp add: list_all2_appendI)
  with add_regrows [OF _ new(1)] arr show ?thesis by (blast intro: regrown_array)
qed

lemma array_item:
  assumes "holds h (Shape a cs) (cJSON_Array xs)" and "k < length xs"
  shows "k < length cs" and "get_array_item (Some a) k h = Some (Some (root (cs ! k)))"
    and "tree_of (cells h) (cs ! k) = Some (xs ! k)"
proof -
  note arr = assms(1) [unfolded holds_array]
  then show k: "k < length cs" using assms(2) by (auto dest: list_all2_lengthD)
  show "get_array_item (Some a) k h = Some (Some (root (cs ! k)))"
    using get_array_item_nth [OF stands_kids, of h a cs k] arr k by simp
  show "tree_of (cells h) (cs ! k) = Some (xs ! k)"
    using arr k by (auto dest: list_all2_nthD)
qed

lemma array_detach:
  assumes "holds h (Shape a cs) (cJSON_Array xs)" and "k < length xs"
  shows "\<exists>h'. cJSON_DetachItemFromArray (Some a) (int k) h = Some (Some (root (cs ! k)), h') \<and>
    holds h' (Shape a (take k cs @ drop (Suc k) cs)) (cJSON_Array (take k xs @ drop (Suc k) xs)) \<and>
    may_add h' (Shape a (take k cs @ drop (Suc k) cs)) (cs ! k) (xs ! k)"
proof -
  note arr = assms(1) [unfolded holds_array] and item = array_item [OF assms]
  let ?ds = "take k cs @ drop (Suc k) cs" and ?c = "cs ! k"
  obtain h' where h': "cJSON_DetachItemViaPointer (Some a) (Some (root ?c)) h = Some (Some (root ?c), h')"
    "regrown h a ?ds h'" "addable h' a ?ds ?c" "tree_of (cells h') ?c = tree_of (cells h) ?c"
    using detach_regrows [of h a cs k] arr item(1) by blast
  have "holds h' (Shape a ?ds) (cJSON_Array (take k xs @ drop (Suc k) xs))"
    using regrown_array [OF h'(2)] arr list_all2_remove by blast
  moreover have "may_add h' (Shape a ?ds) ?c (xs ! k)"
    using h'(3,4) item(3) owned_Cons [of "Shape a ?ds" "[?c]"] by (simp add: may_add_def addable_def holds_def)
  ultimately show ?thesis using h'(1) item(2) by (simp add: cJSON_DetachItemFromArray_def)
qed

lemma array_delete:
  assumes "holds h (Shape a cs) (cJSON_Array xs)" and "k < length xs"
  shows "\<exists>h'. cJSON_DeleteItemFromArray (Some a) (int k) h = Some h' \<and>
    holds h' (Shape a (take k cs @ drop (Suc k) cs)) (cJSON_Array (take k xs @ drop (Suc k) xs)) \<and>
    gone h' (cs ! k) \<and> only (a # owned cs) h h'"
proof -
  note arr = assms(1) [unfolded holds_array] and item = array_item [OF assms]
  from delete_child_regrows [of h a cs k] arr item(1) obtain h' where
    h': "do { (item, h) \<leftarrow> cJSON_DetachItemViaPointer (Some a) (Some (root (cs ! k))) h; cJSON_Delete item h } = Some h'"
    "regrown h a (take k cs @ drop (Suc k) cs) h'" "gone h' (cs ! k)" "only (a # owned cs) h h'"
    by blast
  have "holds h' (Shape a (take k cs @ drop (Suc k) cs)) (cJSON_Array (take k xs @ drop (Suc k) xs))"
    using regrown_array [OF h'(2)] arr list_all2_remove by blast
  with h' item(2) show ?thesis by (simp add: cJSON_DeleteItemFromArray_def cJSON_DetachItemFromArray_def)
qed

lemma array_replace:
  assumes "holds h (Shape a cs) (cJSON_Array xs)" and "may_add h (Shape a cs) s v" and "k < length xs"
  shows "\<exists>h'. cJSON_ReplaceItemInArray (Some a) (int k) (Some (root s)) h = Some (True, h') \<and>
    holds h' (Shape a (cs[k := s])) (cJSON_Array (xs[k := v])) \<and> gone h' (cs ! k) \<and>
    only (a # owned (cs @ [s])) h h'"
proof -
  note arr = assms(1) [unfolded holds_array] and new = may_add_addable [OF assms(2)]
    and item = array_item [OF assms(1,3)]
  have "list_all2 (\<lambda>c v. tree_of (cells h) c = Some v) (cs[k := s]) (xs[k := v])"
    using arr new(2) by (blast intro: list_all2_update_cong)
  with replace_regrows [OF _ new(1) item(1)] arr have
    "\<exists>h'. cJSON_ReplaceItemViaPointer (Some a) (Some (root (cs ! k))) (Some (root s)) h = Some (True, h') \<and>
       holds h' (Shape a (cs[k := s])) (cJSON_Array (xs[k := v])) \<and> gone h' (cs ! k) \<and>
       only (a # owned (cs @ [s])) h h'"
    by (blast intro: regrown_array)
  then show ?thesis using item(2) by (simp add: cJSON_ReplaceItemInArray_def)
qed

subsection \<open>Objects\<close>

fun place :: "('a \<Rightarrow> bool) \<Rightarrow> 'a list \<Rightarrow> nat option" where
  "place f [] = None"
| "place f (x # xs) = (if f x then Some 0 else map_option Suc (place f xs))"

lemma place_Some: "place f xs = Some k \<Longrightarrow> k < length xs \<and> f (xs ! k)"
  by (induction xs arbitrary: k) (auto split: if_splits)

lemma place_list_all2:
  "list_all2 R xs ys \<Longrightarrow> (\<And>x y. R x y \<Longrightarrow> f x = g y) \<Longrightarrow> place f xs = place g ys"
  by (induction xs ys rule: list_all2_induct) auto

text \<open>The name of a member, compared as \<^verbatim>\<open>get_object_item\<close> does; the first such member is
  the one that the look-ups on trees find.\<close>

definition named :: "bool \<Rightarrow> string \<Rightarrow> string \<times> cJSON \<Rightarrow> bool" where
  "named case_sensitive name kv = (if case_sensitive then name = fst kv else same_name name (fst kv))"

lemma lookup_place:
  "cJSON_GetObjectItemCaseSensitive (Some (cJSON_Object kvs)) name =
     map_option (\<lambda>k. snd (kvs ! k)) (place (named True name) kvs)"
  "cJSON_GetObjectItem (Some (cJSON_Object kvs)) name =
     map_option (\<lambda>k. snd (kvs ! k)) (place (named False name) kvs)"
  unfolding cJSON_GetObjectItemCaseSensitive_def cJSON_GetObjectItem_def
  by (induction kvs) (auto simp: named_def option.map_comp comp_def)

definition member_is :: "store \<Rightarrow> shape \<Rightarrow> string \<times> cJSON \<Rightarrow> bool" where
  "member_is h c kv \<longleftrightarrow> key_at (cells h) c = Some (fst kv) \<and> tree_of (cells h) c = Some (snd kv)"

lemma holds_object:
  "holds h (Shape a cs) (cJSON_Object kvs) \<longleftrightarrow>
     stands h a cs \<and> map_option n_kind (cells h a) = Some Is_Object \<and> list_all2 (member_is h) cs kvs"
proof -
  have "keyed k v = Some kv \<longleftrightarrow> k = Some (fst kv) \<and> v = Some (snd kv)" for k v kv
    by (cases kv) (auto simp: keyed_def split: bind_splits)
  then have "(\<lambda>c kv. keyed (key_at (cells h) c) (tree_of (cells h) c) = Some kv) = member_is h"
    by (intro ext) (simp add: member_is_def)
  then show ?thesis
    by (auto simp: holds_def stands_def node_value_def those_map_Some split: kind.splits option.splits)
qed

lemma regrown_object:
  assumes "regrown h a ds h'" and "map_option n_kind (cells h a) = Some Is_Object"
    and "list_all2 (member_is h) ds kvs"
  shows "holds h' (Shape a ds) (cJSON_Object kvs)"
proof -
  have "list_all2 (member_is h') ds kvs"
    using assms(1) by (intro list.rel_mono_strong [OF assms(3)]) (simp add: regrown_def member_is_def)
  with assms(1,2) show ?thesis by (simp add: holds_object regrown_def)
qed

lemma seek_place:
  "seg (cells h) x (map root cs) None \<Longrightarrow>
     seek case_sensitive name (first (map root cs) None) h =
       Some (map_option (\<lambda>k. root (cs ! k)) (place (\<lambda>c. stops case_sensitive name (key_at (cells h) c)) cs))"
proof (induction cs arbitrary: x)
  case Nil
  then show ?case by (subst seek.simps) simp
next
  case (Cons c cs)
  then obtain n where n: "cells h (root c) = Some n" "n_next n = first (map root cs) None"
    and s: "seg (cells h) (root c) (map root cs) None" by auto
  then show ?case using Cons.IH [OF s]
    by (subst seek.simps) (simp add: key_at_def option.map_comp comp_def)
qed

lemma object_find:
  assumes "holds h (Shape a cs) (cJSON_Object kvs)"
  shows "get_member (Some a) (Some name) case_sensitive h =
    Some (map_option (\<lambda>k. root (cs ! k)) (place (named case_sensitive name) kvs))"
proof -
  note obj = assms [unfolded holds_object]
  have kids: "kids h a (map root cs)" using obj by (blast intro: stands_kids)
  then obtain n where n: "cells h a = Some n" "n_child n = first (map root cs) None" by (auto simp: kids_def)
  have "seek case_sensitive name (n_child n) h =
      Some (map_option (\<lambda>k. root (cs ! k)) (place (\<lambda>c. stops case_sensitive name (key_at (cells h) c)) cs))"
  proof (cases "cs = []")
    case True
    then show ?thesis by (subst seek.simps) (simp add: n(2))
  next
    case False
    with kids seek_place show ?thesis by (auto simp: kids_def n(2))
  qed
  also have "place (\<lambda>c. stops case_sensitive name (key_at (cells h) c)) cs = place (named case_sensitive name) kvs"
    using obj by (intro place_list_all2 [of "member_is h"]) (auto simp: member_is_def stops_def named_def)
  finally have seek: "seek case_sensitive name (n_child n) h =
      Some (map_option (\<lambda>k. root (cs ! k)) (place (named case_sensitive name) kvs))" .
  show ?thesis
  proof (cases "place (named case_sensitive name) kvs")
    case None
    with seek n show ?thesis by (simp add: get_member_def)
  next
    case (Some k)
    then have "k < length kvs" using place_Some by blast
    with obj have "member_is h (cs ! k) (kvs ! k)" by (auto dest: list_all2_nthD2)
    then obtain m where "cells h (root (cs ! k)) = Some m" "n_key m \<noteq> None"
      by (auto simp: member_is_def key_at_def split: option.splits)
    with Some seek n show ?thesis by (simp add: get_member_def)
  qed
qed

lemma object_item:
  assumes "holds h (Shape a cs) (cJSON_Object kvs)" and "place (named case_sensitive name) kvs = Some k"
  shows "k < length cs" and "holds h (cs ! k) (snd (kvs ! k))"
proof -
  note obj = assms(1) [unfolded holds_object]
  have k: "k < length kvs" using place_Some [OF assms(2)] by blast
  then show kc: "k < length cs" using obj by (auto dest: list_all2_lengthD)
  have "member_is h (cs ! k) (kvs ! k)" using obj k by (auto dest: list_all2_nthD2)
  then show "holds h (cs ! k) (snd (kvs ! k))" using obj kc by (auto simp: member_is_def intro: stands_subtree)
qed

lemma object_delete:
  assumes "holds h (Shape a cs) (cJSON_Object kvs)" and "place (named case_sensitive name) kvs = Some k"
  shows "\<exists>h'. delete_member (Some a) (Some name) case_sensitive h = Some h' \<and>
    holds h' (Shape a (take k cs @ drop (Suc k) cs)) (cJSON_Object (take k kvs @ drop (Suc k) kvs)) \<and>
    gone h' (cs ! k) \<and> only (a # owned cs) h h'"
proof -
  note obj = assms(1) [unfolded holds_object] and k = object_item(1) [OF assms]
  from delete_child_regrows [of h a cs k] obj k obtain h' where
    h': "do { (item, h) \<leftarrow> cJSON_DetachItemViaPointer (Some a) (Some (root (cs ! k))) h; cJSON_Delete item h } = Some h'"
    "regrown h a (take k cs @ drop (Suc k) cs) h'" "gone h' (cs ! k)" "only (a # owned cs) h h'"
    by blast
  have "holds h' (Shape a (take k cs @ drop (Suc k) cs)) (cJSON_Object (take k kvs @ drop (Suc k) kvs))"
    using regrown_object [OF h'(2)] obj list_all2_remove by blast
  with h' object_find [OF assms(1), of name case_sensitive] assms(2) show ?thesis
    by (simp add: delete_member_def detach_member_def)
qed

text \<open>A new key for the root of \<open>s\<close>, and nothing else.\<close>

definition rekeyed :: "shape \<Rightarrow> string option \<Rightarrow> store \<Rightarrow> store \<Rightarrow> bool" where
  "rekeyed s key h h' \<longleftrightarrow>
     (\<exists>n c. cells h (root s) = Some n \<and> cells h' = (cells h)(root s := Some (n\<lparr>n_key := key, n_const := c\<rparr>)))"

lemma drop_key_cells: "cells h p = Some n \<Longrightarrow> \<exists>h'. drop_key p h = Some h' \<and> cells h' = cells h"
  by (simp add: drop_key_def)

lemma set_key_rekeys:
  assumes "cells h (root s) = Some n" and "cells h0 = cells h"
  shows "\<exists>h'. set_key (root s) key constant h0 = Some h' \<and> rekeyed s (Some key) h h'"
  using assms by (auto simp: set_key_def rekeyed_def)

lemma rekeyed_self:
  assumes "rekeyed s key h h'" and "distinct (owned [s])"
  shows "linked (cells h') s = linked (cells h) s" and "tree_of (cells h') s = tree_of (cells h) s"
    and "key_at (cells h') s = key" and "loose h' (root s) = loose h (root s)"
proof -
  obtain p ds where s: "s = Shape p ds" by (cases s)
  obtain n c where n: "cells h p = Some n" and h': "cells h' = (cells h)(p := Some (n\<lparr>n_key := key, n_const := c\<rparr>))"
    using assms(1) by (auto simp: rekeyed_def s)
  have same: "cells h' q = cells h q" if "q \<in> set (owned ds)" for q
    using that assms(2) by (auto simp: h' s)
  have d: "linked (cells h') d = linked (cells h) d" "tree_of (cells h') d = tree_of (cells h) d"
    "key_at (cells h') d = key_at (cells h) d" if "d \<in> set ds" for d
  proof -
    have "cells h' q = cells h q" if "q \<in> set (owned [d])" for q
      using that owned_subset [OF \<open>d \<in> set ds\<close>] same by blast
    from linked_frame [of d "cells h'", OF this] tree_of_frame [of d "cells h'", OF this]
    show "linked (cells h') d = linked (cells h) d" "tree_of (cells h') d = tree_of (cells h) d"
      by simp_all
    show "key_at (cells h') d = key_at (cells h) d" using root_owned [OF that] by (simp add: key_at_def same)
  qed
  have "seg (cells h') x (map root ds) q = seg (cells h) x (map root ds) q" for x q
    using root_owned [of _ ds] by (intro seg_frame same) auto
  moreover have "list_all (linked (cells h')) ds = list_all (linked (cells h)) ds"
    using d(1) by (simp add: list_all_iff)
  ultimately show "linked (cells h') s = linked (cells h) s" by (simp add: s n h')
  have "map (tree_of (cells h')) ds = map (tree_of (cells h)) ds"
    "map (\<lambda>d. keyed (key_at (cells h') d) (tree_of (cells h') d)) ds =
       map (\<lambda>d. keyed (key_at (cells h) d) (tree_of (cells h) d)) ds"
    using d(2,3) by simp_all
  moreover have "node_value (n\<lparr>n_key := key, n_const := c\<rparr>) = node_value n" by (rule node_value_cong) simp_all
  moreover have "cells h' p = Some (n\<lparr>n_key := key, n_const := c\<rparr>)" by (simp add: h')
  ultimately show "tree_of (cells h') s = tree_of (cells h) s" by (simp only: s tree_of.simps n) simp
  show "key_at (cells h') s = key" by (simp add: s key_at_def h')
  show "loose h' (root s) = loose h (root s)" by (simp add: s loose_def h' n)
qed

lemma rekeyed_object:
  assumes "rekeyed s key h h'" and "holds h (Shape a cs) (cJSON_Object kvs)" and "addable h a cs s"
  shows "holds h' (Shape a cs) (cJSON_Object kvs)" and "addable h' a cs s"
proof -
  have same: "cells h' q = cells h q" if "q \<in> set (a # owned cs)" for q
    using that assms(1,3) root_owned [of s "[s]"] by (auto simp: rekeyed_def addable_def)
  then have "cells h' q = cells h q" if "q \<in> set (owned [Shape a cs])" for q
    using that by simp
  note linked_frame [of "Shape a cs" "cells h'", OF this] tree_of_frame [of "Shape a cs" "cells h'", OF this]
  with assms(2) show "holds h' (Shape a cs) (cJSON_Object kvs)" by (simp only: holds_def)
  have "distinct (owned [s])" using assms(3) by (simp add: addable_def)
  note rekeyed_self [OF assms(1) this]
  with assms(3) show "addable h' a cs s" by (simp add: addable_def)
qed

text \<open>The object with its new member, or as it was, as \<open>Cjson_Tree\<close> has it.\<close>

lemma object_add:
  assumes "holds h (Shape a cs) (cJSON_Object kvs)" and "may_add h (Shape a cs) s v"
    and "add_item_to_object P (Some (cJSON_Object kvs)) name (Some v) = (ok, Some w)"
  shows "\<exists>h'. add_member P (Some a) (Some name) (Some (root s)) False h = Some (ok, h') \<and>
    holds h' (Shape a (if ok then cs @ [s] else cs)) w"
proof (cases "strdup P name")
  case None
  note new = may_add_addable [OF assms(2)]
  from None new(1) assms(1,3) addable_root [OF new(1)] show ?thesis
    by (auto simp: add_item_to_object_def add_member_def)
next
  case (Some key)
  note new = may_add_addable [OF assms(2)]
  obtain n where n: "cells h (root s) = Some n" using new(1) by (auto simp: addable_def loose_def)
  obtain h0 where h0: "drop_key (root s) (h\<lparr>texts := texts h + 1\<rparr>) = Some h0" "cells h0 = cells h"
    using drop_key_cells [of "h\<lparr>texts := texts h + 1\<rparr>"] n by auto
  obtain h1 where h1: "set_key (root s) key False h0 = Some h1" and re: "rekeyed s (Some key) h h1"
    using set_key_rekeys [OF n h0(2)] by blast
  have d: "distinct (owned [s])" using new(1) by (simp add: addable_def)
  note obj1 = rekeyed_object [OF re assms(1) new(1)]
  then have stands: "stands h1 a cs" "map_option n_kind (cells h1 a) = Some Is_Object" "list_all2 (member_is h1) cs kvs"
    by (simp_all add: holds_object)
  have "member_is h1 s (key, v)"
    using rekeyed_self(2,3) [OF re d] new(2) by (simp add: member_is_def)
  with stands(3) have "list_all2 (member_is h1) (cs @ [s]) (kvs @ [(key, v)])"
    by (simp add: list_all2_appendI)
  with add_regrows [OF stands(1) obj1(2)] obtain h2 where
    "add_to_array (Some a) (Some (root s)) h1 = Some (True, h2)"
    "holds h2 (Shape a (cs @ [s])) (cJSON_Object (kvs @ [(key, v)]))"
    using regrown_object stands(2) by blast
  moreover have "a \<noteq> root s" using addable_root [OF new(1)] by auto
  ultimately show ?thesis
    using Some h0(1) h1 assms(3) by (auto simp: add_item_to_object_def add_member_def)
qed

lemma add_member_fails:
  assumes "may_add h (Shape a cs) s v" and "strdup P name = None"
  shows "add_member P (Some a) (Some name) (Some (root s)) False h = Some (False, h)"
  using assms(2) by (simp add: add_member_def)

lemma object_replace:
  assumes "holds h (Shape a cs) (cJSON_Object kvs)" and "may_add h (Shape a cs) s v"
    and "place (named case_sensitive name) kvs = Some k" and "strdup P name = Some key"
  shows "\<exists>h'. replace_member P (Some a) (Some name) (Some (root s)) case_sensitive h = Some (True, h') \<and>
    holds h' (Shape a (cs[k := s])) (cJSON_Object (kvs[k := (key, v)])) \<and> gone h' (cs ! k)"
proof -
  note new = may_add_addable [OF assms(2)]
  obtain n where n: "cells h (root s) = Some n" using new(1) by (auto simp: addable_def loose_def)
  obtain h0 where h0: "drop_key (root s) h = Some h0" "cells h0 = cells h"
    using drop_key_cells [OF n] by blast
  obtain h1 where h1: "set_key (root s) key False (h0\<lparr>texts := texts h0 + 1\<rparr>) = Some h1"
    and re: "rekeyed s (Some key) h h1"
    using set_key_rekeys [OF n, of "h0\<lparr>texts := texts h0 + 1\<rparr>"] h0(2) by auto
  have d: "distinct (owned [s])" using new(1) by (simp add: addable_def)
  note obj1 = rekeyed_object [OF re assms(1) new(1)]
  then have stands: "stands h1 a cs" "map_option n_kind (cells h1 a) = Some Is_Object" "list_all2 (member_is h1) cs kvs"
    by (simp_all add: holds_object)
  have "member_is h1 s (key, v)"
    using rekeyed_self(2,3) [OF re d] new(2) by (simp add: member_is_def)
  with stands(3) have "list_all2 (member_is h1) (cs[k := s]) (kvs[k := (key, v)])"
    by (rule list_all2_update_cong)
  with replace_regrows [OF stands(1) obj1(2) object_item(1) [OF assms(1,3)]] obtain h2 where
    "cJSON_ReplaceItemViaPointer (Some a) (Some (root (cs ! k))) (Some (root s)) h1 = Some (True, h2)"
    "holds h2 (Shape a (cs[k := s])) (cJSON_Object (kvs[k := (key, v)]))" "gone h2 (cs ! k)"
    using regrown_object stands(2) by blast
  with h0(1) h1 assms(3,4) object_find [OF obj1(1), of name case_sensitive] show ?thesis
    by (simp add: replace_member_def)
qed

text \<open>A new key alone changes neither the object nor that the node can be added to it.\<close>

lemma rekeyed_may_add:
  assumes "rekeyed s key h h'" and "holds h (Shape a cs) (cJSON_Object kvs)" and "may_add h (Shape a cs) s v"
  shows "holds h' (Shape a cs) (cJSON_Object kvs)" and "may_add h' (Shape a cs) s v" and "only [root s] h h'"
proof -
  note new = may_add_addable [OF assms(3)]
  then have "distinct (owned [s])" by (simp add: addable_def)
  note rekeyed_self [OF assms(1) this]
  with assms(3) show "may_add h' (Shape a cs) s v" by (simp add: may_add_def holds_def)
  show "holds h' (Shape a cs) (cJSON_Object kvs)" by (rule rekeyed_object(1) [OF assms(1,2) new(1)])
  show "only [root s] h h'" using assms(1) by (auto simp: only_def rekeyed_def)
qed

text \<open>Without memory for the key nothing is replaced; the new node only loses its old key.\<close>

lemma object_replace_fails:
  assumes "holds h (Shape a cs) (cJSON_Object kvs)" and "may_add h (Shape a cs) s v" and "strdup P name = None"
  shows "\<exists>h'. replace_member P (Some a) (Some name) (Some (root s)) case_sensitive h = Some (False, h') \<and>
    holds h' (Shape a cs) (cJSON_Object kvs) \<and> may_add h' (Shape a cs) s v \<and> only [root s] h h'"
proof -
  obtain n where n: "cells h (root s) = Some n"
    using may_add_addable(1) [OF assms(2)] by (auto simp: addable_def loose_def)
  obtain h0 where h0: "drop_key (root s) h = Some h0" "cells h0 = cells h"
    using drop_key_cells [OF n] by blast
  let ?h = "h0\<lparr>cells := (cells h0)(root s := Some (n\<lparr>n_key := None\<rparr>))\<rparr>"
  have "n\<lparr>n_key := None\<rparr> = n\<lparr>n_key := None, n_const := n_const n\<rparr>" by simp
  then have "rekeyed s None h ?h"
    using n h0(2) unfolding rekeyed_def by (intro exI [of _ n] exI [of _ "n_const n"]) simp
  note rekeyed_may_add [OF this assms(1,2)]
  moreover have "replace_member P (Some a) (Some name) (Some (root s)) case_sensitive h = Some (False, ?h)"
    using n h0 assms(3) by (simp add: replace_member_def)
  ultimately show ?thesis by blast
qed

text \<open>No member of that name.\<close>

lemma object_miss:
  assumes "holds h (Shape a cs) (cJSON_Object kvs)" and "may_add h (Shape a cs) s v"
    and "place (named case_sensitive name) kvs = None"
  shows "delete_member (Some a) (Some name) case_sensitive h = Some h"
    and "strdup P name = Some key \<Longrightarrow>
      \<exists>h'. replace_member P (Some a) (Some name) (Some (root s)) case_sensitive h = Some (False, h') \<and>
        holds h' (Shape a cs) (cJSON_Object kvs) \<and> may_add h' (Shape a cs) s v \<and> only [root s] h h'"
proof -
  show "delete_member (Some a) (Some name) case_sensitive h = Some h"
    using object_find [OF assms(1), of name case_sensitive] assms(3)
    by (simp add: delete_member_def detach_member_def cJSON_DetachItemViaPointer_def cJSON_Delete.simps)
  assume key: "strdup P name = Some key"
  note new = may_add_addable [OF assms(2)]
  obtain n where n: "cells h (root s) = Some n" using new(1) by (auto simp: addable_def loose_def)
  obtain h0 where h0: "drop_key (root s) h = Some h0" "cells h0 = cells h"
    using drop_key_cells [OF n] by blast
  obtain h1 where h1: "set_key (root s) key False (h0\<lparr>texts := texts h0 + 1\<rparr>) = Some h1"
    and re: "rekeyed s (Some key) h h1"
    using set_key_rekeys [OF n, of "h0\<lparr>texts := texts h0 + 1\<rparr>"] h0(2) by auto
  note obj1 = rekeyed_may_add [OF re assms(1,2)]
  with h0(1) h1 key assms(3) object_find [OF obj1(1), of name case_sensitive]
  show "\<exists>h'. replace_member P (Some a) (Some name) (Some (root s)) case_sensitive h = Some (False, h') \<and>
        holds h' (Shape a cs) (cJSON_Object kvs) \<and> may_add h' (Shape a cs) s v \<and> only [root s] h h'"
    by (simp add: replace_member_def cJSON_ReplaceItemViaPointer_def)
qed

text \<open>The look-ups by name on trees.\<close>

lemma lookup_place_cases:
  "(if case_sensitive then cJSON_GetObjectItemCaseSensitive (Some (cJSON_Object kvs)) name
    else cJSON_GetObjectItem (Some (cJSON_Object kvs)) name) =
     map_option (\<lambda>k. snd (kvs ! k)) (place (named case_sensitive name) kvs)"
  by (simp add: lookup_place)

end
