(* ===== verification/Cjson_Grow.thy ===== *)
theory Cjson_Grow
  imports Cjson_Members
begin

text \<open>
  Making nodes: stores that grow, and trees that are built node by node, as the loops of
  \<^verbatim>\<open>cJSON_Duplicate\<close> and of the \<^verbatim>\<open>cJSON_Create...Array\<close> functions do. The children are
  chained while the loop runs, and the list is closed behind the last.
\<close>

subsection \<open>Stores that grow\<close>

text \<open>No node lies where the next will be made.\<close>

definition tidy :: "store \<Rightarrow> bool" where
  "tidy h \<longleftrightarrow> (\<forall>p\<ge>brk h. cells h p = None)"

text \<open>\<open>h'\<close> has new nodes at \<open>ps\<close>, with their strings, and is otherwise as \<open>h\<close>.\<close>

definition grown :: "store \<Rightarrow> ptr list \<Rightarrow> store \<Rightarrow> bool" where
  "grown h ps h' \<longleftrightarrow>
     brk h \<le> brk h' \<and> set ps \<subseteq> {brk h..<brk h'} \<and> (\<forall>p. p \<notin> set ps \<longrightarrow> cells h' p = cells h p) \<and>
     texts h' = texts h + texts_of (cells h') ps"

lemma grown_old: "grown h ps h' \<Longrightarrow> p < brk h \<Longrightarrow> cells h' p = cells h p"
  by (auto simp: grown_def)

lemma grown_tidy: "grown h ps h' \<Longrightarrow> tidy h \<Longrightarrow> tidy h'"
  unfolding grown_def tidy_def by (metis atLeastLessThan_iff leD order_trans subsetD)

lemma grown_trans:
  assumes "grown h ps h1" and "grown h1 qs h2"
  shows "grown h (ps @ qs) h2"
proof -
  have "cells h2 p = cells h1 p" if "p \<in> set ps" for p
    using assms that by (intro grown_old [OF assms(2)]) (auto simp: grown_def)
  then have "texts_of (cells h2) ps = texts_of (cells h1) ps" by (rule texts_of_frame)
  then have "texts_of (cells h2) (ps @ qs) = texts_of (cells h1) ps + texts_of (cells h2) qs"
    by (simp add: texts_of_def)
  with assms show ?thesis by (auto simp: grown_def)
qed

lemma linked_alloc: "list_all (linked N) ss \<Longrightarrow> p \<in> set (owned ss) \<Longrightarrow> N p \<noteq> None"
  by (induction ss rule: owned.induct) auto

text \<open>Old trees stay as they are.\<close>

lemma grown_keeps:
  assumes "grown h ps h'" and "tidy h" and "linked (cells h) s"
  shows "linked (cells h') s" and "tree_of (cells h') s = tree_of (cells h) s"
    and "key_at (cells h') s = key_at (cells h) s"
proof -
  have same: "cells h' p = cells h p" if "p \<in> set (owned [s])" for p
  proof (rule grown_old [OF assms(1)])
    have "cells h p \<noteq> None" using linked_alloc [of "cells h" "[s]" p] assms(3) that by simp
    with assms(2) show "p < brk h" by (meson tidy_def not_le)
  qed
  from linked_frame [of s "cells h'", OF same] tree_of_frame [of s "cells h'", OF same] assms(3)
  show "linked (cells h') s" "tree_of (cells h') s = tree_of (cells h) s" by simp_all
  show "key_at (cells h') s = key_at (cells h) s"
    using same root_owned [of s "[s]"] by (simp add: key_at_def)
qed

subsection \<open>New nodes\<close>

text \<open>What is copied of a node.\<close>

definition same_node :: "node \<Rightarrow> node \<Rightarrow> bool" where
  "same_node n m \<longleftrightarrow>
     \<not> n_ref m \<and> n_kind m = n_kind n \<and> n_text m = n_text n \<and> n_key m = n_key n \<and> n_const m = n_const n"

text \<open>A new node that owns what it has so far is deleted without a trace.\<close>

lemma delete_new:
  assumes "grown h (owned [s]) h1" and "forest (cells h1) [s]" and "distinct (owned [s])" and "tidy h"
  shows "\<exists>h2. cJSON_Delete (Some (root s)) h1 = Some h2 \<and> grown h [] h2"
proof -
  have "cJSON_Delete (Some (root s)) h1 = Some (deleted [s] h1)"
    using delete_forest [OF assms(2,3)] by simp
  moreover have "cells (deleted [s] h1) p = cells h p" for p
  proof (cases "p \<in> set (owned [s])")
    case True
    with assms(1,4) have "cells h p = None" by (auto simp: grown_def tidy_def)
    with True show ?thesis by (simp add: deleted_gone)
  next
    case False
    with assms(1) show ?thesis by (simp add: deleted_def without_def grown_def)
  qed
  moreover have "texts (deleted [s] h1) = texts h" "brk h \<le> brk (deleted [s] h1)"
    using assms(1) by (simp_all add: deleted_def grown_def)
  ultimately show ?thesis by (simp add: grown_def texts_of_def)
qed

text \<open>Some allocation fails.\<close>

definition short_of_memory :: "platform \<Rightarrow> bool" where
  "short_of_memory P \<longleftrightarrow> (\<exists>k. \<not> malloc_ok P k)"

lemma strdup_None: "strdup P s = None \<Longrightarrow> short_of_memory P"
  by (auto simp: strdup_def short_of_memory_def split: if_splits)

lemma grown_update:
  assumes "grown h [q] h1" and "cells h1 q = Some m" and "own_texts (f m) = own_texts m + d"
  shows "grown h [q] (h1\<lparr>texts := texts h1 + d, cells := (cells h1)(q := Some (f m))\<rparr>)"
  using assms by (auto simp: grown_def texts_of_def)

subsection \<open>New trees\<close>

text \<open>The value and the key of a tree.\<close>

definition look :: "store \<Rightarrow> shape \<Rightarrow> cJSON option \<times> string option" where
  "look h s = (tree_of (cells h) s, key_at (cells h) s)"

lemma look_node:
  "cells h p = Some n \<Longrightarrow>
     look h (Shape p cs) =
       (node_value n (those (map fst (map (look h) cs))) (those (map (\<lambda>(v, k). keyed k v) (map (look h) cs))), n_key n)"
  by (simp add: look_def key_at_def comp_def)

text \<open>\<open>h'\<close> is \<open>h\<close> with a new tree at \<open>d\<close>, which is in no list.\<close>

definition sprouted :: "store \<Rightarrow> shape \<Rightarrow> store \<Rightarrow> bool" where
  "sprouted h d h' \<longleftrightarrow>
     grown h (owned [d]) h' \<and> distinct (owned [d]) \<and> linked (cells h') d \<and> loose h' (root d)"

text \<open>The children while the list is built: the first has no \<^verbatim>\<open>prev\<close> yet.\<close>

fun chain :: "(ptr \<Rightarrow> node option) \<Rightarrow> ptr list \<Rightarrow> bool" where
  "chain N [] \<longleftrightarrow> True"
| "chain N (p # ps) \<longleftrightarrow>
     (\<exists>n. N p = Some n \<and> n_prev n = None \<and> n_next n = first ps None) \<and> seg N p ps None"

text \<open>In \<open>h'\<close>, made from \<open>h\<close>, there is a new node \<open>q\<close> like \<open>n\<close>, with children \<open>ds\<close> that look
  like \<open>vs\<close>.\<close>

definition building ::
  "store \<Rightarrow> node \<Rightarrow> (cJSON option \<times> string option) list \<Rightarrow> store \<Rightarrow> ptr \<Rightarrow> shape list \<Rightarrow> bool" where
  "building h n vs h' q ds \<longleftrightarrow>
     grown h (q # owned ds) h' \<and> distinct (q # owned ds) \<and>
     (\<exists>m. cells h' q = Some m \<and> same_node n m \<and> n_child m = first (map root ds) None \<and>
        n_next m = None \<and> n_prev m = None) \<and>
     chain (cells h') (map root ds) \<and> list_all (linked (cells h')) ds \<and> map (look h') ds = vs"

lemma building_forest:
  assumes "building h n vs h' q ds"
  shows "forest (cells h') [Shape q ds]"
proof -
  have c: "chain (cells h') (map root ds)" "list_all (linked (cells h')) ds"
    using assms by (simp_all add: building_def)
  have "forest (cells h') ds"
  proof (cases ds)
    case Nil
    then show ?thesis by simp
  next
    case (Cons d es)
    obtain p fs where d: "d = Shape p fs" by (cases d)
    have c': "chain (cells h') (p # map root es)" "linked (cells h') (Shape p fs)" "list_all (linked (cells h')) es"
      using c by (simp_all only: Cons d list.map shape.sel list.pred_inject)
    then obtain m where m: "cells h' p = Some m" "n_next m = first (map root es) None" and
      es: "seg (cells h') p (map root es) None" "list_all (linked (cells h')) es" by auto
    then have "forest (cells h') es" by (blast intro: linked_forest)
    moreover obtain m' where m': "cells h' p = Some m'" "\<not> n_ref m'" "n_child m' = first (map root fs) None" and
      fs: "fs = [] \<or> seg (cells h') (root (last fs)) (map root fs) None" "list_all (linked (cells h')) fs"
      using c'(2) by auto
    then have "forest (cells h') fs" by (blast intro: linked_forest)
    ultimately show ?thesis using m m' by (simp add: Cons d)
  qed
  with assms show ?thesis by (auto simp: building_def same_node_def)
qed

lemma building_fails:
  assumes "building h n vs h1 q ds" and "grown h1 [] h2" and "tidy h"
  shows "\<exists>h3. cJSON_Delete (Some q) h2 = Some h3 \<and> grown h [] h3"
proof -
  have "cells h2 = cells h1" using assms(2) by (auto simp: grown_def)
  moreover have "grown h (owned [Shape q ds]) h2"
    using grown_trans [OF _ assms(2), of h "q # owned ds"] assms(1) by (simp add: building_def)
  ultimately show ?thesis
    using delete_new [of h "Shape q ds" h2] building_forest [OF assms(1)] assms(1,3)
    by (simp add: building_def)
qed

lemma building_starts:
  assumes "grown h [q] h'" and "cells h' q = Some m" and "same_node n m"
    and "n_child m = None" and "n_next m = None" and "n_prev m = None"
  shows "building h n [] h' q []"
  using assms by (simp add: building_def)

lemma rewired_own_texts:
  assumes "rewired a S h h'"
  shows "own_texts (the (cells h' p)) = own_texts (the (cells h p))"
proof (cases "p = a")
  case True
  have own: "own_texts m = own_texts n" if "childless m = childless n" for m n
    using that by (cases m; cases n) (simp add: childless_def own_texts_def)
  have "map_option childless (cells h' a) = map_option childless (cells h a)"
    using assms by (simp add: rewired_def)
  with True show ?thesis by (cases "cells h a"; cases "cells h' a") (auto intro: own)
next
  case False
  have own: "own_texts m = own_texts n" if "unlinked m = unlinked n" for m n
    using that by (cases m; cases n) (simp add: unlinked_def own_texts_def)
  have "map_option unlinked (cells h' p) = map_option unlinked (cells h p)"
    using assms False by (simp add: rewired_def)
  then show ?thesis by (cases "cells h p"; cases "cells h' p") (auto intro: own)
qed

lemma grown_rewired:
  assumes "grown h ps h1" and "rewired q S h1 h2" and "insert q S \<subseteq> set ps"
  shows "grown h ps h2"
proof -
  have "texts_of (cells h2) ps = texts_of (cells h1) ps"
    unfolding texts_of_def using rewired_own_texts [OF assms(2)] by simp
  moreover have "cells h2 p = cells h1 p" if "p \<notin> set ps" for p
    using assms(2,3) that unfolding rewired_def by (metis insert_subset subsetD)
  ultimately show ?thesis using assms(1,2) by (simp add: grown_def rewired_def)
qed

lemma chain_append_one:
  assumes "chain (cells h) ps" and "loose h d" and "cells h q = Some m" and "n_child m = first ps None"
    and "distinct (q # ps @ [d])"
  shows "\<exists>h'. (case (if ps = [] then None else Some (last ps)) of
        Some x \<Rightarrow> do {
          h \<leftarrow> update x (\<lambda>m. m\<lparr>n_next := Some d\<rparr>) h;
          update d (\<lambda>m. m\<lparr>n_prev := Some x\<rparr>) h
        }
      | None \<Rightarrow> update q (\<lambda>m. m\<lparr>n_child := Some d\<rparr>) h) = Some h' \<and>
    chain (cells h') (ps @ [d]) \<and> rewired q (insert d (set ps)) h h' \<and>
    cells h' q = Some (m\<lparr>n_child := first (ps @ [d]) None\<rparr>)"
proof (cases ps rule: rev_cases)
  case Nil
  with assms show ?thesis by (auto simp: loose_def rewired_def unlinked_def childless_def)
next
  case (snoc qs x)
  with assms show ?thesis
    by (cases qs) (auto simp: loose_def rewired_def unlinked_def childless_def)
qed

lemma chain_closed:
  assumes "chain (cells h) ps" and "cells h q = Some m" and "n_child m = first ps None" and "distinct (q # ps)"
  shows "\<exists>h'. (case n_child m of
        None \<Rightarrow> Some h
      | Some c \<Rightarrow> update c (\<lambda>m. m\<lparr>n_prev := if ps = [] then None else Some (last ps)\<rparr>) h) = Some h' \<and>
    kids h' q ps \<and> rewired q (set ps) h h' \<and> cells h' q = Some m"
proof (cases ps)
  case Nil
  with assms show ?thesis by (simp add: kids_def rewired_def)
next
  case (Cons p qs)
  with assms show ?thesis by (auto simp: kids_def rewired_def unlinked_def childless_def)
qed

text \<open>One more child.\<close>

lemma building_step:
  assumes "building h n vs h1 q ds" and "sprouted h1 d h2"
  shows "\<exists>h3. (case (if ds = [] then None else Some (root (last ds))) of
        Some x \<Rightarrow> do {
          h \<leftarrow> update x (\<lambda>m. m\<lparr>n_next := Some (root d)\<rparr>) h2;
          update (root d) (\<lambda>m. m\<lparr>n_prev := Some x\<rparr>) h
        }
      | None \<Rightarrow> update q (\<lambda>m. m\<lparr>n_child := Some (root d)\<rparr>) h2) = Some h3 \<and>
    building h n (vs @ [look h2 d]) h3 q (ds @ [d])"
proof -
  have b: "grown h (q # owned ds) h1" "distinct (q # owned ds)" "chain (cells h1) (map root ds)"
    "list_all (linked (cells h1)) ds" "map (look h1) ds = vs"
    using assms(1) by (simp_all add: building_def)
  obtain m where m: "cells h1 q = Some m" "same_node n m" "n_child m = first (map root ds) None"
    "n_next m = None" "n_prev m = None"
    using assms(1) by (auto simp: building_def)
  have c: "grown h1 (owned [d]) h2" "distinct (owned [d])" "linked (cells h2) d" "loose h2 (root d)"
    using assms(2) by (simp_all add: sprouted_def)
  let ?ps = "q # owned (ds @ [d])"
  have g2: "grown h ?ps h2" using grown_trans [OF b(1) c(1)] by simp
  have same: "cells h2 p = cells h1 p" if "p \<in> set (q # owned ds)" for p
    using b(1) that by (intro grown_old [OF c(1)]) (auto simp: grown_def)
  have "p < brk h1" if "p \<in> set (q # owned ds)" for p using b(1) that by (auto simp: grown_def)
  moreover have "brk h1 \<le> p" if "p \<in> set (owned [d])" for p using c(1) that by (auto simp: grown_def)
  ultimately have "set (q # owned ds) \<inter> set (owned [d]) = {}" by (meson disjoint_iff leD)
  then have d: "distinct ?ps" using b(2) c(2) by simp
  have chain2: "chain (cells h2) (map root ds)"
  proof (cases ds)
    case (Cons e es)
    have "seg (cells h2) a (map root es) None = seg (cells h1) a (map root es) None" for a
      using same roots_owned [of ds] by (intro seg_frame) (auto simp: Cons)
    with b(3) same [of "root e"] root_owned [of e ds] show ?thesis by (simp add: Cons)
  qed simp
  have distinct: "distinct (q # map root ds @ [root d])"
    using d map_root_distinct [of "ds @ [d]"] roots_owned [of "ds @ [d]"] by auto
  have tail: "(if ds = [] then None else Some (root (last ds))) =
      (if map root ds = [] then None else Some (last (map root ds)))" by (simp add: last_map)
  have "cells h2 q = Some m" using same m(1) by simp
  from chain_append_one [OF chain2 c(4) this m(3) distinct] obtain h3 where
    h3: "(case (if ds = [] then None else Some (root (last ds))) of
        Some x \<Rightarrow> do {
          h \<leftarrow> update x (\<lambda>m. m\<lparr>n_next := Some (root d)\<rparr>) h2;
          update (root d) (\<lambda>m. m\<lparr>n_prev := Some x\<rparr>) h
        }
      | None \<Rightarrow> update q (\<lambda>m. m\<lparr>n_child := Some (root d)\<rparr>) h2) = Some h3"
    "chain (cells h3) (map root (ds @ [d]))" "rewired q (root ` set (ds @ [d])) h2 h3"
    "cells h3 q = Some (m\<lparr>n_child := first (map root (ds @ [d])) None\<rparr>)"
    unfolding tail by auto
  have "insert q (root ` set (ds @ [d])) \<subseteq> set ?ps" using roots_owned [of "ds @ [d]"] by auto
  from grown_rewired [OF g2 h3(3) this] have g3: "grown h ?ps h3" .
  have kept: "kept (cells h2) (cells h3) e" if "e \<in> set (ds @ [d])" for e
    using rewired_kept [OF h3(3), of e] roots_disjoint [of "ds @ [d]" e] that d owned_subset [OF that] by auto
  have old: "linked (cells h3) e \<and> look h3 e = look h1 e" if "e \<in> set ds" for e
  proof -
    have e: "cells h2 p = cells h1 p" if "p \<in> set (owned [e])" for p
      using that owned_subset [OF \<open>e \<in> set ds\<close>] by (intro same) auto
    have "linked (cells h2) e = linked (cells h1) e" "tree_of (cells h2) e = tree_of (cells h1) e"
      using linked_frame [of e "cells h2", OF e] tree_of_frame [of e "cells h2", OF e] by simp_all
    moreover have "key_at (cells h2) e = key_at (cells h1) e"
      using e root_owned [of e "[e]"] by (simp add: key_at_def)
    moreover have "kept (cells h2) (cells h3) e" using kept that by simp
    note kept_linked [OF this]
    ultimately show ?thesis using b(4) that by (simp add: look_def list_all_iff)
  qed
  have new: "linked (cells h3) d \<and> look h3 d = look h2 d"
    using kept_linked [OF kept, of d] c(3) by (simp add: look_def)
  have "map (look h3) (ds @ [d]) = vs @ [look h2 d]" using old new b(5) by auto
  moreover have "list_all (linked (cells h3)) (ds @ [d])" using old new by (simp add: list_all_iff)
  moreover have "same_node n (m\<lparr>n_child := first (map root (ds @ [d])) None\<rparr>)"
    using m(2) by (simp add: same_node_def)
  ultimately have "building h n (vs @ [look h2 d]) h3 q (ds @ [d])"
    using g3 d h3(2,4) m(4,5) by (simp add: building_def)
  with h3(1) show ?thesis by blast
qed

text \<open>At the end the list is closed.\<close>

lemma building_ends:
  assumes "building h n vs h1 q ds"
  shows "\<exists>h2. do {
      m \<leftarrow> cells h1 q;
      case n_child m of
        None \<Rightarrow> Some h1
      | Some c \<Rightarrow> update c (\<lambda>m. m\<lparr>n_prev := if ds = [] then None else Some (root (last ds))\<rparr>) h1
    } = Some h2 \<and>
    sprouted h (Shape q ds) h2 \<and>
    look h2 (Shape q ds) =
      (node_value n (those (map fst vs)) (those (map (\<lambda>(v, k). keyed k v) vs)), n_key n)"
proof -
  have b: "grown h (q # owned ds) h1" "distinct (q # owned ds)" "chain (cells h1) (map root ds)"
    "list_all (linked (cells h1)) ds" "map (look h1) ds = vs"
    using assms(1) by (simp_all add: building_def)
  obtain m where m: "cells h1 q = Some m" "same_node n m" "n_child m = first (map root ds) None"
    "n_next m = None" "n_prev m = None"
    using assms(1) by (auto simp: building_def)
  have distinct: "distinct (q # map root ds)"
    using b(2) map_root_distinct [of ds] roots_owned [of ds] by auto
  have tail: "(if map root ds = [] then None else Some (last (map root ds))) =
      (if ds = [] then None else Some (root (last ds)))" by (simp add: last_map)
  obtain h2 where h2: "(case n_child m of
        None \<Rightarrow> Some h1
      | Some c \<Rightarrow> update c (\<lambda>m. m\<lparr>n_prev := if ds = [] then None else Some (root (last ds))\<rparr>) h1) = Some h2"
    "kids h2 q (map root ds)" "rewired q (root ` set ds) h1 h2" "cells h2 q = Some m"
    using chain_closed [OF b(3) m(1,3) distinct] unfolding tail by auto
  have "insert q (root ` set ds) \<subseteq> set (q # owned ds)" using roots_owned [of ds] by auto
  from grown_rewired [OF b(1) h2(3) this] have g2: "grown h (q # owned ds) h2" .
  have q: "q \<notin> set (owned ds)" and child: "linked (cells h1) d \<and> root ` set ds \<inter> set (owned (subs d)) = {}"
    if "d \<in> set ds" for d
    using b(2,4) that roots_disjoint [of ds d] by (simp_all add: list_all_iff)
  have "q \<notin> set (owned ds)" using b(2) by simp
  moreover have "\<not> n_ref m" using m(2) by (simp add: same_node_def)
  ultimately have graft: "linked (cells h2) (Shape q ds)"
    "tree_of (cells h2) (Shape q ds) = node_value m (those (map (tree_of (cells h1)) ds))
       (those (map (\<lambda>d. keyed (key_at (cells h1) d) (tree_of (cells h1) d)) ds))"
    using regraft [OF h2(3,2) _ child m(1)] by blast+
  have "node_value m = node_value n" using m(2) by (intro node_value_cong) (simp_all add: same_node_def)
  then have "look h2 (Shape q ds) =
      (node_value n (those (map fst vs)) (those (map (\<lambda>(v, k). keyed k v) vs)), n_key n)"
    using graft(2) h2(4) m(2) by (simp add: look_def b(5) [symmetric] key_at_def same_node_def comp_def)
  moreover have "loose h2 q" using h2(4) m(4,5) by (simp add: loose_def)
  then have "sprouted h (Shape q ds) h2"
    using g2 b(2) graft(1) by (simp add: sprouted_def)
  ultimately show ?thesis using h2(1) m(1) by simp
qed

text \<open>A tree that was there is there still, apart from the new one.\<close>

lemma grown_beside:
  assumes "grown h (owned [d]) h'" and "distinct (owned [d])" and "tidy h" and "holds h s v"
  shows "holds h' s v" and "set (owned [s]) \<inter> set (owned [d]) = {}" and "distinct (owned [s, d])"
proof -
  have s: "linked (cells h) s" "distinct (owned [s])" using assms(4) by (simp_all add: holds_def)
  show "holds h' s v" using grown_keeps [OF assms(1,3) s(1)] assms(4) by (simp add: holds_def)
  have "p < brk h" if "p \<in> set (owned [s])" for p
  proof -
    have "cells h p \<noteq> None" using linked_alloc [of "cells h" "[s]" p] s(1) that by simp
    with assms(3) show ?thesis by (meson tidy_def not_le)
  qed
  moreover have "brk h \<le> p" if "p \<in> set (owned [d])" for p using assms(1) that by (auto simp: grown_def)
  ultimately show apart: "set (owned [s]) \<inter> set (owned [d]) = {}" by (meson disjoint_iff leD)
  with s(2) assms(2) show "distinct (owned [s, d])" using owned_append [of "[s]" "[d]"] by simp
qed

end
