(* ===== verification/Cjson_Copy.thy ===== *)
theory Cjson_Copy
  imports Cjson_Grow
begin

text \<open>
  \<^verbatim>\<open>cJSON_Duplicate\<close>: a copy of a tree in nodes and strings of its own, or, when memory runs
  out anywhere on the way, nothing, with all that was allocated given back.
\<close>

subsection \<open>The code\<close>

definition copy_text :: "platform \<Rightarrow> node \<Rightarrow> ptr \<Rightarrow> store \<Rightarrow> (bool \<times> store) option" where
  "copy_text P n new h =
     (case n_text n of
        None \<Rightarrow> Some (True, h)
      | Some t \<Rightarrow>
          (case strdup P t of
             None \<Rightarrow> Some (False, h)
           | Some t \<Rightarrow> do {
               h \<leftarrow> update new (\<lambda>m. m\<lparr>n_text := Some t\<rparr>) (h\<lparr>texts := texts h + 1\<rparr>);
               Some (True, h)
             }))"

definition copy_key :: "platform \<Rightarrow> node \<Rightarrow> ptr \<Rightarrow> store \<Rightarrow> (bool \<times> store) option" where
  "copy_key P n new h =
     (case n_key n of
        None \<Rightarrow> Some (True, h)
      | Some k \<Rightarrow>
          if n_const n then do {
            h \<leftarrow> update new (\<lambda>m. m\<lparr>n_key := Some k\<rparr>) h;
            Some (True, h)
          }
          else (case strdup P k of
                  None \<Rightarrow> Some (False, h)
                | Some k \<Rightarrow> do {
                    h \<leftarrow> update new (\<lambda>m. m\<lparr>n_key := Some k\<rparr>) (h\<lparr>texts := texts h + 1\<rparr>);
                    Some (True, h)
                  }))"

text \<open>The node itself, without its children; \<^verbatim>\<open>fail:\<close> deletes it.\<close>

definition copy_node :: "platform \<Rightarrow> node \<Rightarrow> store \<Rightarrow> (ptr option \<times> store) option" where
  "copy_node P n h =
     (case new_node P (blank_node\<lparr>n_kind := n_kind n, n_const := n_const n\<rparr>) h of
        (None, h) \<Rightarrow> Some (None, h)
      | (Some new, h) \<Rightarrow> do {
          (ok, h) \<leftarrow> copy_text P n new h;
          (ok, h) \<leftarrow> (if ok then copy_key P n new h else Some (False, h));
          if ok then Some (Some new, h)
          else do { h \<leftarrow> cJSON_Delete (Some new) h; Some (None, h) }
        })"

text \<open>Where the code is: at the start of a call, or in the loop over the children, with the
  child to copy, the new node and the last child that it has.\<close>

datatype job = Item ptr | Rest "ptr option" ptr "ptr option"

partial_function (option) duplicate ::
  "platform \<Rightarrow> bool \<Rightarrow> job \<Rightarrow> store \<Rightarrow> (ptr option \<times> store) option" where
  "duplicate P recurse job h =
     (case job of
        Item p \<Rightarrow> do {
          n \<leftarrow> cells h p;
          (newitem, h) \<leftarrow> copy_node P n h;
          case newitem of
            None \<Rightarrow> Some (None, h)
          | Some new \<Rightarrow>
              if \<not> recurse then Some (Some new, h)
              else duplicate P recurse (Rest (n_child n) new None) h
        }
      | Rest None new tail \<Rightarrow> do {
          m \<leftarrow> cells h new;
          h \<leftarrow> (case n_child m of
                 None \<Rightarrow> Some h
               | Some c \<Rightarrow> update c (\<lambda>m. m\<lparr>n_prev := tail\<rparr>) h);
          Some (Some new, h)
        }
      | Rest (Some c) new tail \<Rightarrow> do {
          (newchild, h) \<leftarrow> duplicate P recurse (Item c) h;
          case newchild of
            None \<Rightarrow> do { h \<leftarrow> cJSON_Delete (Some new) h; Some (None, h) }
          | Some d \<Rightarrow> do {
              h \<leftarrow> (case tail of
                     Some x \<Rightarrow> do {
                       h \<leftarrow> update x (\<lambda>m. m\<lparr>n_next := Some d\<rparr>) h;
                       update d (\<lambda>m. m\<lparr>n_prev := Some x\<rparr>) h
                     }
                   | None \<Rightarrow> update new (\<lambda>m. m\<lparr>n_child := Some d\<rparr>) h);
              n \<leftarrow> cells h c;
              duplicate P recurse (Rest (n_next n) new (Some d)) h
            }
        })"

definition cJSON_Duplicate ::
  "platform \<Rightarrow> ptr option \<Rightarrow> bool \<Rightarrow> store \<Rightarrow> (ptr option \<times> store) option" where
  "cJSON_Duplicate P item recurse h =
     (case item of None \<Rightarrow> Some (None, h) | Some p \<Rightarrow> duplicate P recurse (Item p) h)"

subsection \<open>One node\<close>

lemma copy_text_spec:
  assumes "grown h [q] h1" and "cells h1 q = Some m" and "n_text m = None" and "\<not> n_ref m"
  shows "\<exists>ok h2. copy_text P n q h1 = Some (ok, h2) \<and> grown h [q] h2 \<and> (ok \<or> short_of_memory P) \<and>
    cells h2 q = Some (if ok then m\<lparr>n_text := n_text n\<rparr> else m)"
proof (cases "n_text n")
  case None
  with assms show ?thesis by (auto simp: copy_text_def)
next
  case (Some t)
  have "own_texts (m\<lparr>n_text := Some t\<rparr>) = own_texts m + 1" using assms(3,4) by (simp add: own_texts_def)
  from grown_update [OF assms(1,2), of "\<lambda>m. m\<lparr>n_text := Some t\<rparr>", OF this]
  have g: "grown h [q] (h1\<lparr>texts := texts h1 + 1, cells := (cells h1)(q := Some (m\<lparr>n_text := Some t\<rparr>))\<rparr>)" .
  show ?thesis
  proof (cases "strdup P t")
    case None
    with Some assms(1,2) strdup_None [OF None] show ?thesis
      by (intro exI [of _ False]) (simp add: copy_text_def)
  next
    case (Some t')
    with strdup_Some [OF Some] \<open>n_text n = Some t\<close> g assms(2) show ?thesis
      by (intro exI [of _ True]) (simp add: copy_text_def)
  qed
qed

lemma copy_key_spec:
  assumes "grown h [q] h1" and "cells h1 q = Some m" and "n_key m = None" and "n_const m = n_const n"
  shows "\<exists>ok h2. copy_key P n q h1 = Some (ok, h2) \<and> grown h [q] h2 \<and> (ok \<or> short_of_memory P) \<and>
    cells h2 q = Some (if ok then m\<lparr>n_key := n_key n\<rparr> else m)"
proof (cases "n_key n")
  case None
  with assms show ?thesis by (auto simp: copy_key_def)
next
  case (Some k)
  have d: "own_texts (m\<lparr>n_key := Some k\<rparr>) = own_texts m + (if n_const n then 0 else 1)"
    using assms(3,4) by (simp add: own_texts_def)
  from grown_update [OF assms(1,2), of "\<lambda>m. m\<lparr>n_key := Some k\<rparr>", OF d]
  have g: "grown h [q] (h1\<lparr>texts := texts h1 + (if n_const n then 0 else 1),
    cells := (cells h1)(q := Some (m\<lparr>n_key := Some k\<rparr>))\<rparr>)" .
  show ?thesis
  proof (cases "n_const n")
    case True
    with Some assms(2) g show ?thesis by (intro exI [of _ True]) (simp add: copy_key_def)
  next
    case False
    show ?thesis
    proof (cases "strdup P k")
      case None
      with False Some assms(1,2) strdup_None [OF None] show ?thesis
        by (intro exI [of _ False]) (simp add: copy_key_def)
    next
      case (Some k')
      with strdup_Some [OF Some] False \<open>n_key n = Some k\<close> g assms(2) show ?thesis
        by (intro exI [of _ True]) (simp add: copy_key_def)
    qed
  qed
qed

lemma copy_node_spec:
  assumes "tidy h"
  shows "(\<exists>h'. copy_node P n h = Some (None, h') \<and> grown h [] h' \<and> short_of_memory P) \<or>
    (\<exists>q m h'. copy_node P n h = Some (Some q, h') \<and> grown h [q] h' \<and> cells h' q = Some m \<and>
       same_node n m \<and> n_child m = None \<and> n_next m = None \<and> n_prev m = None)"
proof (cases "malloc_ok P sizeof_cJSON")
  case False
  moreover from False have "short_of_memory P" by (auto simp: short_of_memory_def)
  ultimately show ?thesis by (simp add: copy_node_def new_node_def grown_def texts_of_def)
next
  case True
  let ?q = "brk h" and ?m = "blank_node\<lparr>n_kind := n_kind n, n_const := n_const n\<rparr>"
  let ?h1 = "h\<lparr>cells := (cells h)(?q := Some ?m), brk := Suc ?q\<rparr>"
  have g1: "grown h [?q] ?h1" by (simp add: grown_def texts_of_def own_texts_def blank_node_def)
  have undo: "\<exists>h3. cJSON_Delete (Some ?q) h2 = Some h3 \<and> grown h [] h3"
    if "grown h [?q] h2" "cells h2 ?q = Some m" "n_child m = None" "n_next m = None" for h2 m
    using delete_new [of h "Shape ?q []" h2] that assms by simp
  obtain ok h2 where t: "copy_text P n ?q ?h1 = Some (ok, h2)" "grown h [?q] h2"
    "cells h2 ?q = Some (if ok then ?m\<lparr>n_text := n_text n\<rparr> else ?m)" "ok \<or> short_of_memory P"
    using copy_text_spec [OF g1, of ?m P n] by (auto simp: blank_node_def)
  show ?thesis
  proof (cases ok)
    case False
    with t undo [OF t(2,3)] True show ?thesis
      by (auto simp: copy_node_def new_node_def blank_node_def)
  next
    case ok: True
    let ?m2 = "?m\<lparr>n_text := n_text n\<rparr>"
    have m2: "cells h2 ?q = Some ?m2" using t(3) ok by simp
    obtain ok' h3 where k: "copy_key P n ?q h2 = Some (ok', h3)" "grown h [?q] h3"
      "cells h3 ?q = Some (if ok' then ?m2\<lparr>n_key := n_key n\<rparr> else ?m2)" "ok' \<or> short_of_memory P"
      using copy_key_spec [OF t(2) m2, of n P] by (auto simp: blank_node_def)
    show ?thesis
    proof (cases ok')
      case False
      with t(1) k ok undo [OF k(2,3)] True show ?thesis
        by (auto simp: copy_node_def new_node_def blank_node_def)
    next
      case ok': True
      have "same_node n (?m2\<lparr>n_key := n_key n\<rparr>)" by (simp add: same_node_def blank_node_def)
      with t(1) k ok ok' True show ?thesis
        by (auto simp: copy_node_def new_node_def blank_node_def)
    qed
  qed
qed

subsection \<open>Copies\<close>

text \<open>At \<open>d\<close> there is a new tree that looks as \<open>c\<close> did.\<close>

definition copied :: "store \<Rightarrow> shape \<Rightarrow> shape \<Rightarrow> store \<Rightarrow> bool" where
  "copied h c d h' \<longleftrightarrow> sprouted h d h' \<and> look h' d = look h c"

lemma copy_ends:
  assumes "building h n (map (look h) cs) h1 q ds" and "cells h p = Some n"
  shows "\<exists>h2. duplicate P True (Rest None q (if ds = [] then None else Some (root (last ds)))) h1 = Some (Some q, h2) \<and>
    copied h (Shape p cs) (Shape q ds) h2"
proof -
  obtain h2 where h2: "do {
      m \<leftarrow> cells h1 q;
      case n_child m of
        None \<Rightarrow> Some h1
      | Some c \<Rightarrow> update c (\<lambda>m. m\<lparr>n_prev := if ds = [] then None else Some (root (last ds))\<rparr>) h1
    } = Some h2" "sprouted h (Shape q ds) h2"
    "look h2 (Shape q ds) = (node_value n (those (map fst (map (look h) cs)))
       (those (map (\<lambda>(v, k). keyed k v) (map (look h) cs))), n_key n)"
    using building_ends [OF assms(1)] by blast
  have "look h2 (Shape q ds) = look h (Shape p cs)"
    by (simp only: h2(3) look_node [OF assms(2)])
  with h2(2) have "copied h (Shape p cs) (Shape q ds) h2" by (simp add: copied_def)
  moreover have "duplicate P True (Rest None q (if ds = [] then None else Some (root (last ds)))) h1 = Some (Some q, h2)"
    using h2(1) by (subst duplicate.simps) (auto simp: bind_eq_Some_conv)
  ultimately show ?thesis by blast
qed

lemma duplicate_copies:
  "tidy h \<Longrightarrow> linked (cells h) s \<Longrightarrow>
     (\<exists>h'. duplicate P True (Item (root s)) h = Some (None, h') \<and> grown h [] h' \<and> short_of_memory P) \<or>
     (\<exists>d h'. duplicate P True (Item (root s)) h = Some (Some (root d), h') \<and> copied h s d h')"
proof (induction s arbitrary: h)
  case (Shape p cs)
  obtain n where n: "cells h p = Some n" "n_child n = first (map root cs) None" using Shape.prems(2) by auto
  have child: "linked (cells h) c" if "c \<in> set cs" for c
    using Shape.prems(2) that by (simp add: list_all_iff)
  have loop: "(\<exists>h'. duplicate P True (Rest (first (map root bs) None) q (if ds = [] then None else Some (root (last ds)))) h1 =
      Some (None, h') \<and> grown h [] h' \<and> short_of_memory P) \<or>
    (\<exists>es h'. duplicate P True (Rest (first (map root bs) None) q (if ds = [] then None else Some (root (last ds)))) h1 =
      Some (Some q, h') \<and> copied h (Shape p cs) (Shape q es) h')"
    if "building h n (map (look h) as) h1 q ds" "cs = as @ bs" for as bs q ds h1
    using that
  proof (induction bs arbitrary: as ds h1)
    case Nil
    then have "building h n (map (look h) cs) h1 q ds" by simp
    from copy_ends [where P = P, OF this n(1)] show ?case by (intro disjI2) auto
  next
    case (Cons b bs)
    have g: "grown h (q # owned ds) h1" using Cons.prems(1) by (simp add: building_def)
    have b: "b \<in> set cs" using Cons.prems(2) by simp
    have "tidy h1" by (rule grown_tidy [OF g Shape.prems(1)])
    from Shape.IH [OF b this grown_keeps(1) [OF g Shape.prems(1) child [OF b]]]
    consider h2 where "duplicate P True (Item (root b)) h1 = Some (None, h2)" "grown h1 [] h2" "short_of_memory P"
      | d h2 where "duplicate P True (Item (root b)) h1 = Some (Some (root d), h2)" "copied h1 b d h2"
      by blast
    then show ?case
    proof cases
      case 1
      with building_fails [OF Cons.prems(1) 1(2) Shape.prems(1)] show ?thesis
        by (subst (1 2) duplicate.simps) auto
    next
      case 2
      have d: "sprouted h1 d h2" "look h2 d = look h b"
        using 2(2) grown_keeps [OF g Shape.prems(1) child [OF b]] by (simp_all add: copied_def look_def)
      from building_step [OF Cons.prems(1) d(1)] obtain h3 where
        h3: "(case (if ds = [] then None else Some (root (last ds))) of
            Some x \<Rightarrow> do {
              h \<leftarrow> update x (\<lambda>m. m\<lparr>n_next := Some (root d)\<rparr>) h2;
              update (root d) (\<lambda>m. m\<lparr>n_prev := Some x\<rparr>) h
            }
          | None \<Rightarrow> update q (\<lambda>m. m\<lparr>n_child := Some (root d)\<rparr>) h2) = Some h3"
        "building h n (map (look h) (as @ [b])) h3 q (ds @ [d])" by (auto simp: d(2))
      have "seg (cells h) (root (last cs)) (map root (as @ b # bs)) None"
        using Shape.prems(2) Cons.prems(2) by auto
      then obtain m where m: "cells h (root b) = Some m" "n_next m = first (map root bs) None" by auto
      then have "root b < brk h" using Shape.prems(1) by (metis not_le option.distinct(1) tidy_def)
      then have "cells h3 (root b) = Some m"
        using h3(2) grown_old m(1) by (fastforce simp: building_def)
      with 2(1) h3(1) m(2) have
        "duplicate P True (Rest (first (map root (b # bs)) None) q (if ds = [] then None else Some (root (last ds)))) h1 =
         duplicate P True (Rest (first (map root bs) None) q
           (if ds @ [d] = [] then None else Some (root (last (ds @ [d]))))) h3"
        by (subst duplicate.simps) simp
      with Cons.IH [OF h3(2)] Cons.prems(2) show ?thesis by simp
    qed
  qed
  from copy_node_spec [OF Shape.prems(1), of P n]
  consider h' where "copy_node P n h = Some (None, h')" "grown h [] h'" "short_of_memory P"
    | q h' where "copy_node P n h = Some (Some q, h')" "building h n [] h' q []"
    by (blast intro: building_starts)
  then show ?case
  proof cases
    case 1
    with n show ?thesis by (subst (1 2) duplicate.simps) simp
  next
    case 2
    with n(1) have "duplicate P True (Item p) h = duplicate P True (Rest (n_child n) q None) h'"
      by (subst duplicate.simps) simp
    with loop [of "[]" h' q "[]" cs] 2(2) n(2) show ?thesis by (auto intro: exI [of _ "Shape q es" for es])
  qed
qed

text \<open>The copy is a tree of its own with the same value, or nothing is left.\<close>

lemma duplicate_holds:
  assumes "tidy h" and "holds h s v"
  shows "(\<exists>h'. cJSON_Duplicate P (Some (root s)) True h = Some (None, h') \<and>
       cells h' = cells h \<and> texts h' = texts h \<and> short_of_memory P) \<or>
    (\<exists>d h'. cJSON_Duplicate P (Some (root s)) True h = Some (Some (root d), h') \<and> holds h' d v \<and> holds h' s v \<and>
       loose h' (root d) \<and> grown h (owned [d]) h')"
proof -
  have s: "linked (cells h) s" "distinct (owned [s])" "tree_of (cells h) s = Some v"
    using assms(2) by (simp_all add: holds_def)
  from duplicate_copies [OF assms(1) s(1), of P] show ?thesis
  proof
    assume "\<exists>h'. duplicate P True (Item (root s)) h = Some (None, h') \<and> grown h [] h' \<and> short_of_memory P"
    then show ?thesis by (auto simp: cJSON_Duplicate_def grown_def texts_of_def)
  next
    assume "\<exists>d h'. duplicate P True (Item (root s)) h = Some (Some (root d), h') \<and> copied h s d h'"
    then obtain d h' where d: "duplicate P True (Item (root s)) h = Some (Some (root d), h')" "copied h s d h'"
      by blast
    then have "grown h (owned [d]) h'" by (simp add: copied_def sprouted_def)
    note grown_keeps [OF this assms(1) s(1)]
    with d s have "holds h' d v \<and> holds h' s v" by (simp add: copied_def sprouted_def look_def holds_def)
    with d show ?thesis by (auto simp: copied_def sprouted_def cJSON_Duplicate_def)
  qed
qed

end
