(* ===== verification/Cjson_Query.thy ===== *)
theory Cjson_Query
  imports Cjson_Members
begin

text \<open>
  Reading nodes: the type tests of \<^verbatim>\<open>cJSON.c\<close>, the values, the number of children, whether
  there is a member. On nodes that hold a tree they say what \<open>Cjson_Tree\<close> says of the tree.
\<close>

subsection \<open>The code\<close>

text \<open>The type tests; NULL passes none.\<close>

definition node_is :: "(kind \<Rightarrow> bool) \<Rightarrow> ptr option \<Rightarrow> store \<Rightarrow> bool option" where
  "node_is test item h =
     (case item of
        None \<Rightarrow> Some False
      | Some p \<Rightarrow> do { n \<leftarrow> cells h p; Some (test (n_kind n)) })"

fun is_number_kind :: "kind \<Rightarrow> bool" where
  "is_number_kind (Is_Number d) = True"
| "is_number_kind k = False"

definition cJSON_IsInvalid :: "ptr option \<Rightarrow> store \<Rightarrow> bool option" where
  "cJSON_IsInvalid = node_is ((=) Is_Invalid)"

definition cJSON_IsFalse :: "ptr option \<Rightarrow> store \<Rightarrow> bool option" where
  "cJSON_IsFalse = node_is ((=) Is_False)"

definition cJSON_IsTrue_node :: "ptr option \<Rightarrow> store \<Rightarrow> bool option" where
  "cJSON_IsTrue_node = node_is ((=) Is_True)"

definition cJSON_IsBool :: "ptr option \<Rightarrow> store \<Rightarrow> bool option" where
  "cJSON_IsBool = node_is (\<lambda>k. k = Is_True \<or> k = Is_False)"

definition cJSON_IsNull :: "ptr option \<Rightarrow> store \<Rightarrow> bool option" where
  "cJSON_IsNull = node_is ((=) Is_NULL)"

definition cJSON_IsNumber :: "ptr option \<Rightarrow> store \<Rightarrow> bool option" where
  "cJSON_IsNumber = node_is is_number_kind"

definition cJSON_IsString :: "ptr option \<Rightarrow> store \<Rightarrow> bool option" where
  "cJSON_IsString = node_is ((=) Is_String)"

definition cJSON_IsArray :: "ptr option \<Rightarrow> store \<Rightarrow> bool option" where
  "cJSON_IsArray = node_is ((=) Is_Array)"

definition cJSON_IsObject :: "ptr option \<Rightarrow> store \<Rightarrow> bool option" where
  "cJSON_IsObject = node_is ((=) Is_Object)"

definition cJSON_IsRaw :: "ptr option \<Rightarrow> store \<Rightarrow> bool option" where
  "cJSON_IsRaw = node_is ((=) Is_Raw)"

definition cJSON_GetStringValue :: "ptr option \<Rightarrow> store \<Rightarrow> string option option" where
  "cJSON_GetStringValue item h = do {
     b \<leftarrow> cJSON_IsString item h;
     case item of
       Some p \<Rightarrow> if b then do { n \<leftarrow> cells h p; Some (n_text n) } else Some None
     | None \<Rightarrow> Some None
   }"

definition cJSON_GetNumberValue :: "ptr option \<Rightarrow> store \<Rightarrow> double option" where
  "cJSON_GetNumberValue item h =
     (case item of
        None \<Rightarrow> Some NaN
      | Some p \<Rightarrow> do {
          n \<leftarrow> cells h p;
          Some (case n_kind n of Is_Number d \<Rightarrow> d | _ \<Rightarrow> NaN)
        })"

partial_function (option) count_from :: "nat \<Rightarrow> ptr option \<Rightarrow> store \<Rightarrow> nat option" where
  "count_from seen child h =
     (case child of
        None \<Rightarrow> Some seen
      | Some p \<Rightarrow> do { n \<leftarrow> cells h p; count_from (Suc seen) (n_next n) h })"

text \<open>\<^verbatim>\<open>cJSON_GetArraySize\<close>, with the number converted to a 32-bit \<^verbatim>\<open>int\<close>.\<close>

definition count_children :: "ptr option \<Rightarrow> store \<Rightarrow> int option" where
  "count_children array h =
     (case array of
        None \<Rightarrow> Some 0
      | Some a \<Rightarrow> do {
          n \<leftarrow> cells h a;
          k \<leftarrow> count_from 0 (n_child n) h;
          Some (signed_take_bit 31 (int k))
        })"

definition cJSON_HasObjectItem :: "ptr option \<Rightarrow> string option \<Rightarrow> store \<Rightarrow> bool option" where
  "cJSON_HasObjectItem object name h = do {
     item \<leftarrow> get_member object name False h;
     Some (item \<noteq> None)
   }"

subsection \<open>Nodes that hold a tree\<close>

text \<open>The type of a node that holds a tree, and its string.\<close>

fun kind_of :: "cJSON \<Rightarrow> kind" where
  "kind_of cJSON_False = Is_False"
| "kind_of cJSON_True = Is_True"
| "kind_of cJSON_NULL = Is_NULL"
| "kind_of (cJSON_Number d) = Is_Number d"
| "kind_of (cJSON_String s) = Is_String"
| "kind_of (cJSON_Raw s) = Is_Raw"
| "kind_of (cJSON_Array xs) = Is_Array"
| "kind_of (cJSON_Object kvs) = Is_Object"

lemma holds_node:
  assumes "holds h (Shape a cs) v"
  obtains n q where "cells h a = Some n" and "n_kind n = kind_of v" and "n_child n = first (map root cs) None"
    and "\<And>s. v = cJSON_String s \<or> v = cJSON_Raw s \<Longrightarrow> n_text n = Some s"
    and "seg (cells h) q (map root cs) None"
proof -
  obtain n where n: "cells h a = Some n" "n_child n = first (map root cs) None"
    using assms by (auto simp: holds_def)
  moreover have "n_kind n = kind_of v" "\<And>s. v = cJSON_String s \<or> v = cJSON_Raw s \<Longrightarrow> n_text n = Some s"
    using assms n(1) by (auto simp: holds_def node_value_def split: kind.splits)
  moreover have "\<exists>q. seg (cells h) q (map root cs) None"
    using assms by (cases "cs = []") (auto simp: holds_def)
  ultimately show thesis using that by blast
qed

lemma array_holds:
  assumes "holds h (Shape a cs) (cJSON_Array xs)"
  shows "list_all2 (holds h) cs xs"
proof (rule list_all2_all_nthI)
  note arr = assms [unfolded holds_array]
  then show l: "length cs = length xs" by (auto dest: list_all2_lengthD)
  fix k
  assume k: "k < length cs"
  then have "tree_of (cells h) (cs ! k) = Some (xs ! k)" using arr list_all2_nthD by blast
  with arr k show "holds h (cs ! k) (xs ! k)" by (blast intro: stands_subtree)
qed

definition member_holds :: "store \<Rightarrow> shape \<Rightarrow> string \<times> cJSON \<Rightarrow> bool" where
  "member_holds h c kv \<longleftrightarrow> key_at (cells h) c = Some (fst kv) \<and> holds h c (snd kv)"

lemma object_holds:
  assumes "holds h (Shape a cs) (cJSON_Object kvs)"
  shows "list_all2 (member_holds h) cs kvs"
proof (rule list_all2_all_nthI)
  note obj = assms [unfolded holds_object]
  then show l: "length cs = length kvs" by (auto dest: list_all2_lengthD)
  fix k
  assume k: "k < length cs"
  then have m: "member_is h (cs ! k) (kvs ! k)" using obj list_all2_nthD by blast
  then have "tree_of (cells h) (cs ! k) = Some (snd (kvs ! k))" by (simp add: member_is_def)
  then have "holds h (cs ! k) (snd (kvs ! k))" using obj k by (blast intro: stands_subtree)
  with m show "member_holds h (cs ! k) (kvs ! k)" by (simp add: member_is_def member_holds_def)
qed

subsection \<open>What the queries answer\<close>

lemma node_is_holds:
  assumes "holds h s v"
  shows "node_is test (Some (root s)) h = Some (test (kind_of v))"
proof -
  obtain a cs where s: "s = Shape a cs" by (cases s)
  from assms [unfolded s] obtain n where "cells h a = Some n" "n_kind n = kind_of v" by (rule holds_node) blast
  then show ?thesis by (simp add: node_is_def s)
qed

lemma type_tests:
  assumes "holds h s v"
  shows "cJSON_IsInvalid (Some (root s)) h = Some False"
    and "cJSON_IsFalse (Some (root s)) h = Some (v = cJSON_False)"
    and "cJSON_IsTrue_node (Some (root s)) h = Some (cJSON_IsTrue (Some v))"
    and "cJSON_IsBool (Some (root s)) h = Some (v = cJSON_True \<or> v = cJSON_False)"
    and "cJSON_IsNull (Some (root s)) h = Some (v = cJSON_NULL)"
    and "cJSON_IsNumber (Some (root s)) h = Some (number_of (Some v) \<noteq> None)"
    and "cJSON_IsString (Some (root s)) h = Some (string_of (Some v) \<noteq> None)"
    and "cJSON_IsArray (Some (root s)) h = Some (array_of (Some v) \<noteq> None)"
    and "cJSON_IsObject (Some (root s)) h = Some (is_object (Some v))"
    and "cJSON_IsRaw (Some (root s)) h = Some (\<exists>t. v = cJSON_Raw t)"
  by (cases v; simp add: node_is_holds [OF assms] cJSON_IsInvalid_def cJSON_IsFalse_def cJSON_IsTrue_node_def
      cJSON_IsBool_def cJSON_IsNull_def cJSON_IsNumber_def cJSON_IsString_def cJSON_IsArray_def
      cJSON_IsObject_def cJSON_IsRaw_def cJSON_IsTrue_def number_of_def string_of_def array_of_def is_object_def)+

lemma values_read:
  assumes "holds h s v"
  shows "cJSON_GetStringValue (Some (root s)) h = Some (string_of (Some v))"
    and "cJSON_GetNumberValue (Some (root s)) h = Some (case number_of (Some v) of None \<Rightarrow> NaN | Some d \<Rightarrow> d)"
proof -
  obtain a cs where s: "s = Shape a cs" by (cases s)
  from assms [unfolded s] obtain n where n: "cells h a = Some n" "n_kind n = kind_of v"
    "\<And>t. v = cJSON_String t \<or> v = cJSON_Raw t \<Longrightarrow> n_text n = Some t" by (rule holds_node) blast
  show "cJSON_GetStringValue (Some (root s)) h = Some (string_of (Some v))"
    using n type_tests(7) [OF assms] by (cases v) (auto simp: s cJSON_GetStringValue_def string_of_def)
  show "cJSON_GetNumberValue (Some (root s)) h = Some (case number_of (Some v) of None \<Rightarrow> NaN | Some d \<Rightarrow> d)"
    using n by (cases v) (auto simp: s cJSON_GetNumberValue_def number_of_def)
qed

lemma count_seg: "seg (cells h) q ps None \<Longrightarrow> count_from k (first ps None) h = Some (k + length ps)"
proof (induction ps arbitrary: q k)
  case Nil
  then show ?case by (simp add: count_from.simps)
next
  case (Cons p ps)
  then show ?case by (subst count_from.simps) auto
qed

lemma children_counted:
  assumes "holds h s v" and "array_of (Some v) \<noteq> None \<or> is_object (Some v)"
  shows "count_children (Some (root s)) h = Some (cJSON_GetArraySize (Some v))"
proof -
  obtain a cs where s: "s = Shape a cs" by (cases s)
  from assms(1) [unfolded s] obtain n q where n: "cells h a = Some n" "n_child n = first (map root cs) None"
    and q: "seg (cells h) q (map root cs) None" by (rule holds_node) blast
  have "count_from 0 (first (map root cs) None) h = Some (length cs)"
    using count_seg [OF q, of 0] by simp
  moreover have "length cs = length (children v)"
    using assms array_holds [of h a cs] object_holds [of h a cs]
    by (cases v) (auto simp: s array_of_def is_object_def dest: list_all2_lengthD)
  ultimately show ?thesis using n by (simp add: s count_children_def cJSON_GetArraySize_def)
qed

lemma member_tested:
  assumes "holds h s (cJSON_Object kvs)"
  shows "cJSON_HasObjectItem (Some (root s)) (Some name) h =
    Some (cJSON_GetObjectItem (Some (cJSON_Object kvs)) name \<noteq> None)"
proof -
  obtain a cs where s: "s = Shape a cs" by (cases s)
  show ?thesis
    using object_find [OF assms [unfolded s], of name False] lookup_place_cases [of False kvs name]
    by (simp add: s cJSON_HasObjectItem_def)
qed

end
