(* ===== verification/C_Float.thy ===== *)
theory C_Float
  imports Wy_Audio C_Digits
begin

text \<open>
  Samples as \<^verbatim>\<open>float\<close> and as \<^verbatim>\<open>int16_t\<close>: the conversions of \<^verbatim>\<open>src/sherpa.c\<close>,
  \<^verbatim>\<open>src/piper.c\<close> and \<^verbatim>\<open>src/piper_bridge.cpp\<close>. A finite \<^verbatim>\<open>float\<close> is its rational
  value, as in theory \<open>C_Number\<close>; every operation rounds to 24 bits of significand.
\<close>

subsection \<open>Binary32\<close>

definition to_float :: "rat \<Rightarrow> double" where
  "to_float r =
     (if r = 0 then Fin 0
      else let a = \<bar>r\<bar>;
               e = max (bexp 2 a - 23) (- 149);
               v = of_int (round_even (a / pw 2 e)) * pw 2 e
           in if 2 ^ 128 \<le> v then (if 0 < r then PInf else NInf)
              else Fin (if 0 < r then v else - v))"

text \<open>\<^verbatim>\<open>(float)x / 32768.0f\<close>. The integer is a \<^verbatim>\<open>float\<close> as it is.\<close>

definition sample_to_float :: "sample \<Rightarrow> double" where
  "sample_to_float x = to_float (of_int (sint x) / 32768)"

text \<open>\<^verbatim>\<open>s\<close> limited to the interval from -1 to 1 by two comparisons, which a NaN passes, then
  \<^verbatim>\<open>(int16_t)(s * 32767.0f)\<close>; the conversion of a NaN is undefined in C.\<close>

fun limited :: "double \<Rightarrow> double" where
  "limited (Fin r) = (if 1 < r then Fin 1 else if r < -1 then Fin (-1) else Fin r)"
| "limited PInf = Fin 1"
| "limited NInf = Fin (-1)"
| "limited NaN = NaN"

definition float_to_sample :: "platform \<Rightarrow> double \<Rightarrow> sample" where
  "float_to_sample P s =
     word_of_int (case limited s of
                    Fin r \<Rightarrow> (case to_float (r * 32767) of Fin v \<Rightarrow> rtrunc v | d \<Rightarrow> int_cast P d)
                  | d \<Rightarrow> int_cast P d)"

subsection \<open>Rounding\<close>

text \<open>A positive number of at most 24 significant bits is kept; any rounding stays within
  half a unit of the last place, and never passes an integer.\<close>

lemma to_float_pos:
  assumes "0 < r" and "r < 2 ^ 127"
  defines "e \<equiv> max (bexp 2 r - 23) (- 149)"
  defines "v \<equiv> of_int (round_even (r / pw 2 e)) * pw 2 e"
  shows "to_float r = Fin v" and "to_float (- r) = Fin (- v)" and "v \<le> r + pw 2 e / 2"
proof -
  have u: "pw 2 e \<le> r \<or> pw 2 e \<le> 1"
    using bexp_bracket2(1) [OF assms(1)] pw_mono [of 2 "bexp 2 r - 23" "bexp 2 r"] pw_mono [of 2 "- 149" 0]
    unfolding e_def by (auto simp: max_def)
  have "v - r = (of_int (round_even (r / pw 2 e)) - r / pw 2 e) * pw 2 e"
    using pw_pos [of 2 e] unfolding v_def by (simp add: field_simps del: pw_pos)
  also have "\<dots> \<le> 1 / 2 * pw 2 e"
    using abs_le_D1 [OF round_even_near [of "r / pw 2 e"]] by (rule mult_right_mono) (simp add: less_imp_le)
  finally have near: "v \<le> r + pw 2 e / 2" by simp
  also have "\<dots> < 2 ^ 128" using u assms(2) by auto
  finally have small: "\<not> 2 ^ 128 \<le> v" by simp
  show "to_float r = Fin v" and "to_float (- r) = Fin (- v)" and "v \<le> r + pw 2 e / 2"
    using assms(1) small near by (simp_all add: to_float_def Let_def flip: e_def v_def)
qed

text \<open>The \<^verbatim>\<open>float\<close> of a sample is exact.\<close>

lemma sample_quotient_exact:
  assumes "1 \<le> n" and "n \<le> 32768"
  shows "to_float (of_int n / 32768) = Fin (of_int n / 32768)"
    and "to_float (- (of_int n / 32768)) = Fin (- (of_int n / 32768))"
proof -
  let ?r = "of_int n / 32768 :: rat"
  have n: "(1::rat) \<le> of_int n" "of_int n \<le> (32768::rat)" using assms by simp_all
  then have r: "0 < ?r" "?r < 2 ^ 127" by simp_all
  have "bexp 2 ?r \<le> 0" by (rule bexp_le) (use n in \<open>simp_all add: pw_def\<close>)
  moreover have "- 16 < bexp 2 ?r"
  proof (rule ccontr)
    assume "\<not> - 16 < bexp 2 ?r"
    then have "pw 2 (bexp 2 ?r + 1) \<le> pw 2 (- 15)" by (intro pw_mono) simp_all
    with bexp_bracket2(2) [OF r(1)] n show False by (simp add: pw_def)
  qed
  ultimately have "max (bexp 2 ?r - 23) (- 149) \<le> - 15" by simp
  then obtain j where j: "max (bexp 2 ?r - 23) (- 149) = - 15 - int j"
    using that [of "nat (- 15 - max (bexp 2 ?r - 23) (- 149))"] by simp
  have u: "pw 2 (- 15 - int j) = 1 / (32768 * 2 ^ j)"
  proof -
    have "nat (int j + 15) = j + 15" by simp
    then show ?thesis by (simp add: pw_def power_add)
  qed
  have i: "?r / pw 2 (- 15 - int j) = of_int (n * 2 ^ j)" by (simp add: u)
  have "round_even (?r / pw 2 (- 15 - int j)) = n * 2 ^ j" unfolding i by (rule round_even_of_int)
  then have "of_int (round_even (?r / pw 2 (- 15 - int j))) * pw 2 (- 15 - int j) = ?r"
    by (simp only:) (simp add: u)
  with to_float_pos [OF r, unfolded j]
  show "to_float ?r = Fin ?r" and "to_float (- ?r) = Fin (- ?r)" by simp_all
qed

text \<open>Multiplied with 32767 it falls just below the sample, whatever the rounding.\<close>

lemma sample_product_near:
  assumes "1 \<le> n" and "n \<le> 32768"
  shows "\<exists>v. to_float (of_int n / 32768 * 32767) = Fin v \<and>
    to_float (- (of_int n / 32768 * 32767)) = Fin (- v) \<and> of_int (n - 1) \<le> v \<and> v < of_int n"
proof -
  let ?q = "of_int n / 32768 * 32767 :: rat"
  define e where "e = max (bexp 2 ?q - 23) (- 149)"
  let ?v = "of_int (round_even (?q / pw 2 e)) * pw 2 e"
  have n: "(1::rat) \<le> of_int n" "of_int n \<le> (32768::rat)" using assms by simp_all
  then have q: "0 < ?q" "?q < 2 ^ 127" "?q < 32768" by simp_all
  note pos = to_float_pos [OF q(1,2), folded e_def]
  have "pw 2 (bexp 2 ?q - 23) = pw 2 (bexp 2 ?q) / 2 ^ 23"
    by (simp add: pw_powi power_int_diff)
  also have "\<dots> \<le> ?q / 2 ^ 23"
    using bexp_bracket2(1) [OF q(1)] by (rule divide_right_mono) simp
  also have "\<dots> < of_int n / 2 ^ 15" using n by simp
  finally have "pw 2 (bexp 2 ?q - 23) < of_int n / 2 ^ 15" .
  moreover have "pw 2 (- 149) \<le> pw 2 (- 16)" by (rule pw_mono) simp_all
  then have "pw 2 (- 149) < of_int n / 2 ^ 15" using n by (simp add: pw_def)
  ultimately have u: "pw 2 e < of_int n / 2 ^ 15" by (simp add: e_def max_def)
  then have "?v < of_int n" using pos(3) n by simp
  moreover have "of_int (n - 1) \<le> ?v"
  proof -
    have "bexp 2 ?q \<le> 14" by (rule bexp_le [OF _ q(1)]) (use q(3) in \<open>simp_all add: pw_def\<close>)
    then have "e < 0" by (simp add: e_def)
    then have w: "1 / pw 2 e = of_int (2 ^ nat (- e))" by (simp add: pw_def)
    have "of_int (n - 1) \<le> ?q" using n by (simp add: field_simps)
    then have "of_int (n - 1) / pw 2 e \<le> ?q / pw 2 e"
      by (rule divide_right_mono) (simp add: less_imp_le)
    moreover have i: "of_int (n - 1) / pw 2 e = of_int ((n - 1) * 2 ^ nat (- e))"
      using w by (simp add: divide_inverse)
    ultimately have "(n - 1) * 2 ^ nat (- e) \<le> round_even (?q / pw 2 e)"
      by (metis round_even_ge)
    then have "of_int (n - 1) / pw 2 e \<le> of_int (round_even (?q / pw 2 e))"
      unfolding i by (simp only: of_int_le_iff)
    then show ?thesis using pw_pos [of 2 e] by (simp add: field_simps del: pw_pos)
  qed
  ultimately show ?thesis using pos(1,2) by blast
qed

text \<open>So a sample that goes through both conversions comes back nearer to zero by one.\<close>

definition softened :: "sample \<Rightarrow> sample" where
  "softened x = x - word_of_int (sgn (sint x))"

lemma rtrunc_between:
  "of_int (n - 1) \<le> v \<Longrightarrow> v < of_int n \<Longrightarrow> 1 \<le> n \<Longrightarrow> rtrunc v = n - 1 \<and> rtrunc (- v) = 1 - n"
proof -
  assume v: "of_int (n - 1) \<le> v" "v < of_int n" and n: "1 \<le> n"
  then have f: "\<lfloor>v\<rfloor> = n - 1" by linarith
  have "(0 :: rat) \<le> of_int (n - 1)" using n by simp
  from this v(1) have "0 \<le> v" by (rule order_trans)
  show "rtrunc v = n - 1 \<and> rtrunc (- v) = 1 - n"
  proof (cases "v = 0")
    case True
    with f show ?thesis by (simp add: rtrunc_def)
  next
    case False
    with \<open>0 \<le> v\<close> have "rtrunc (- v) = - \<lfloor>v\<rfloor>" by (simp add: rtrunc_def ceiling_minus)
    with f \<open>0 \<le> v\<close> show ?thesis by (simp add: rtrunc_def)
  qed
qed

lemma sample_to_float_exact: "sample_to_float x = Fin (of_int (sint x) / 32768)"
proof -
  have range: "\<bar>sint x\<bar> \<le> 32768" using sint_greater_eq [of x] sint_less [of x] by simp
  consider "sint x = 0" | "1 \<le> sint x" | "1 \<le> - sint x" by linarith
  then show ?thesis
  proof cases
    case 1
    then show ?thesis by (simp add: sample_to_float_def to_float_def)
  next
    case 2
    with sample_quotient_exact(1) [OF 2] range show ?thesis by (simp add: sample_to_float_def)
  next
    case 3
    with sample_quotient_exact(2) [OF 3] range show ?thesis by (simp add: sample_to_float_def)
  qed
qed

theorem float_round_trip: "float_to_sample P (sample_to_float x) = softened x"
proof -
  define n where "n = \<bar>sint x\<bar>"
  have range: "n \<le> 32768" using sint_greater_eq [of x] sint_less [of x] by (simp add: n_def)
  consider (zero) "sint x = 0" | (pos) "1 \<le> n" "sint x = n" | (neg) "1 \<le> n" "sint x = - n"
    unfolding n_def by linarith
  then show ?thesis
  proof cases
    case zero
    then have "x = 0" by (metis signed_0 signed_word_eqI)
    then show ?thesis
      by (simp add: sample_to_float_def float_to_sample_def to_float_def softened_def rtrunc_def)
  next
    case pos
    obtain v where v: "to_float (of_int n / 32768 * 32767) = Fin v" "rtrunc v = n - 1"
      using sample_product_near [OF pos(1) range] rtrunc_between pos(1) by blast
    have "(of_int n :: rat) \<le> 32768" "(0::rat) < of_int n" using range pos(1) by simp_all
    then have "limited (Fin (of_int n / 32768)) = Fin (of_int n / 32768)" by simp
    then have "float_to_sample P (sample_to_float x) = word_of_int (n - 1)"
      using v sample_quotient_exact(1) [OF pos(1) range]
      unfolding sample_to_float_def float_to_sample_def pos(2) by simp
    also have "\<dots> = word_of_int (sint x) - word_of_int (sgn (sint x))"
      using pos by simp
    finally show ?thesis by (simp add: softened_def)
  next
    case neg
    obtain v where v: "to_float (- (of_int n / 32768 * 32767)) = Fin (- v)" "rtrunc (- v) = 1 - n"
      using sample_product_near [OF neg(1) range] rtrunc_between neg(1) by blast
    have "(of_int n :: rat) \<le> 32768" "(0::rat) < of_int n" using range neg(1) by simp_all
    then have "limited (Fin (- (of_int n / 32768))) = Fin (- (of_int n / 32768))" by simp
    then have "float_to_sample P (sample_to_float x) = word_of_int (1 - n)"
      using v sample_quotient_exact(2) [OF neg(1) range]
      unfolding sample_to_float_def float_to_sample_def neg(2) by simp
    also have "\<dots> = word_of_int (sint x) - word_of_int (sgn (sint x))"
      using neg by simp
    finally show ?thesis by (simp add: softened_def)
  qed
qed

end
