(* ===== verification/Cjson_Compare.thy ===== *)
theory Cjson_Compare
  imports Cjson_Copy Cjson_Query C_Float "HOL-Library.Finite_Map"
begin

text \<open>
  \<^verbatim>\<open>cJSON_Compare\<close>: two trees are compared node by node, objects member by member in both
  directions. Against the meaning of a tree as a JSON value, in which the members of an object
  have no order, it decides equality where no object has two members of one name.
\<close>

subsection \<open>Numbers\<close>

lemma to_double_small:
  assumes "0 < r" and "r < 1 / 2"
  shows "\<exists>v. to_double r = Fin v \<and> 0 \<le> v \<and> v < 1"
proof -
  define e where "e = max (bexp 2 r - 52) (- 1074)"
  define v where "v = of_int (round_even (r / pw 2 e)) * pw 2 e"
  have "bexp 2 r \<le> - 1" using assms by (intro bexp_le) (simp_all add: pw_def)
  then have "pw 2 e \<le> pw 2 (- 53)" by (intro pw_mono) (simp_all add: e_def)
  also have "\<dots> < 1 / 2" by (simp add: pw_def)
  finally have e: "pw 2 e < 1 / 2" .
  have "of_int (round_even (r / pw 2 e)) \<le> r / pw 2 e + 1 / 2"
    using abs_le_D1 [OF round_even_near [of "r / pw 2 e"]] by simp
  then have "v \<le> (r / pw 2 e + 1 / 2) * pw 2 e"
    unfolding v_def by (rule mult_right_mono) (simp add: less_imp_le)
  also have "\<dots> = r + pw 2 e / 2" using pw_pos [of 2 e] by (simp add: field_simps del: pw_pos)
  finally have v1: "v < 1" using assms(2) e by simp
  have "of_int 0 \<le> r / pw 2 e" using assms(1) by (simp add: less_imp_le)
  from round_even_ge [OF this] have v0: "0 \<le> v" by (simp add: v_def less_imp_le)
  have "\<not> 2 ^ 1024 \<le> v" using v1 one_le_power [of "2 :: rat" 1024] by linarith
  then have "to_double r = Fin v" using assms(1) by (simp add: to_double_def Let_def e_def v_def)
  with v0 v1 show ?thesis by blast
qed

lemma compare_double_ints:
  assumes "\<bar>i\<bar> \<le> 2 ^ 40" and "\<bar>j\<bar> \<le> 2 ^ 40"
  shows "compare_double (Fin (of_int i)) (Fin (of_int j)) \<longleftrightarrow> i = j"
proof -
  have d: "to_double \<bar>of_int i - of_int j\<bar> = Fin (of_int \<bar>i - j\<bar>)"
    using to_double_of_int [of "\<bar>i - j\<bar>"] assms by simp
  let ?m = "max \<bar>i\<bar> \<bar>j\<bar>"
  have m: "max \<bar>of_int i\<bar> \<bar>of_int j\<bar> / 2 ^ 52 = (of_int ?m / 2 ^ 52 :: rat)" by (simp add: of_int_max)
  have "\<exists>v. to_double (of_int ?m / 2 ^ 52) = Fin v \<and> 0 \<le> v \<and> v < 1"
  proof (cases "?m = 0")
    case True
    then have "to_double (of_int ?m / 2 ^ 52) = Fin 0" by (simp only: to_double_def) simp
    then show ?thesis by simp
  next
    case False
    then have "0 < ?m" by linarith
    moreover have "(of_int ?m :: rat) \<le> 2 ^ 40" using assms of_int_le_iff [of ?m "2 ^ 40", where ?'a = rat] by simp
    ultimately show ?thesis by (intro to_double_small) simp_all
  qed
  then obtain v where v: "to_double (of_int ?m / 2 ^ 52) = Fin v" "0 \<le> v" "v < 1" by blast
  have "of_int \<bar>i - j\<bar> \<le> v \<longleftrightarrow> i = j"
  proof
    assume "of_int \<bar>i - j\<bar> \<le> v"
    with v(3) have "of_int \<bar>i - j\<bar> < (1 :: rat)" by linarith
    then show "i = j" by linarith
  qed (use v(2) in simp)
  then show ?thesis by (simp only: compare_double.simps d m v(1) dbl_leq.simps)
qed

lemma compare_int_valued:
  assumes "int_valued d" and "int_valued e"
  shows "compare_double d e \<longleftrightarrow> d = e"
proof -
  obtain i j where "d = Fin (of_int i)" "e = Fin (of_int j)"
    and "INT_MIN \<le> i" "i \<le> INT_MAX" "INT_MIN \<le> j" "j \<le> INT_MAX"
    using assms by (metis int_valuedE)
  then show ?thesis using compare_double_ints [of i j] by simp
qed

subsection \<open>Trees\<close>

text \<open>Names as they are compared, and the member that is found.\<close>

definition canon :: "bool \<Rightarrow> string \<Rightarrow> string" where
  "canon case_sensitive k = (if case_sensitive then k else map tolower k)"

lemma named_canon: "named c k kv \<longleftrightarrow> canon c k = canon c (fst kv)"
  by (simp add: named_def canon_def same_name_def)

definition member_of :: "bool \<Rightarrow> (string \<times> cJSON) list \<Rightarrow> string \<Rightarrow> cJSON option" where
  "member_of c kvs k = map_option (\<lambda>i. snd (kvs ! i)) (place (named c k) kvs)"

lemma member_of_simps [simp]:
  "member_of c [] k = None"
  "member_of c (kv # kvs) k = (if canon c k = canon c (fst kv) then Some (snd kv) else member_of c kvs k)"
  by (simp_all add: member_of_def named_canon option.map_comp comp_def)

lemma member_of_set: "member_of c kvs k = Some v \<Longrightarrow> \<exists>k'. (k', v) \<in> set kvs \<and> canon c k' = canon c k"
  by (induction kvs) (auto split: if_splits)

lemma member_of_distinct:
  "distinct (map (canon c \<circ> fst) kvs) \<Longrightarrow> (k, v) \<in> set kvs \<Longrightarrow> canon c k = canon c k' \<Longrightarrow> member_of c kvs k' = Some v"
  by (induction kvs) (force simp: image_iff)+

lemma member_size: "(k, v) \<in> set kvs \<Longrightarrow> size v < size (cJSON_Object kvs)"
  by (induction kvs) auto

lemma member_of_size: "member_of c kvs k = Some v \<Longrightarrow> size v < size (cJSON_Object kvs)"
  using member_of_set member_size by blast

lemma element_size: "v \<in> set xs \<Longrightarrow> size v < size (cJSON_Array xs)"
  by (induction xs) auto

text \<open>What \<^verbatim>\<open>cJSON_Compare\<close> computes of two trees that lie apart.\<close>

function agree :: "bool \<Rightarrow> cJSON \<Rightarrow> cJSON \<Rightarrow> bool" and
  agree_elements :: "bool \<Rightarrow> cJSON list \<Rightarrow> cJSON list \<Rightarrow> bool" where
  "agree c v w =
     (case (v, w) of
        (cJSON_Number a, cJSON_Number b) \<Rightarrow> compare_double a b
      | (cJSON_String a, cJSON_String b) \<Rightarrow> a = b
      | (cJSON_Raw a, cJSON_Raw b) \<Rightarrow> a = b
      | (cJSON_Array xs, cJSON_Array ys) \<Rightarrow> agree_elements c xs ys
      | (cJSON_Object kvs, cJSON_Object kws) \<Rightarrow>
          list_all (\<lambda>kv. case member_of c kws (fst kv) of None \<Rightarrow> False | Some w \<Rightarrow> agree c (snd kv) w) kvs \<and>
          list_all (\<lambda>kw. case member_of c kvs (fst kw) of None \<Rightarrow> False | Some v \<Rightarrow> agree c (snd kw) v) kws
      | _ \<Rightarrow> v = w)"
| "agree_elements c xs ys =
     (case (xs, ys) of
        ([], []) \<Rightarrow> True
      | (x # xs, y # ys) \<Rightarrow> agree c x y \<and> agree_elements c xs ys
      | _ \<Rightarrow> False)"
  by pat_completeness auto
termination
  by (relation "measure (\<lambda>a. case a of Inl (c, v, w) \<Rightarrow> size v + size w
        | Inr (c, xs, ys) \<Rightarrow> size_list size xs + size_list size ys)")
     (auto dest!: member_of_size member_size)

declare agree.simps [simp del] agree_elements.simps [simp del]

subsection \<open>Meaning\<close>

text \<open>JSON values: an object is a finite map.\<close>

datatype json_value =
    V_False
  | V_True
  | V_Null
  | V_Number double
  | V_String string
  | V_Raw string
  | V_Array "json_value list"
  | V_Object "(string, json_value) fmap"

fun meaning :: "bool \<Rightarrow> cJSON \<Rightarrow> json_value" where
  "meaning c cJSON_False = V_False"
| "meaning c cJSON_True = V_True"
| "meaning c cJSON_NULL = V_Null"
| "meaning c (cJSON_Number d) = V_Number d"
| "meaning c (cJSON_String s) = V_String s"
| "meaning c (cJSON_Raw s) = V_Raw s"
| "meaning c (cJSON_Array xs) = V_Array (map (meaning c) xs)"
| "meaning c (cJSON_Object kvs) = V_Object (fmap_of_list (map (\<lambda>(k, v). (canon c k, meaning c v)) kvs))"

text \<open>No two members of an object have one name, and numbers are 32-bit integers.\<close>

fun proper :: "bool \<Rightarrow> cJSON \<Rightarrow> bool" where
  "proper c (cJSON_Number d) = int_valued d"
| "proper c (cJSON_Array xs) = list_all (proper c) xs"
| "proper c (cJSON_Object kvs) =
     (distinct (map (canon c \<circ> fst) kvs) \<and> list_all (\<lambda>(k, v). proper c v) kvs)"
| "proper c v = True"

lemma lookup_meaning:
  "fmlookup (fmap_of_list (map (\<lambda>(k, v). (canon c k, meaning c v)) kvs)) (canon c k) =
     map_option (meaning c) (member_of c kvs k)"
  by (induction kvs) (auto simp: canon_def)

lemma lookup_meaning_dom:
  "fmlookup (fmap_of_list (map (\<lambda>(k, v). (canon c k, meaning c v)) kvs)) q \<noteq> None \<longleftrightarrow>
     (\<exists>k v. (k, v) \<in> set kvs \<and> q = canon c k)"
  by (induction kvs) (auto split: if_splits)

text \<open>Two objects mean the same map if each member of one is found, with its meaning, in the other.\<close>

lemma objects_meaning:
  assumes "distinct (map (canon c \<circ> fst) kvs)" and "distinct (map (canon c \<circ> fst) kws)"
  shows "meaning c (cJSON_Object kvs) = meaning c (cJSON_Object kws) \<longleftrightarrow>
    (\<forall>(k, v)\<in>set kvs. map_option (meaning c) (member_of c kws k) = Some (meaning c v)) \<and>
    (\<forall>(k, w)\<in>set kws. map_option (meaning c) (member_of c kvs k) = Some (meaning c w))"
    (is "?l \<longleftrightarrow> ?r")
proof
  assume l: ?l
  then have same: "map_option (meaning c) (member_of c kws k) = map_option (meaning c) (member_of c kvs k)" for k
    using lookup_meaning [of c kvs k] lookup_meaning [of c kws k] by simp
  have "map_option (meaning c) (member_of c kws k) = Some (meaning c v)" if "(k, v) \<in> set kvs" for k v
    using member_of_distinct [OF assms(1) that refl] same [of k] by simp
  moreover have "map_option (meaning c) (member_of c kvs k) = Some (meaning c w)" if "(k, w) \<in> set kws" for k w
    using member_of_distinct [OF assms(2) that refl] same [of k] by simp
  ultimately show ?r by auto
next
  assume r: ?r
  let ?m = "\<lambda>kvs. fmap_of_list (map (\<lambda>(k, v). (canon c k, meaning c v)) kvs)"
  have "fmlookup (?m kvs) q = fmlookup (?m kws) q" for q
  proof (cases "\<exists>k v. (k, v) \<in> set kvs \<union> set kws \<and> q = canon c k")
    case True
    then obtain k v where q: "q = canon c k" and kv: "(k, v) \<in> set kvs \<or> (k, v) \<in> set kws" by blast
    then show ?thesis
      using r member_of_distinct [OF assms(1) _ refl, of k v] member_of_distinct [OF assms(2) _ refl, of k v]
      by (auto simp: lookup_meaning)
  next
    case False
    then show ?thesis
      using lookup_meaning_dom [of c kvs q] lookup_meaning_dom [of c kws q] by force
  qed
  then show ?l by (simp add: fmap_ext)
qed

text \<open>Comparing decides equality of meanings.\<close>

lemma agree_meaning:
  "proper c v \<Longrightarrow> proper c w \<Longrightarrow> agree c v w \<longleftrightarrow> meaning c v = meaning c w"
  "list_all (proper c) xs \<Longrightarrow> list_all (proper c) ys \<Longrightarrow>
     agree_elements c xs ys \<longleftrightarrow> map (meaning c) xs = map (meaning c) ys"
proof (induction c v w and c xs ys rule: agree_agree_elements.induct)
  case (1 c v w)
  show ?case
  proof (cases "\<exists>kvs kws. v = cJSON_Object kvs \<and> w = cJSON_Object kws")
    case True
    then obtain kvs kws where o: "v = cJSON_Object kvs" "w = cJSON_Object kws" by blast
    have d: "distinct (map (canon c \<circ> fst) kvs)" "distinct (map (canon c \<circ> fst) kws)"
      and p: "list_all (\<lambda>(k, v). proper c v) kvs" "list_all (\<lambda>(k, v). proper c v) kws"
      using "1.prems" by (simp_all add: o)
    have pm: "proper c v" if "member_of c us k = Some v" "list_all (\<lambda>(k, v). proper c v) us" for us k v
      using member_of_set [OF that(1)] that(2) by (auto simp: list_all_iff)
    have "(case member_of c kws k of None \<Rightarrow> False | Some y \<Rightarrow> agree c x y) \<longleftrightarrow>
        map_option (meaning c) (member_of c kws k) = Some (meaning c x)" if "(k, x) \<in> set kvs" for k x
    proof (cases "member_of c kws k")
      case (Some y)
      have "proper c x" using that p(1) by (auto simp: list_all_iff)
      with "1.IH"(2) [of v w kvs kws "(k, x)" y] Some that o pm [OF Some p(2)] show ?thesis by auto
    qed simp
    moreover have "(case member_of c kvs k of None \<Rightarrow> False | Some y \<Rightarrow> agree c x y) \<longleftrightarrow>
        map_option (meaning c) (member_of c kvs k) = Some (meaning c x)" if "(k, x) \<in> set kws" for k x
    proof (cases "member_of c kvs k")
      case (Some y)
      have "proper c x" using that p(2) by (auto simp: list_all_iff)
      with "1.IH"(3) [of v w kvs kws "(k, x)" y] Some that o pm [OF Some p(1)] show ?thesis by auto
    qed simp
    ultimately show ?thesis
      unfolding o objects_meaning [OF d] agree.simps [of c "cJSON_Object _"]
      by (auto simp: list_all_iff)
  next
    case False
    with 1 show ?thesis
      by (cases v; cases w) (auto simp: agree.simps compare_int_valued)
  qed
next
  case (2 c xs ys)
  then show ?case by (cases xs; cases ys) (auto simp: agree_elements.simps)
qed

subsection \<open>The code\<close>

text \<open>\<^verbatim>\<open>(a->type & 0xFF) == (b->type & 0xFF)\<close>.\<close>

fun same_type :: "kind \<Rightarrow> kind \<Rightarrow> bool" where
  "same_type (Is_Number a) (Is_Number b) = True"
| "same_type j k = (j = k)"

text \<open>A call on two nodes, the loop over two arrays, and the loop over the members of an object
  with the object in which they are looked up.\<close>

datatype comparison =
    Both "ptr option" "ptr option"
  | Elements "ptr option" "ptr option"
  | Members "ptr option" ptr

partial_function (option) compare_from :: "bool \<Rightarrow> comparison \<Rightarrow> store \<Rightarrow> bool option" where
  "compare_from case_sensitive job h =
     (case job of
        Both (Some a) (Some b) \<Rightarrow> do {
          m \<leftarrow> cells h a;
          n \<leftarrow> cells h b;
          if \<not> same_type (n_kind m) (n_kind n) \<or> n_kind m = Is_Invalid then Some False
          else if a = b then Some True
          else (case (n_kind m, n_kind n) of
                  (Is_Number x, Is_Number y) \<Rightarrow> Some (compare_double x y)
                | (Is_String, _) \<Rightarrow> Some (n_text m \<noteq> None \<and> n_text n \<noteq> None \<and> n_text m = n_text n)
                | (Is_Raw, _) \<Rightarrow> Some (n_text m \<noteq> None \<and> n_text n \<noteq> None \<and> n_text m = n_text n)
                | (Is_Array, _) \<Rightarrow> compare_from case_sensitive (Elements (n_child m) (n_child n)) h
                | (Is_Object, _) \<Rightarrow> do {
                    r \<leftarrow> compare_from case_sensitive (Members (n_child m) b) h;
                    if r then compare_from case_sensitive (Members (n_child n) a) h else Some False
                  }
                | _ \<Rightarrow> Some True)
        }
      | Both _ _ \<Rightarrow> Some False
      | Elements (Some a) (Some b) \<Rightarrow> do {
          r \<leftarrow> compare_from case_sensitive (Both (Some a) (Some b)) h;
          if \<not> r then Some False
          else do {
            m \<leftarrow> cells h a;
            n \<leftarrow> cells h b;
            compare_from case_sensitive (Elements (n_next m) (n_next n)) h
          }
        }
      | Elements a b \<Rightarrow> Some (a = b)
      | Members None b \<Rightarrow> Some True
      | Members (Some a) b \<Rightarrow> do {
          m \<leftarrow> cells h a;
          found \<leftarrow> get_member (Some b) (n_key m) case_sensitive h;
          if found = None then Some False
          else do {
            r \<leftarrow> compare_from case_sensitive (Both (Some a) found) h;
            if \<not> r then Some False
            else compare_from case_sensitive (Members (n_next m) b) h
          }
        })"

definition cJSON_Compare :: "ptr option \<Rightarrow> ptr option \<Rightarrow> bool \<Rightarrow> store \<Rightarrow> bool option" where
  "cJSON_Compare a b case_sensitive h = compare_from case_sensitive (Both a b) h"

subsection \<open>Comparing what nodes hold\<close>

text \<open>Comparing works for these pairs.\<close>

definition compared :: "bool \<Rightarrow> store \<Rightarrow> shape \<Rightarrow> cJSON \<Rightarrow> shape \<Rightarrow> cJSON \<Rightarrow> bool" where
  "compared k h s v t w \<longleftrightarrow>
     compare_from k (Both (Some (root s)) (Some (root t))) h = Some (agree k v w)"

lemma compare_elements:
  assumes "\<And>c d x y. c \<in> set cs \<Longrightarrow> x \<in> set xs \<Longrightarrow> d \<in> set ds \<Longrightarrow> y \<in> set ys \<Longrightarrow> holds h c x \<Longrightarrow> holds h d y \<Longrightarrow>
      compared k h c x d y"
    and "list_all2 (holds h) cs xs" and "list_all2 (holds h) ds ys"
    and "seg (cells h) p (map root cs) None" and "seg (cells h) q (map root ds) None"
  shows "compare_from k (Elements (first (map root cs) None) (first (map root ds) None)) h =
    Some (agree_elements k xs ys)"
  using assms(2,1,3-5)
proof (induction arbitrary: ds ys p q rule: list_all2_induct)
  case Nil
  then show ?case by (cases ds; cases ys) (simp_all add: compare_from.simps agree_elements.simps)
next
  case (Cons c cs x xs)
  show ?case
  proof (cases ds)
    case Nil
    with Cons.prems show ?thesis by (simp add: compare_from.simps agree_elements.simps)
  next
    case ds: (Cons d es)
    then obtain y zs where ys: "ys = y # zs" using Cons.prems(2) by (cases ys) auto
    have "compared k h c x d y"
      using Cons.prems(1) [of c x d y] Cons.prems(2) Cons.hyps(1) by (simp add: ds ys)
    moreover have "compare_from k (Elements (first (map root cs) None) (first (map root es) None)) h =
        Some (agree_elements k xs zs)"
      using Cons.prems by (intro Cons.IH) (auto simp: ds ys)
    moreover obtain m n where "cells h (root c) = Some m" "n_next m = first (map root cs) None"
      "cells h (root d) = Some n" "n_next n = first (map root es) None"
      using Cons.prems(3,4) by (auto simp: ds)
    ultimately show ?thesis
      by (subst compare_from.simps) (simp add: ds ys compared_def agree_elements.simps [of k "_ # _"])
  qed
qed

lemma compare_members:
  assumes "\<And>c kv d y. c \<in> set cs \<Longrightarrow> kv \<in> set kvs \<Longrightarrow> d \<in> set ds \<Longrightarrow> y \<in> snd ` set kws \<Longrightarrow>
      holds h c (snd kv) \<Longrightarrow> holds h d y \<Longrightarrow> compared k h c (snd kv) d y"
    and "list_all2 (member_holds h) cs kvs" and "holds h (Shape b ds) (cJSON_Object kws)"
    and "seg (cells h) p (map root cs) None"
  shows "compare_from k (Members (first (map root cs) None) b) h =
    Some (list_all (\<lambda>kv. case member_of k kws (fst kv) of None \<Rightarrow> False | Some w \<Rightarrow> agree k (snd kv) w) kvs)"
  using assms(2,1,4)
proof (induction arbitrary: p rule: list_all2_induct)
  case Nil
  then show ?case by (simp add: compare_from.simps)
next
  case (Cons c cs kv kvs)
  have c: "key_at (cells h) c = Some (fst kv)" "holds h c (snd kv)"
    using Cons.hyps(1) by (simp_all add: member_holds_def)
  obtain m where m: "cells h (root c) = Some m" "n_next m = first (map root cs) None"
    using Cons.prems(2) by auto
  with c(1) have key: "n_key m = Some (fst kv)" by (simp add: key_at_def)
  note found = object_find [OF assms(3), of "fst kv" k]
  have rest: "compare_from k (Members (first (map root cs) None) b) h =
      Some (list_all (\<lambda>kv. case member_of k kws (fst kv) of None \<Rightarrow> False | Some w \<Rightarrow> agree k (snd kv) w) kvs)"
    using Cons.prems by (intro Cons.IH) auto
  show ?case
  proof (cases "place (named k (fst kv)) kws")
    case None
    with found m key show ?thesis by (subst compare_from.simps) (simp add: member_of_def)
  next
    case (Some i)
    have "i < length kws" using place_Some [OF Some] by simp
    then have "snd (kws ! i) \<in> snd ` set kws" by simp
    with object_item [OF assms(3) Some] Cons.prems(1) [of c kv "ds ! i" "snd (kws ! i)"] c(2)
    have "compared k h c (snd kv) (ds ! i) (snd (kws ! i))" by simp
    with Some found m key rest show ?thesis
      by (subst compare_from.simps) (simp add: member_of_def compared_def)
  qed
qed

lemma compare_holds:
  "holds h s v \<Longrightarrow> holds h t w \<Longrightarrow> set (owned [s]) \<inter> set (owned [t]) = {} \<Longrightarrow> compared k h s v t w"
proof (induction "size v + size w" arbitrary: s v t w rule: less_induct)
  case less
  obtain a cs b ds where st: "s = Shape a cs" "t = Shape b ds" by (cases s; cases t) blast
  note hv = less.prems(1) [unfolded st] and hw = less.prems(2) [unfolded st]
  obtain m p where m: "cells h a = Some m" "n_kind m = kind_of v" "n_child m = first (map root cs) None"
    "\<And>s. v = cJSON_String s \<or> v = cJSON_Raw s \<Longrightarrow> n_text m = Some s"
    and mc: "seg (cells h) p (map root cs) None"
    by (rule holds_node [OF hv]) blast
  obtain n q where n: "cells h b = Some n" "n_kind n = kind_of w" "n_child n = first (map root ds) None"
    "\<And>s. w = cJSON_String s \<or> w = cJSON_Raw s \<Longrightarrow> n_text n = Some s"
    and nc: "seg (cells h) q (map root ds) None"
    by (rule holds_node [OF hw]) blast
  have ab: "a \<noteq> b" and apart: "set (owned cs) \<inter> set (owned ds) = {}" using less.prems(3) by (auto simp: st)
  have children: "set (owned [c]) \<inter> set (owned [d]) = {}" "set (owned [d]) \<inter> set (owned [c]) = {}"
    if "c \<in> set cs" "d \<in> set ds" for c d
    using owned_subset [OF that(1)] owned_subset [OF that(2)] apart by blast+
  consider (arrays) xs ys where "v = cJSON_Array xs" "w = cJSON_Array ys"
    | (objects) kvs kws where "v = cJSON_Object kvs" "w = cJSON_Object kws"
    | (other) "\<nexists>xs ys. v = cJSON_Array xs \<and> w = cJSON_Array ys" "\<nexists>kvs kws. v = cJSON_Object kvs \<and> w = cJSON_Object kws"
    by blast
  then show ?case
  proof cases
    case arrays
    have "compared k h c x d y"
      if "c \<in> set cs" "x \<in> set xs" "d \<in> set ds" "y \<in> set ys" "holds h c x" "holds h d y" for c x d y
      using that element_size [OF that(2)] element_size [OF that(4)]
      by (intro less.hyps children) (simp_all add: arrays)
    from compare_elements [OF this array_holds [OF hv [unfolded arrays]] array_holds [OF hw [unfolded arrays]] mc nc]
    show ?thesis
      unfolding compared_def st shape.sel
      by (subst compare_from.simps) (simp add: m n ab arrays agree.simps [of k "cJSON_Array _"])
  next
    case objects
    have less: "compared k h c x d y" "compared k h d y c x"
      if "c \<in> set cs" "(i, x) \<in> set kvs" "d \<in> set ds" "(j, y) \<in> set kws" "holds h c x" "holds h d y" for c i x d j y
      using that member_size [OF that(2)] member_size [OF that(4)]
      by (intro less.hyps children; simp add: objects)+
    have "compare_from k (Members (first (map root cs) None) b) h =
        Some (list_all (\<lambda>kv. case member_of k kws (fst kv) of None \<Rightarrow> False | Some w \<Rightarrow> agree k (snd kv) w) kvs)"
      using less(1) by (intro compare_members [OF _ object_holds [OF hv [unfolded objects]] hw [unfolded objects] mc]) force
    moreover have "compare_from k (Members (first (map root ds) None) a) h =
        Some (list_all (\<lambda>kv. case member_of k kvs (fst kv) of None \<Rightarrow> False | Some w \<Rightarrow> agree k (snd kv) w) kws)"
      using less(2) by (intro compare_members [OF _ object_holds [OF hw [unfolded objects]] hv [unfolded objects] nc]) force
    ultimately show ?thesis
      unfolding compared_def st shape.sel
      by (subst compare_from.simps) (simp add: m n ab objects agree.simps [of k "cJSON_Object _"])
  next
    case other
    then show ?thesis
      unfolding compared_def st shape.sel
      by (subst compare_from.simps) (cases v; cases w; simp add: m n ab agree.simps)
  qed
qed

text \<open>So where names are not repeated it decides whether the two have one meaning.\<close>

lemma compare_meaning:
  assumes "holds h s v" and "holds h t w" and "set (owned [s]) \<inter> set (owned [t]) = {}"
    and "proper k v" and "proper k w"
  shows "cJSON_Compare (Some (root s)) (Some (root t)) k h = Some (meaning k v = meaning k w)"
  using compare_holds [OF assms(1-3)] agree_meaning(1) [OF assms(4,5)]
  by (simp add: cJSON_Compare_def compared_def)

text \<open>Where one name is repeated with different values a tree differs from a tree just like it.\<close>

lemma repeated_name_unequal:
  assumes "holds h s (cJSON_Object [(i, v), (j, w)])" and "holds h t (cJSON_Object [(i, v), (j, w)])"
    and "set (owned [s]) \<inter> set (owned [t]) = {}" and "canon k j = canon k i"
    and "proper k v" and "proper k w" and "meaning k v \<noteq> meaning k w"
  shows "cJSON_Compare (Some (root s)) (Some (root t)) k h = Some False"
proof -
  have "\<not> agree k w v" using agree_meaning(1) [OF assms(6,5)] assms(7) by simp
  then have "\<not> agree k (cJSON_Object [(i, v), (j, w)]) (cJSON_Object [(i, v), (j, w)])"
    using assms(4) by (subst agree.simps) simp
  with compare_holds [OF assms(1-3), of k] show ?thesis by (simp add: cJSON_Compare_def compared_def)
qed

text \<open>A copy compares equal to its original.\<close>

lemma copy_compares:
  assumes "tidy h" and "holds h s v" and "grown h (owned [d]) h'" and "holds h' s v" and "holds h' d v"
    and "proper k v"
  shows "cJSON_Compare (Some (root s)) (Some (root d)) k h' = Some True"
proof -
  have "distinct (owned [d])" using assms(5) by (simp add: holds_def)
  from compare_meaning [OF assms(4,5) grown_beside(2) [OF assms(3) this assms(1,2)] assms(6,6)]
  show ?thesis by simp
qed

end
