(* ===== verification/Cjson_Build.thy ===== *)
theory Cjson_Build
  imports Cjson_Grow
begin

text \<open>
  The constructors of \<^verbatim>\<open>cJSON.c\<close> in memory: single nodes, references, new members of an
  object, and whole arrays from C arrays. Every failure gives back what was made.
\<close>

subsection \<open>Nodes\<close>

text \<open>A node of a kind with nothing in it, as \<^verbatim>\<open>cJSON_CreateArray\<close> and \<^verbatim>\<open>cJSON_CreateObject\<close> make
  it, and the constructors that say the kind.\<close>

definition create_leaf :: "platform \<Rightarrow> kind \<Rightarrow> store \<Rightarrow> ptr option \<times> store" where
  "create_leaf P k h = new_node P (blank_node\<lparr>n_kind := k\<rparr>) h"

definition cJSON_CreateNull :: "platform \<Rightarrow> store \<Rightarrow> ptr option \<times> store" where
  "cJSON_CreateNull P = create_leaf P Is_NULL"

definition cJSON_CreateTrue :: "platform \<Rightarrow> store \<Rightarrow> ptr option \<times> store" where
  "cJSON_CreateTrue P = create_leaf P Is_True"

definition cJSON_CreateFalse :: "platform \<Rightarrow> store \<Rightarrow> ptr option \<times> store" where
  "cJSON_CreateFalse P = create_leaf P Is_False"

text \<open>\<^verbatim>\<open>cJSON_CreateNumber\<close>; the \<^verbatim>\<open>int\<close> of a number node is a function of its \<^verbatim>\<open>double\<close>.\<close>

definition create_number :: "platform \<Rightarrow> double \<Rightarrow> store \<Rightarrow> (ptr option \<times> store) option" where
  "create_number P d h = Some (create_leaf P (Is_Number d) h)"

text \<open>\<^verbatim>\<open>cJSON_CreateString\<close> and \<^verbatim>\<open>cJSON_CreateRaw\<close>; there is no copy of NULL.\<close>

definition create_text :: "platform \<Rightarrow> kind \<Rightarrow> string option \<Rightarrow> store \<Rightarrow> (ptr option \<times> store) option" where
  "create_text P k s h =
     (case create_leaf P k h of
        (None, h) \<Rightarrow> Some (None, h)
      | (Some q, h) \<Rightarrow>
          (case (case s of None \<Rightarrow> None | Some s \<Rightarrow> strdup P s) of
             None \<Rightarrow> do { h \<leftarrow> cJSON_Delete (Some q) h; Some (None, h) }
           | Some t \<Rightarrow> do {
               h \<leftarrow> update q (\<lambda>m. m\<lparr>n_text := Some t\<rparr>) (h\<lparr>texts := texts h + 1\<rparr>);
               Some (Some q, h)
             }))"

definition cJSON_CreateRaw :: "platform \<Rightarrow> string option \<Rightarrow> store \<Rightarrow> (ptr option \<times> store) option" where
  "cJSON_CreateRaw P = create_text P Is_Raw"

definition cJSON_CreateStringReference :: "platform \<Rightarrow> string option \<Rightarrow> store \<Rightarrow> ptr option \<times> store" where
  "cJSON_CreateStringReference P s h =
     new_node P (blank_node\<lparr>n_kind := Is_String, n_ref := True, n_text := s\<rparr>) h"

definition cJSON_CreateObjectReference :: "platform \<Rightarrow> ptr option \<Rightarrow> store \<Rightarrow> ptr option \<times> store" where
  "cJSON_CreateObjectReference P child h =
     new_node P (blank_node\<lparr>n_kind := Is_Object, n_ref := True, n_child := child\<rparr>) h"

definition cJSON_CreateArrayReference :: "platform \<Rightarrow> ptr option \<Rightarrow> store \<Rightarrow> ptr option \<times> store" where
  "cJSON_CreateArrayReference P child h =
     new_node P (blank_node\<lparr>n_kind := Is_Array, n_ref := True, n_child := child\<rparr>) h"

text \<open>\<^verbatim>\<open>cJSON_SetValuestring\<close>: whether a string was returned. A copy takes the place of the old
  string, which is given back, so that the number of strings is the same.\<close>

definition cJSON_SetValuestring :: "platform \<Rightarrow> ptr option \<Rightarrow> string option \<Rightarrow> store \<Rightarrow> (bool \<times> store) option" where
  "cJSON_SetValuestring P object s h =
     (case object of
        None \<Rightarrow> Some (False, h)
      | Some p \<Rightarrow> do {
          n \<leftarrow> cells h p;
          if n_kind n \<noteq> Is_String \<or> n_ref n then Some (False, h)
          else (case (n_text n, s) of
                  (Some old, Some new) \<Rightarrow>
                    if length new \<le> length old
                    then do { h \<leftarrow> update p (\<lambda>n. n\<lparr>n_text := Some new\<rparr>) h; Some (True, h) }
                    else (case strdup P new of
                            None \<Rightarrow> Some (False, h)
                          | Some copy \<Rightarrow> do {
                              h \<leftarrow> update p (\<lambda>n. n\<lparr>n_text := Some copy\<rparr>) h;
                              Some (True, h)
                            })
                | _ \<Rightarrow> Some (False, h))
        })"

subsection \<open>Arrays\<close>

text \<open>
  The loop that \<^verbatim>\<open>cJSON_CreateIntArray\<close>, \<^verbatim>\<open>FloatArray\<close>, \<^verbatim>\<open>DoubleArray\<close> and \<^verbatim>\<open>StringArray\<close>
  share: \<open>k\<close> elements are still to come from \<open>xs\<close>, \<open>a\<close> is the array and \<open>tail\<close> the last
  child. Reading behind the end of the C array is undefined.
\<close>

fun fill_array ::
  "('a \<Rightarrow> store \<Rightarrow> (ptr option \<times> store) option) \<Rightarrow> nat \<Rightarrow> 'a list \<Rightarrow> ptr \<Rightarrow> ptr option \<Rightarrow> store \<Rightarrow>
     (ptr option \<times> store) option" where
  "fill_array create 0 xs a tail h = do {
     h \<leftarrow> do {
       m \<leftarrow> cells h a;
       case n_child m of
         None \<Rightarrow> Some h
       | Some c \<Rightarrow> update c (\<lambda>m. m\<lparr>n_prev := tail\<rparr>) h
     };
     Some (Some a, h)
   }"
| "fill_array create (Suc k) [] a tail h = None"
| "fill_array create (Suc k) (x # xs) a tail h = do {
     (n, h) \<leftarrow> create x h;
     case n of
       None \<Rightarrow> do { h \<leftarrow> cJSON_Delete (Some a) h; Some (None, h) }
     | Some d \<Rightarrow> do {
         h \<leftarrow> (case tail of
                Some p \<Rightarrow> suffix_object p d h
              | None \<Rightarrow> update a (\<lambda>m. m\<lparr>n_child := Some d\<rparr>) h);
         fill_array create k xs a (Some d) h
       }
   }"

definition create_array ::
  "platform \<Rightarrow> ('a \<Rightarrow> store \<Rightarrow> (ptr option \<times> store) option) \<Rightarrow> 'a list option \<Rightarrow> int \<Rightarrow> store \<Rightarrow>
     (ptr option \<times> store) option" where
  "create_array P create elements count h =
     (if count < 0 then Some (None, h)
      else case elements of
        None \<Rightarrow> Some (None, h)
      | Some xs \<Rightarrow>
          (case create_leaf P Is_Array h of
             (None, h) \<Rightarrow> Some (None, h)
           | (Some a, h) \<Rightarrow> fill_array create (nat count) xs a None h))"

definition cJSON_CreateIntArray :: "platform \<Rightarrow> int list option \<Rightarrow> int \<Rightarrow> store \<Rightarrow> (ptr option \<times> store) option" where
  "cJSON_CreateIntArray P = create_array P (\<lambda>i. create_number P (Fin (of_int i)))"

text \<open>A \<^verbatim>\<open>float\<close> is given as the \<^verbatim>\<open>double\<close> that it converts to, with the same value.\<close>

definition cJSON_CreateFloatArray :: "platform \<Rightarrow> double list option \<Rightarrow> int \<Rightarrow> store \<Rightarrow> (ptr option \<times> store) option" where
  "cJSON_CreateFloatArray P = create_array P (create_number P)"

definition cJSON_CreateDoubleArray :: "platform \<Rightarrow> double list option \<Rightarrow> int \<Rightarrow> store \<Rightarrow> (ptr option \<times> store) option" where
  "cJSON_CreateDoubleArray P = create_array P (create_number P)"

definition cJSON_CreateStringArray :: "platform \<Rightarrow> string list option \<Rightarrow> int \<Rightarrow> store \<Rightarrow> (ptr option \<times> store) option" where
  "cJSON_CreateStringArray P = create_array P (\<lambda>s. create_text P Is_String (Some s))"

subsection \<open>New members\<close>

text \<open>What \<^verbatim>\<open>cJSON_AddNullToObject\<close> and its kind share: make the item, add it, and give it back if
  that fails.\<close>

definition add_new ::
  "platform \<Rightarrow> (store \<Rightarrow> (ptr option \<times> store) option) \<Rightarrow> ptr option \<Rightarrow> string option \<Rightarrow> store \<Rightarrow>
     (ptr option \<times> store) option" where
  "add_new P create object name h = do {
     (item, h) \<leftarrow> create h;
     (ok, h) \<leftarrow> add_member P object name item False h;
     if ok then Some (item, h)
     else do { h \<leftarrow> cJSON_Delete item h; Some (None, h) }
   }"

definition cJSON_AddNullToObject :: "platform \<Rightarrow> ptr option \<Rightarrow> string option \<Rightarrow> store \<Rightarrow> (ptr option \<times> store) option" where
  "cJSON_AddNullToObject P = add_new P (\<lambda>h. Some (cJSON_CreateNull P h))"

definition cJSON_AddTrueToObject :: "platform \<Rightarrow> ptr option \<Rightarrow> string option \<Rightarrow> store \<Rightarrow> (ptr option \<times> store) option" where
  "cJSON_AddTrueToObject P = add_new P (\<lambda>h. Some (cJSON_CreateTrue P h))"

definition cJSON_AddFalseToObject :: "platform \<Rightarrow> ptr option \<Rightarrow> string option \<Rightarrow> store \<Rightarrow> (ptr option \<times> store) option" where
  "cJSON_AddFalseToObject P = add_new P (\<lambda>h. Some (cJSON_CreateFalse P h))"

definition cJSON_AddRawToObject ::
  "platform \<Rightarrow> ptr option \<Rightarrow> string option \<Rightarrow> string option \<Rightarrow> store \<Rightarrow> (ptr option \<times> store) option" where
  "cJSON_AddRawToObject P object name raw = add_new P (cJSON_CreateRaw P raw) object name"

definition cJSON_AddObjectToObject :: "platform \<Rightarrow> ptr option \<Rightarrow> string option \<Rightarrow> store \<Rightarrow> (ptr option \<times> store) option" where
  "cJSON_AddObjectToObject P = add_new P (\<lambda>h. Some (create_leaf P Is_Object h))"

definition add_number :: "platform \<Rightarrow> ptr option \<Rightarrow> string option \<Rightarrow> double \<Rightarrow> store \<Rightarrow> (ptr option \<times> store) option" where
  "add_number P object name d = add_new P (create_number P d) object name"

definition add_string ::
  "platform \<Rightarrow> ptr option \<Rightarrow> string option \<Rightarrow> string option \<Rightarrow> store \<Rightarrow> (ptr option \<times> store) option" where
  "add_string P object name s = add_new P (create_text P Is_String s) object name"

subsection \<open>What the constructors make\<close>

text \<open>A new tree with the value \<open>v\<close>, or, when memory runs out, nothing.\<close>

definition makes :: "platform \<Rightarrow> cJSON \<Rightarrow> store \<Rightarrow> (ptr option \<times> store) option \<Rightarrow> bool" where
  "makes P v h r \<longleftrightarrow>
     (\<exists>h'. r = Some (None, h') \<and> grown h [] h' \<and> short_of_memory P) \<or>
     (\<exists>d h'. r = Some (Some (root d), h') \<and> sprouted h d h' \<and> tree_of (cells h') d = Some v)"

text \<open>The object at \<open>a\<close> has a new last member, or, when memory runs out, all is as it was.\<close>

definition gains ::
  "platform \<Rightarrow> store \<Rightarrow> ptr \<Rightarrow> shape list \<Rightarrow> (string \<times> cJSON) list \<Rightarrow> string \<times> cJSON \<Rightarrow>
     (ptr option \<times> store) option \<Rightarrow> bool" where
  "gains P h a cs kvs kv r \<longleftrightarrow>
     (\<exists>d h'. r = Some (Some (root d), h') \<and> holds h' (Shape a (cs @ [d])) (cJSON_Object (kvs @ [kv]))) \<or>
     (\<exists>h'. r = Some (None, h') \<and> grown h [] h' \<and> short_of_memory P)"

lemma leaf_sprouts:
  assumes "grown h [q] h'" and "cells h' q = Some m" and "\<not> n_ref m" and "n_child m = None"
    and "n_next m = None" and "n_prev m = None"
  shows "sprouted h (Shape q []) h'"
  using assms by (simp add: sprouted_def loose_def)

lemma create_leaf_cases:
  "(\<exists>h'. create_leaf P k h = (None, h') \<and> grown h [] h' \<and> short_of_memory P) \<or>
   (\<exists>q h'. create_leaf P k h = (Some q, h') \<and> grown h [q] h' \<and> cells h' q = Some (blank_node\<lparr>n_kind := k\<rparr>))"
proof (cases "malloc_ok P sizeof_cJSON")
  case True
  then show ?thesis
    by (simp add: create_leaf_def new_node_def grown_def texts_of_def own_texts_def blank_node_def)
next
  case False
  moreover from False have "short_of_memory P" by (auto simp: short_of_memory_def)
  ultimately show ?thesis by (simp add: create_leaf_def new_node_def grown_def texts_of_def)
qed

lemma leaf_builds:
  assumes "grown h [q] h'" and "cells h' q = Some (blank_node\<lparr>n_kind := k\<rparr>)"
  shows "building h (blank_node\<lparr>n_kind := k\<rparr>) [] h' q []"
  by (rule building_starts [OF assms]) (simp_all add: same_node_def blank_node_def)

text \<open>The contract of an element's constructor; what follows rests on nothing else.\<close>

locale constructor =
  fixes P :: platform and create :: "'a \<Rightarrow> store \<Rightarrow> (ptr option \<times> store) option" and val :: "'a \<Rightarrow> cJSON"
  assumes create: "tidy h \<Longrightarrow> makes P (val x) h (create x h)"

context constructor begin

lemma fill_array_makes:
  "building h n vs h1 a ds \<Longrightarrow> tidy h \<Longrightarrow> n_kind n = Is_Array \<Longrightarrow> those (map fst vs) = Some us \<Longrightarrow> k \<le> length xs \<Longrightarrow>
     makes P (cJSON_Array (us @ map val (take k xs))) h
       (fill_array create k xs a (if ds = [] then None else Some (root (last ds))) h1)"
proof (induction k arbitrary: vs us h1 ds xs)
  case 0
  obtain h2 where h2: "do {
      m \<leftarrow> cells h1 a;
      case n_child m of
        None \<Rightarrow> Some h1
      | Some c \<Rightarrow> update c (\<lambda>m. m\<lparr>n_prev := if ds = [] then None else Some (root (last ds))\<rparr>) h1
    } = Some h2" "sprouted h (Shape a ds) h2"
    "look h2 (Shape a ds) = (node_value n (those (map fst vs)) (those (map (\<lambda>(v, k). keyed k v) vs)), n_key n)"
    using building_ends [OF 0(1)] by blast
  have "fill_array create 0 xs a (if ds = [] then None else Some (root (last ds))) h1 = Some (Some a, h2)"
    unfolding fill_array.simps h2(1) by simp
  moreover have "tree_of (cells h2) (Shape a ds) = Some (cJSON_Array us)"
    using h2(3) 0(3,4) by (simp add: look_def node_value_def del: tree_of.simps)
  ultimately show ?case using h2(2) unfolding makes_def
    by (intro disjI2 exI [of _ "Shape a ds"] exI [of _ h2]) simp
next
  case (Suc k)
  then obtain x ys where xs: "xs = x # ys" by (cases xs) auto
  have "tidy h1" using Suc.prems(1,2) grown_tidy by (auto simp: building_def)
  from create [OF this, of x] consider
    h2 where "create x h1 = Some (None, h2)" "grown h1 [] h2" "short_of_memory P"
    | d h2 where "create x h1 = Some (Some (root d), h2)" "sprouted h1 d h2" "tree_of (cells h2) d = Some (val x)"
    by (auto simp: makes_def)
  then show ?case
  proof cases
    case 1
    with building_fails [OF Suc.prems(1) 1(2) Suc.prems(2)] show ?thesis by (auto simp: makes_def xs)
  next
    case 2
    from building_step [OF Suc.prems(1) 2(2)] obtain h3 where
      h3: "(case (if ds = [] then None else Some (root (last ds))) of
          Some x \<Rightarrow> do {
            h \<leftarrow> update x (\<lambda>m. m\<lparr>n_next := Some (root d)\<rparr>) h2;
            update (root d) (\<lambda>m. m\<lparr>n_prev := Some x\<rparr>) h
          }
        | None \<Rightarrow> update a (\<lambda>m. m\<lparr>n_child := Some (root d)\<rparr>) h2) = Some h3"
      "building h n (vs @ [look h2 d]) h3 a (ds @ [d])" by blast
    have "those (map fst (vs @ [look h2 d])) = Some (us @ [val x])"
      using Suc.prems(4) 2(3) unfolding those_map_Some by (simp add: look_def list_all2_appendI)
    from Suc.IH [OF h3(2) Suc.prems(2,3) this, of ys] Suc.prems(5)
    have "makes P (cJSON_Array (us @ map val (take (Suc k) xs))) h (fill_array create k ys a (Some (root d)) h3)"
      by (simp add: xs)
    moreover define tail where "tail = (if ds = [] then None else Some (root (last ds)))"
    have "(case tail of Some p \<Rightarrow> suffix_object p (root d) h2
        | None \<Rightarrow> update a (\<lambda>m. m\<lparr>n_child := Some (root d)\<rparr>) h2) = Some h3"
      using h3(1) unfolding tail_def suffix_object_def .
    with 2(1) have "fill_array create (Suc k) xs a tail h1 = fill_array create k ys a (Some (root d)) h3"
      by (simp add: xs)
    ultimately show ?thesis unfolding tail_def by simp
  qed
qed

lemma create_array_makes:
  assumes "tidy h" and "k \<le> length xs"
  shows "makes P (cJSON_Array (map val (take k xs))) h (create_array P create (Some xs) (int k) h)"
  using create_leaf_cases [of P Is_Array h]
proof
  assume "\<exists>h'. create_leaf P Is_Array h = (None, h') \<and> grown h [] h' \<and> short_of_memory P"
  then show ?thesis by (auto simp: makes_def create_array_def)
next
  let ?m = "blank_node\<lparr>n_kind := Is_Array\<rparr>"
  assume "\<exists>q h'. create_leaf P Is_Array h = (Some q, h') \<and> grown h [q] h' \<and> cells h' q = Some ?m"
  then obtain q h1 where q: "create_leaf P Is_Array h = (Some q, h1)" "grown h [q] h1" "cells h1 q = Some ?m"
    by blast
  then have "building h ?m [] h1 q []" by (intro leaf_builds)
  from fill_array_makes [OF this assms(1) _ _ assms(2), of "[]"] q(1) show ?thesis
    by (simp add: create_array_def)
qed

lemma add_new_undone:
  assumes "tidy h" and "create x h = Some (Some q, h1)" and "add_member P object name (Some q) False h1 = Some (False, h1)"
  shows "\<exists>h2. add_new P (create x) object name h = Some (None, h2) \<and> grown h [] h2"
proof -
  from create [OF assms(1), of x] assms(2) obtain d where d: "q = root d" "sprouted h d h1"
    by (auto simp: makes_def)
  then have "forest (cells h1) [d]" by (simp add: sprouted_def loose_forest)
  with delete_new [of h d h1] d assms(1) obtain h2 where "cJSON_Delete (Some q) h1 = Some h2" "grown h [] h2"
    by (auto simp: sprouted_def)
  with assms show ?thesis by (simp add: add_new_def)
qed

text \<open>Without an object or a name nothing is left of the new item.\<close>

lemma add_new_refused:
  assumes "tidy h" and "object = None \<or> name = None"
  shows "\<exists>h2. add_new P (create x) object name h = Some (None, h2) \<and> grown h [] h2"
proof -
  have no: "add_member P object name i False h1 = Some (False, h1)" for i h1
    using assms(2) by (auto simp: add_member_def split: option.splits)
  from create [OF assms(1), of x] consider
    h1 where "create x h = Some (None, h1)" "grown h [] h1" | q h1 where "create x h = Some (Some q, h1)"
    by (auto simp: makes_def)
  then show ?thesis
  proof cases
    case 1
    with no show ?thesis by (simp add: add_new_def cJSON_Delete.simps [of None])
  next
    case 2
    from add_new_undone [OF assms(1) 2 no] show ?thesis .
  qed
qed

lemma add_new_member:
  assumes "tidy h" and "holds h (Shape a cs) (cJSON_Object kvs)"
  shows "gains P h a cs kvs (name, val x) (add_new P (create x) (Some a) (Some name) h)"
proof -
  from create [OF assms(1), of x] consider
    h1 where "create x h = Some (None, h1)" "grown h [] h1" "short_of_memory P"
    | d h1 where "create x h = Some (Some (root d), h1)" "sprouted h d h1" "tree_of (cells h1) d = Some (val x)"
    by (auto simp: makes_def)
  then show ?thesis
  proof cases
    case 1
    then show ?thesis by (simp add: gains_def add_new_def add_member_def cJSON_Delete.simps [of None])
  next
    case 2
    have "grown h (owned [d]) h1" "distinct (owned [d])" using 2(2) by (simp_all add: sprouted_def)
    note object = grown_beside [OF this assms]
    have may: "may_add h1 (Shape a cs) d (val x)"
      using object(3) 2(2,3) by (simp add: may_add_def sprouted_def holds_def)
    show ?thesis
    proof (cases "strdup P name")
      case None
      have "a \<noteq> root d" using object(3) by (cases d) auto
      with None have "add_member P (Some a) (Some name) (Some (root d)) False h1 = Some (False, h1)"
        by (simp add: add_member_def)
      from add_new_undone [OF assms(1) 2(1) this] show ?thesis
        using strdup_None [OF None] unfolding gains_def by blast
    next
      case (Some key)
      then have "add_item_to_object P (Some (cJSON_Object kvs)) name (Some (val x)) =
          (True, Some (cJSON_Object (kvs @ [(name, val x)])))"
        using strdup_Some [OF Some] by (simp add: add_item_to_object_def)
      from object_add [OF object(1) may this] 2(1) show ?thesis by (auto simp: gains_def add_new_def)
    qed
  qed
qed

end

lemma leaf_makes:
  assumes "node_value (blank_node\<lparr>n_kind := k\<rparr>) (Some []) (Some []) = Some v"
  shows "makes P v h (Some (create_leaf P k h))"
  using create_leaf_cases [of P k h]
proof
  assume "\<exists>h'. create_leaf P k h = (None, h') \<and> grown h [] h' \<and> short_of_memory P"
  then show ?thesis by (auto simp: makes_def)
next
  assume "\<exists>q h'. create_leaf P k h = (Some q, h') \<and> grown h [q] h' \<and> cells h' q = Some (blank_node\<lparr>n_kind := k\<rparr>)"
  then obtain q h' where q: "create_leaf P k h = (Some q, h')" "grown h [q] h'"
    "cells h' q = Some (blank_node\<lparr>n_kind := k\<rparr>)" by blast
  have "sprouted h (Shape q []) h'" using leaf_sprouts [OF q(2,3)] by (simp add: blank_node_def)
  with q assms show ?thesis unfolding makes_def
    by (intro disjI2 exI [of _ "Shape q []"] exI [of _ h']) simp
qed

lemma create_number_makes: "makes P (cJSON_Number d) h (create_number P d h)"
  unfolding create_number_def by (rule leaf_makes) (simp add: node_value_def)

lemma constants_made:
  "makes P cJSON_NULL h (Some (cJSON_CreateNull P h))"
  "makes P cJSON_True h (Some (cJSON_CreateTrue P h))"
  "makes P cJSON_False h (Some (cJSON_CreateFalse P h))"
  "makes P (cJSON_Array []) h (Some (create_leaf P Is_Array h))"
  "makes P (cJSON_Object []) h (Some (create_leaf P Is_Object h))"
  unfolding cJSON_CreateNull_def cJSON_CreateTrue_def cJSON_CreateFalse_def
  by (rule leaf_makes, simp add: node_value_def)+

lemma create_text_makes:
  assumes "tidy h" and "k = Is_String \<and> v = cJSON_String s \<or> k = Is_Raw \<and> v = cJSON_Raw s"
  shows "makes P v h (create_text P k (Some s) h)"
  using create_leaf_cases [of P k h]
proof
  assume "\<exists>h'. create_leaf P k h = (None, h') \<and> grown h [] h' \<and> short_of_memory P"
  then show ?thesis by (auto simp: makes_def create_text_def)
next
  let ?m = "blank_node\<lparr>n_kind := k\<rparr>"
  assume "\<exists>q h'. create_leaf P k h = (Some q, h') \<and> grown h [q] h' \<and> cells h' q = Some ?m"
  then obtain q h1 where q: "create_leaf P k h = (Some q, h1)" "grown h [q] h1" "cells h1 q = Some ?m" by blast
  show ?thesis
  proof (cases "strdup P s")
    case None
    have "\<exists>h2. cJSON_Delete (Some q) h1 = Some h2 \<and> grown h [] h2"
      using delete_new [of h "Shape q []" h1] q(2,3) assms(1) by (simp add: blank_node_def)
    with None q(1) strdup_None [OF None] show ?thesis by (auto simp: makes_def create_text_def)
  next
    case (Some t)
    have "own_texts (?m\<lparr>n_text := Some s\<rparr>) = own_texts ?m + 1" by (simp add: own_texts_def blank_node_def)
    from grown_update [OF q(2,3), of "\<lambda>m. m\<lparr>n_text := Some s\<rparr>", OF this]
    have g: "grown h [q] (h1\<lparr>texts := texts h1 + 1, cells := (cells h1)(q := Some (?m\<lparr>n_text := Some s\<rparr>))\<rparr>)" .
    let ?h2 = "h1\<lparr>texts := texts h1 + 1, cells := (cells h1)(q := Some (?m\<lparr>n_text := Some s\<rparr>))\<rparr>"
    from g have "sprouted h (Shape q []) (h1\<lparr>texts := texts h1 + 1, cells := (cells h1)(q := Some (?m\<lparr>n_text := Some s\<rparr>))\<rparr>)"
      by (rule leaf_sprouts [where m = "?m\<lparr>n_text := Some s\<rparr>"]) (simp_all add: blank_node_def)
    moreover have "create_text P k (Some s) h = Some (Some q, ?h2)"
      using Some strdup_Some [OF Some] q by (simp add: create_text_def)
    moreover have "tree_of (cells ?h2) (Shape q []) = Some v"
      using assms(2) by (auto simp: node_value_def)
    ultimately show ?thesis unfolding makes_def
      by (intro disjI2 exI [of _ "Shape q []"] exI [of _ ?h2]) simp
  qed
qed

lemma create_raw_makes: "tidy h \<Longrightarrow> makes P (cJSON_Raw s) h (cJSON_CreateRaw P (Some s) h)"
  by (simp add: create_text_makes cJSON_CreateRaw_def)

text \<open>Numbers and strings keep the contract.\<close>

interpretation ints: constructor P "\<lambda>i. create_number P (Fin (of_int i))" "\<lambda>i. cJSON_Number (Fin (of_int i))" for P
  by unfold_locales (rule create_number_makes)

interpretation doubles: constructor P "create_number P" cJSON_Number for P
  by unfold_locales (rule create_number_makes)

interpretation strings: constructor P "\<lambda>s. create_text P Is_String (Some s)" cJSON_String for P
  by unfold_locales (simp add: create_text_makes)

interpretation raws: constructor P "\<lambda>s. cJSON_CreateRaw P (Some s)" cJSON_Raw for P
  by unfold_locales (rule create_raw_makes)

interpretation nulls: constructor P "\<lambda>_ :: unit. \<lambda>h. Some (cJSON_CreateNull P h)" "\<lambda>_. cJSON_NULL" for P
  by unfold_locales (rule constants_made)

interpretation trues: constructor P "\<lambda>_ :: unit. \<lambda>h. Some (cJSON_CreateTrue P h)" "\<lambda>_. cJSON_True" for P
  by unfold_locales (rule constants_made)

interpretation falses: constructor P "\<lambda>_ :: unit. \<lambda>h. Some (cJSON_CreateFalse P h)" "\<lambda>_. cJSON_False" for P
  by unfold_locales (rule constants_made)

interpretation objects: constructor P "\<lambda>_ :: unit. \<lambda>h. Some (create_leaf P Is_Object h)" "\<lambda>_. cJSON_Object []" for P
  by unfold_locales (rule constants_made)

lemma members_added:
  assumes "tidy h" and "holds h (Shape a cs) (cJSON_Object kvs)"
  shows "gains P h a cs kvs (name, cJSON_String s) (add_string P (Some a) (Some name) (Some s) h)"
    and "gains P h a cs kvs (name, cJSON_Raw s) (cJSON_AddRawToObject P (Some a) (Some name) (Some s) h)"
    and "gains P h a cs kvs (name, cJSON_Number d) (add_number P (Some a) (Some name) d h)"
    and "gains P h a cs kvs (name, cJSON_NULL) (cJSON_AddNullToObject P (Some a) (Some name) h)"
    and "gains P h a cs kvs (name, cJSON_True) (cJSON_AddTrueToObject P (Some a) (Some name) h)"
    and "gains P h a cs kvs (name, cJSON_False) (cJSON_AddFalseToObject P (Some a) (Some name) h)"
    and "gains P h a cs kvs (name, cJSON_Object []) (cJSON_AddObjectToObject P (Some a) (Some name) h)"
  unfolding add_string_def cJSON_AddRawToObject_def add_number_def cJSON_AddNullToObject_def
    cJSON_AddTrueToObject_def cJSON_AddFalseToObject_def cJSON_AddObjectToObject_def
  by (rule strings.add_new_member [OF assms] raws.add_new_member [OF assms] doubles.add_new_member [OF assms]
      nulls.add_new_member [OF assms] trues.add_new_member [OF assms] falses.add_new_member [OF assms]
      objects.add_new_member [OF assms])+

text \<open>The calls without an object or a name: what was made is given back.\<close>

lemma additions_refused:
  assumes "tidy h" and "object = None \<or> name = None"
  shows "\<exists>h'. add_string P object name (Some s) h = Some (None, h') \<and> grown h [] h'"
    and "\<exists>h'. add_number P object name d h = Some (None, h') \<and> grown h [] h'"
    and "\<exists>h'. cJSON_AddObjectToObject P object name h = Some (None, h') \<and> grown h [] h'"
  unfolding add_string_def add_number_def cJSON_AddObjectToObject_def
  by (rule strings.add_new_refused [OF assms] doubles.add_new_refused [OF assms] objects.add_new_refused [OF assms])+

lemma arrays_made:
  assumes "tidy h"
  shows "k \<le> length ns \<Longrightarrow>
      makes P (cJSON_Array (map (\<lambda>i. cJSON_Number (Fin (of_int i))) (take k ns))) h
        (cJSON_CreateIntArray P (Some ns) (int k) h)"
    and "k \<le> length xs \<Longrightarrow>
      makes P (cJSON_Array (map cJSON_Number (take k xs))) h (cJSON_CreateFloatArray P (Some xs) (int k) h) \<and>
      makes P (cJSON_Array (map cJSON_Number (take k xs))) h (cJSON_CreateDoubleArray P (Some xs) (int k) h)"
    and "k \<le> length ts \<Longrightarrow>
      makes P (cJSON_Array (map cJSON_String (take k ts))) h (cJSON_CreateStringArray P (Some ts) (int k) h)"
  using ints.create_array_makes [OF assms, of k ns P] doubles.create_array_makes [OF assms, of k xs P]
    strings.create_array_makes [OF assms, of k ts P]
  by (simp_all add: cJSON_CreateIntArray_def cJSON_CreateFloatArray_def cJSON_CreateDoubleArray_def
      cJSON_CreateStringArray_def)

subsection \<open>References and strings\<close>

text \<open>Giving back a reference leaves the string or the children that it refers to, in whatever
  state they are by then.\<close>

lemma references_spare:
  assumes "tidy h"
    and "made = cJSON_CreateStringReference P s h \<or> made = cJSON_CreateObjectReference P child h \<or>
      made = cJSON_CreateArrayReference P child h"
  shows "made = (None, h) \<or>
    (\<exists>q h1. made = (Some q, h1) \<and> cells h q = None \<and>
       (\<exists>h2. cJSON_Delete (Some q) h1 = Some h2 \<and> cells h2 = cells h \<and> texts h2 = texts h))"
proof (cases "malloc_ok P sizeof_cJSON")
  case False
  then show ?thesis using assms(2)
    by (auto simp: cJSON_CreateStringReference_def cJSON_CreateObjectReference_def
        cJSON_CreateArrayReference_def new_node_def)
next
  case True
  have fresh: "cells h (brk h) = None" using assms(1) by (simp add: tidy_def)
  from True assms(2) obtain n where
    made: "made = (Some (brk h), h\<lparr>cells := (cells h)(brk h := Some n), brk := Suc (brk h)\<rparr>)"
    and n: "n_ref n" "n_next n = None" "own_texts n = 0"
    by (auto simp: cJSON_CreateStringReference_def cJSON_CreateObjectReference_def
        cJSON_CreateArrayReference_def new_node_def blank_node_def own_texts_def)
  let ?h1 = "h\<lparr>cells := (cells h)(brk h := Some n), brk := Suc (brk h)\<rparr>"
  have "cJSON_Delete (Some (brk h)) ?h1 = Some (?h1\<lparr>cells := cells h, texts := texts h\<rparr>)"
    using n fresh by (subst cJSON_Delete.simps) (simp add: free_node_def cJSON_Delete.simps [of None] fun_upd_idem)
  with made fresh show ?thesis by simp
qed

text \<open>A string in a tree gets another value in place, or, when there is no memory for a longer one,
  keeps the one it has.\<close>

lemma string_reset:
  assumes "holds h (Shape p []) (cJSON_String old)"
  shows "\<exists>ok h'. cJSON_SetValuestring P (Some p) (Some new) h = Some (ok, h') \<and> texts h' = texts h \<and>
    (if ok then holds h' (Shape p []) (cJSON_String new) \<and> only [p] h h'
     else h' = h \<and> strdup P new = None)"
proof -
  obtain n where n: "cells h p = Some n" "\<not> n_ref n" "n_child n = None" "n_kind n = Is_String" "n_text n = Some old"
    using assms by (auto simp: holds_def node_value_def split: kind.splits)
  let ?h = "h\<lparr>cells := (cells h)(p := Some (n\<lparr>n_text := Some new\<rparr>))\<rparr>"
  have "holds ?h (Shape p []) (cJSON_String new)"
    using n by (simp add: holds_def node_value_def)
  moreover have "only [p] h ?h" by (simp add: only_def)
  ultimately show ?thesis
    using n strdup_Some [of P new] by (cases "strdup P new") (auto simp: cJSON_SetValuestring_def)
qed

end
