(* ===== verification/Wy_Log.thy ===== *)
theory Wy_Log
  imports Wy_Prelude
begin

text \<open>
  Logging: \<^verbatim>\<open>src/wyoming_log.c\<close>. The message and the time stamps come formatted from the C
  library; the state is what the two static variables hold and what has been written so far.
  Every function runs under the mutex (\<^verbatim>\<open>wy_log_set_level\<close>, a single assignment, does not),
  so a call is one step.
\<close>

subsection \<open>Levels\<close>

datatype wy_log_level = WY_LOG_ERROR | WY_LOG_WARN | WY_LOG_INFO | WY_LOG_DEBUG

fun level_code :: "wy_log_level \<Rightarrow> nat" where
  "level_code WY_LOG_ERROR = 0"
| "level_code WY_LOG_WARN = 1"
| "level_code WY_LOG_INFO = 2"
| "level_code WY_LOG_DEBUG = 3"

text \<open>C compares the enumeration by its values.\<close>

instantiation wy_log_level :: linorder
begin

definition less_eq_wy_log_level :: "wy_log_level \<Rightarrow> wy_log_level \<Rightarrow> bool" where
  "less_eq_wy_log_level a b \<longleftrightarrow> level_code a \<le> level_code b"

definition less_wy_log_level :: "wy_log_level \<Rightarrow> wy_log_level \<Rightarrow> bool" where
  "less_wy_log_level a b \<longleftrightarrow> level_code a < level_code b"

instance
proof
  fix x y :: wy_log_level
  show "x \<le> y \<Longrightarrow> y \<le> x \<Longrightarrow> x = y"
    by (cases x; cases y) (simp_all add: less_eq_wy_log_level_def)
qed (auto simp: less_eq_wy_log_level_def less_wy_log_level_def)

end

fun level_str :: "wy_log_level \<Rightarrow> string" where
  "level_str WY_LOG_ERROR = ''ERROR''"
| "level_str WY_LOG_WARN = ''WARN ''"
| "level_str WY_LOG_INFO = ''INFO ''"
| "level_str WY_LOG_DEBUG = ''DEBUG''"

definition wy_log_parse_level :: "string option \<Rightarrow> wy_log_level" where
  "wy_log_parse_level str =
     (case str of
        None \<Rightarrow> WY_LOG_INFO
      | Some s \<Rightarrow>
          if s = ''error'' then WY_LOG_ERROR
          else if s = ''warn'' then WY_LOG_WARN
          else if s = ''info'' then WY_LOG_INFO
          else if s = ''debug'' then WY_LOG_DEBUG
          else WY_LOG_INFO)"

subsection \<open>State\<close>

text \<open>\<open>files\<close> is the content of every log file by its path.\<close>

record log_state =
  g_level :: wy_log_level
  g_file :: "string option"
  err_out :: string
  files :: "string \<Rightarrow> string"

text \<open>\<^verbatim>\<open>fopen\<close> in append mode succeeds where the system allows it (\<open>can_open\<close>); a file that
  cannot be opened is reported and not used.\<close>

definition wy_log_init :: "(string \<Rightarrow> bool) \<Rightarrow> wy_log_level \<Rightarrow> string option \<Rightarrow> log_state \<Rightarrow> log_state" where
  "wy_log_init can_open level file_path g =
     (let g = g\<lparr>g_level := level, g_file := None\<rparr>
      in case file_path of
           None \<Rightarrow> g
         | Some path \<Rightarrow>
             if path = [] then g
             else if can_open path then g\<lparr>g_file := Some path\<rparr>
             else g\<lparr>err_out := err_out g @ ''wyoming: cannot open log file: '' @ path @ [NL]\<rparr>)"

definition wy_log_set_level :: "wy_log_level \<Rightarrow> log_state \<Rightarrow> log_state" where
  "wy_log_set_level level g = g\<lparr>g_level := level\<rparr>"

text \<open>One line; the message buffer holds 2047 characters.\<close>

definition log_line :: "string \<Rightarrow> wy_log_level \<Rightarrow> string \<Rightarrow> string" where
  "log_line stamp level msg = stamp @ '' '' @ level_str level @ '' '' @ take 2047 msg @ [NL]"

record log_call =
  lc_level :: wy_log_level
  lc_time :: string
  lc_date :: string
  lc_msg :: string

definition wy_log :: "log_state \<Rightarrow> log_call \<Rightarrow> log_state" where
  "wy_log g c =
     (if g_level g < lc_level c then g
      else let g = g\<lparr>err_out := err_out g @ log_line (lc_time c) (lc_level c) (lc_msg c)\<rparr>
           in (case g_file g of
                 None \<Rightarrow> g
               | Some path \<Rightarrow>
                   g\<lparr>files := (files g)(path := files g path @
                        log_line (lc_date c) (lc_level c) (lc_msg c))\<rparr>))"

definition wy_log_shutdown :: "log_state \<Rightarrow> log_state" where
  "wy_log_shutdown g = g\<lparr>g_file := None\<rparr>"

subsection \<open>What is logged\<close>

definition logged :: "wy_log_level \<Rightarrow> log_call list \<Rightarrow> log_call list" where
  "logged level cs = filter (\<lambda>c. lc_level c \<le> level) cs"

lemma wy_log_keeps [simp]: "g_level (wy_log g c) = g_level g" "g_file (wy_log g c) = g_file g"
  by (simp_all add: wy_log_def Let_def split: option.split)

lemma wy_log_err_out:
  "err_out (foldl wy_log g cs) =
     err_out g @ concat (map (\<lambda>c. log_line (lc_time c) (lc_level c) (lc_msg c)) (logged (g_level g) cs))"
proof (induction cs arbitrary: g)
  case (Cons c cs)
  show ?case
    using Cons.IH [of "wy_log g c"]
    by (simp add: logged_def wy_log_def Let_def not_less [symmetric] split: option.split)
qed (simp add: logged_def)

lemma wy_log_files:
  "files (foldl wy_log g cs) path =
     files g path @
     (if g_file g = Some path
      then concat (map (\<lambda>c. log_line (lc_date c) (lc_level c) (lc_msg c)) (logged (g_level g) cs))
      else [])"
proof (induction cs arbitrary: g)
  case (Cons c cs)
  show ?case
    using Cons.IH [of "wy_log g c"]
    by (auto simp: logged_def wy_log_def Let_def not_less [symmetric] split: option.split)
qed (simp add: logged_def)

end
