(* ===== verification/Wy_Loop.thy ===== *)
theory Wy_Loop
  imports Wy_Safety "HOL-Library.Transitive_Closure_Table"
begin

text \<open>
  \<^verbatim>\<open>wyoming_server_run\<close> and \<^verbatim>\<open>wyoming_server_stop\<close> of \<^verbatim>\<open>src/server.c\<close>, in both
  builds (\<^verbatim>\<open>epoll\<close> and \<^verbatim>\<open>poll\<close>), as step relations. The server's thread is at a program
  counter; between any two of its steps another thread or a signal handler may take a step of
  \<^verbatim>\<open>wyoming_server_stop\<close>, which first clears the flag and then writes to the stop pipe. While
  a client is served the flag can be cleared as well; then the session says when it is seen
  (\<open>s_stop\<close>, theory \<open>Wy_Session\<close>).
\<close>

subsection \<open>State\<close>

datatype ready = Listen | Pipe

text \<open>Where the thread is: before the set-up, at the test of the outer loop, in the call that
  waits, at the test of the inner loop with the events still to handle, handling one, returned.\<close>

datatype pc =
    Start
  | Check
  | Wait
  | Dispatch "ready list"
  | Handle ready "ready list"
  | Finished wyoming_error

text \<open>\<open>h_stops\<close>: calls of \<^verbatim>\<open>wyoming_server_stop\<close> between their two statements. \<open>h_pipe\<close>:
  the stop pipe holds a byte; the code never reads it. \<open>h_epoll\<close>: the epoll descriptor is
  open. \<open>h_log\<close>: the sessions served, as they ended.\<close>

record 'u host =
  h_pc :: pc
  h_running :: bool
  h_stops :: nat
  h_pipe :: bool
  h_epoll :: bool
  h_world :: 'u
  h_log :: "'u session list"

definition created :: "'u \<Rightarrow> 'u host" where
  "created w =
     \<lparr>h_pc = Start, h_running = False, h_stops = 0, h_pipe = False, h_epoll = False, h_world = w, h_log = []\<rparr>"

subsection \<open>Steps\<close>

text \<open>\<^verbatim>\<open>wyoming_server_stop\<close>: \<^verbatim>\<open>running = 0\<close>, then the write.\<close>

inductive stop_step :: "'u host \<Rightarrow> 'u host \<Rightarrow> bool" where
  clear: "stop_step h (h\<lparr>h_running := False, h_stops := Suc (h_stops h)\<rparr>)"
| wake: "h_stops h = Suc n \<Longrightarrow> stop_step h (h\<lparr>h_pipe := True, h_stops := n\<rparr>)"

text \<open>What the waiting call may report, for the descriptors that are \<open>watched\<close> (those whose
  \<^verbatim>\<open>epoll_ctl\<close> succeeded): each at most once, a readable pipe always, an empty one never. No
  event and an interruption are possible only when the pipe is not readable.\<close>

definition reports :: "ready set \<Rightarrow> ready list \<Rightarrow> 'u host \<Rightarrow> bool" where
  "reports watched evs h \<longleftrightarrow>
     distinct evs \<and> set evs \<subseteq> watched \<and> (Pipe \<in> watched \<longrightarrow> (Pipe \<in> set evs \<longleftrightarrow> h_pipe h))"

text \<open>A client that was accepted, from \<^verbatim>\<open>handle_client\<close> to \<^verbatim>\<open>close\<close>. \<open>stop\<close> is the
  moment the flag is cleared, if it is; it stays cleared when it was before.\<close>

definition stops_at :: "nat option \<Rightarrow> 'u host \<Rightarrow> bool" where
  "stops_at stop h \<longleftrightarrow> h_running h \<or> stop = Some 0"

definition served :: "platform \<Rightarrow> ('u, 'c) server \<Rightarrow> sock \<Rightarrow> nat option \<Rightarrow> 'u \<Rightarrow> 'u session" where
  "served P srv fd stop w = handle_client P srv (start_session fd w stop)"

definition serve_client :: "platform \<Rightarrow> ('u, 'c) server \<Rightarrow> sock \<Rightarrow> nat option \<Rightarrow> 'u host \<Rightarrow> 'u host" where
  "serve_client P srv fd stop h =
     (let s = served P srv fd stop (h_world h)
      in h\<lparr>h_world := s_world s, h_log := h_log h @ [s],
           h_running := (h_running h \<and> stop = None),
           h_stops := h_stops h + (if h_running h \<and> stop \<noteq> None then 1 else 0)\<rparr>)"

definition fresh_sock :: "sock \<Rightarrow> bool" where
  "fresh_sock fd \<longleftrightarrow> tx fd = []"

inductive epoll_step ::
  "platform \<Rightarrow> ('u, 'c) server \<Rightarrow> ready set \<Rightarrow> 'u host \<Rightarrow> 'u host \<Rightarrow> bool"
  for P :: platform and srv :: "('u, 'c) server" and watched :: "ready set" where
  no_epoll: "h_pc h = Start \<Longrightarrow>
    epoll_step P srv watched h (h\<lparr>h_pc := Finished WYOMING_ERR_IO\<rparr>)"
| set_up: "h_pc h = Start \<Longrightarrow>
    epoll_step P srv watched h (h\<lparr>h_epoll := True, h_running := True, h_pc := Check\<rparr>)"
| again: "h_pc h = Check \<Longrightarrow> h_running h \<Longrightarrow> epoll_step P srv watched h (h\<lparr>h_pc := Wait\<rparr>)"
| leave: "h_pc h = Check \<Longrightarrow> \<not> h_running h \<Longrightarrow>
    epoll_step P srv watched h (h\<lparr>h_epoll := False, h_pc := Finished WYOMING_OK\<rparr>)"
| interrupted: "h_pc h = Wait \<Longrightarrow> \<not> (h_pipe h \<and> Pipe \<in> watched) \<Longrightarrow>
    epoll_step P srv watched h (h\<lparr>h_pc := Check\<rparr>)"
| broken: "h_pc h = Wait \<Longrightarrow>
    epoll_step P srv watched h (h\<lparr>h_epoll := False, h_pc := Finished WYOMING_OK\<rparr>)"
| events: "h_pc h = Wait \<Longrightarrow> reports watched evs h \<Longrightarrow>
    epoll_step P srv watched h (h\<lparr>h_pc := Dispatch evs\<rparr>)"
| no_more: "h_pc h = Dispatch [] \<Longrightarrow> epoll_step P srv watched h (h\<lparr>h_pc := Check\<rparr>)"
| skip_rest: "h_pc h = Dispatch (r # evs) \<Longrightarrow> \<not> h_running h \<Longrightarrow>
    epoll_step P srv watched h (h\<lparr>h_pc := Check\<rparr>)"
| take_event: "h_pc h = Dispatch (r # evs) \<Longrightarrow> h_running h \<Longrightarrow>
    epoll_step P srv watched h (h\<lparr>h_pc := Handle r evs\<rparr>)"
| stop_event: "h_pc h = Handle Pipe evs \<Longrightarrow>
    epoll_step P srv watched h (h\<lparr>h_running := False, h_pc := Check\<rparr>)"
| no_client: "h_pc h = Handle Listen evs \<Longrightarrow>
    epoll_step P srv watched h (h\<lparr>h_pc := Dispatch evs\<rparr>)"
| client: "h_pc h = Handle Listen evs \<Longrightarrow> fresh_sock fd \<Longrightarrow> stops_at stop h \<Longrightarrow>
    epoll_step P srv watched h ((serve_client P srv fd stop h)\<lparr>h_pc := Dispatch evs\<rparr>)"

text \<open>The other build: \<^verbatim>\<open>poll\<close> needs no set-up, the pipe is looked at first, and the flag
  is not tested again before a client is accepted.\<close>

inductive poll_step ::
  "platform \<Rightarrow> ('u, 'c) server \<Rightarrow> 'u host \<Rightarrow> 'u host \<Rightarrow> bool"
  for P :: platform and srv :: "('u, 'c) server" where
  p_set_up: "h_pc h = Start \<Longrightarrow> poll_step P srv h (h\<lparr>h_running := True, h_pc := Check\<rparr>)"
| p_again: "h_pc h = Check \<Longrightarrow> h_running h \<Longrightarrow> poll_step P srv h (h\<lparr>h_pc := Wait\<rparr>)"
| p_leave: "h_pc h = Check \<Longrightarrow> \<not> h_running h \<Longrightarrow> poll_step P srv h (h\<lparr>h_pc := Finished WYOMING_OK\<rparr>)"
| p_interrupted: "h_pc h = Wait \<Longrightarrow> \<not> h_pipe h \<Longrightarrow> poll_step P srv h (h\<lparr>h_pc := Check\<rparr>)"
| p_broken: "h_pc h = Wait \<Longrightarrow> poll_step P srv h (h\<lparr>h_pc := Finished WYOMING_OK\<rparr>)"
| p_events: "h_pc h = Wait \<Longrightarrow> reports {Listen, Pipe} evs h \<Longrightarrow>
    poll_step P srv h (h\<lparr>h_pc := Dispatch evs\<rparr>)"
| p_stop: "h_pc h = Dispatch evs \<Longrightarrow> Pipe \<in> set evs \<Longrightarrow>
    poll_step P srv h (h\<lparr>h_running := False, h_pc := Finished WYOMING_OK\<rparr>)"
| p_nothing: "h_pc h = Dispatch [] \<Longrightarrow> poll_step P srv h (h\<lparr>h_pc := Check\<rparr>)"
| p_no_client: "h_pc h = Dispatch evs \<Longrightarrow> Pipe \<notin> set evs \<Longrightarrow> Listen \<in> set evs \<Longrightarrow>
    poll_step P srv h (h\<lparr>h_pc := Check\<rparr>)"
| p_client: "h_pc h = Dispatch evs \<Longrightarrow> Pipe \<notin> set evs \<Longrightarrow> Listen \<in> set evs \<Longrightarrow> fresh_sock fd \<Longrightarrow>
    stops_at stop h \<Longrightarrow> poll_step P srv h ((serve_client P srv fd stop h)\<lparr>h_pc := Check\<rparr>)"

inductive_cases epoll_stepE: "epoll_step P srv watched h h'"
inductive_cases poll_stepE: "poll_step P srv h h'"
inductive_cases stop_stepE: "stop_step h h'"

text \<open>The build decides (\<^verbatim>\<open>HAVE_EPOLL\<close>); both threads take turns in any order.\<close>

datatype event_api = Epoll "ready set" | Poll

fun loop_step :: "event_api \<Rightarrow> platform \<Rightarrow> ('u, 'c) server \<Rightarrow> 'u host \<Rightarrow> 'u host \<Rightarrow> bool" where
  "loop_step (Epoll watched) P srv = epoll_step P srv watched"
| "loop_step Poll P srv = poll_step P srv"

definition with_stops :: "('u host \<Rightarrow> 'u host \<Rightarrow> bool) \<Rightarrow> 'u host \<Rightarrow> 'u host \<Rightarrow> bool" where
  "with_stops own h h' \<longleftrightarrow> own h h' \<or> stop_step h h'"

definition host_step :: "event_api \<Rightarrow> platform \<Rightarrow> ('u, 'c) server \<Rightarrow> 'u host \<Rightarrow> 'u host \<Rightarrow> bool" where
  "host_step api P srv = with_stops (loop_step api P srv)"

abbreviation host_steps :: "event_api \<Rightarrow> platform \<Rightarrow> ('u, 'c) server \<Rightarrow> 'u host \<Rightarrow> 'u host \<Rightarrow> bool" where
  "host_steps api P srv \<equiv> (host_step api P srv)\<^sup>*\<^sup>*"

subsection \<open>One client after the other\<close>

text \<open>The specification of a sequential server: it serves its connections one after the other,
  each in the world the one before it left.\<close>

fun serve_all ::
  "platform \<Rightarrow> ('u, 'c) server \<Rightarrow> 'u \<Rightarrow> (sock \<times> nat option) list \<Rightarrow> 'u session list \<times> 'u" where
  "serve_all P srv w [] = ([], w)"
| "serve_all P srv w ((fd, stop) # cs) =
     (let s = served P srv fd stop w; (ss, w') = serve_all P srv (s_world s) cs in (s # ss, w'))"

lemma serve_all_snoc:
  "serve_all P srv w (cs @ [(fd, stop)]) =
     (let (ss, w') = serve_all P srv w cs; s = served P srv fd stop w' in (ss @ [s], s_world s))"
  by (induction P srv w cs rule: serve_all.induct) (auto simp: Let_def split: prod.splits)

text \<open>Only the last of them can be cut short by the flag.\<close>

definition uncut :: "(sock \<times> nat option) list \<Rightarrow> bool" where
  "uncut cs \<longleftrightarrow> list_all (\<lambda>(fd, stop). stop = None) cs"

lemma uncut_simps [simp]:
  "uncut []" "uncut (cs @ cs') = (uncut cs \<and> uncut cs')"
  "uncut [(fd, stop)] = (stop = None)"
  by (simp_all add: uncut_def)

lemma uncut_butlast: "uncut cs \<Longrightarrow> uncut (butlast cs)"
  by (cases cs rule: rev_cases) simp_all

text \<open>What an event loop owes its clients, whichever system call it waits in. \<open>own\<close> is a step
  of the server's thread, \<open>may\<close> says that it may still accept a client before it returns.\<close>

definition quiet :: "'u host \<Rightarrow> 'u host \<Rightarrow> bool" where
  "quiet h h' \<longleftrightarrow> h_world h' = h_world h \<and> h_log h' = h_log h"

definition serves_one :: "platform \<Rightarrow> ('u, 'c) server \<Rightarrow> sock \<Rightarrow> nat option \<Rightarrow> 'u host \<Rightarrow> 'u host \<Rightarrow> bool" where
  "serves_one P srv fd stop h h' \<longleftrightarrow>
     (let s = served P srv fd stop (h_world h) in h_world h' = s_world s \<and> h_log h' = h_log h @ [s])"

lemma serves_one_client [simp]:
  "serves_one P srv fd stop h ((serve_client P srv fd stop h)\<lparr>h_pc := p\<rparr>)"
  by (simp add: serves_one_def serve_client_def Let_def)

lemma stop_step_quiet: "stop_step h h' \<Longrightarrow> quiet h h'"
  by (auto elim!: stop_stepE simp: quiet_def)

locale accept_loop =
  fixes P :: platform
    and srv :: "('u, 'c) server"
    and own :: "'u host \<Rightarrow> 'u host \<Rightarrow> bool"
    and may :: "'u host \<Rightarrow> bool"
  assumes own_cases: "own h h' \<Longrightarrow>
      quiet h h' \<and> (may h' \<longrightarrow> may h) \<or>
      (\<exists>fd stop. may h \<and> fresh_sock fd \<and> serves_one P srv fd stop h h' \<and> (stop \<noteq> None \<longrightarrow> \<not> may h'))"
    and may_stop: "stop_step h h' \<Longrightarrow> may h' \<Longrightarrow> may h"
begin

lemma in_order:
  assumes "(with_stops own)\<^sup>*\<^sup>* h h'" and "h_log h = []"
  shows "\<exists>cs. serve_all P srv (h_world h) cs = (h_log h', h_world h') \<and>
    list_all (\<lambda>c. fresh_sock (fst c)) cs \<and> uncut (butlast cs) \<and> (may h' \<longrightarrow> uncut cs)"
  using assms(1)
proof (induction rule: rtranclp_induct)
  case base
  show ?case by (rule exI [of _ "[]"]) (simp add: assms(2))
next
  case (step h1 h2)
  then obtain cs where cs: "serve_all P srv (h_world h) cs = (h_log h1, h_world h1)"
    "list_all (\<lambda>c. fresh_sock (fst c)) cs" "uncut (butlast cs)" "may h1 \<longrightarrow> uncut cs" by blast
  consider (silent) "quiet h1 h2" "may h2 \<longrightarrow> may h1"
    | (client) fd stop where "may h1" "fresh_sock fd" "serves_one P srv fd stop h1 h2"
        "stop \<noteq> None \<longrightarrow> \<not> may h2"
    using step.hyps(2) own_cases may_stop stop_step_quiet unfolding with_stops_def by metis
  then show ?case
  proof cases
    case silent
    with cs show ?thesis by (intro exI [of _ cs]) (auto simp: quiet_def)
  next
    case client
    with cs show ?thesis
      by (intro exI [of _ "cs @ [(fd, stop)]"])
         (auto simp: serve_all_snoc serves_one_def Let_def)
  qed
qed

end

text \<open>A step of the thread with steps of other threads before it.\<close>

definition turn :: "('u host \<Rightarrow> 'u host \<Rightarrow> bool) \<Rightarrow> 'u host \<Rightarrow> 'u host \<Rightarrow> bool" where
  "turn own h h' \<longleftrightarrow> (\<exists>m. stop_step\<^sup>*\<^sup>* h m \<and> own m h')"

text \<open>And how it obeys a stop: once the pipe is readable, \<open>due\<close> bounds the clients it still
  accepts, and \<open>rank\<close> the steps of its thread.\<close>

locale prompt_loop = accept_loop P srv own may
  for P :: platform and srv :: "('u, 'c) server" and own may +
  fixes inv :: "'u host \<Rightarrow> bool"
    and due :: "'u host \<Rightarrow> nat"
    and rank :: "'u host \<Rightarrow> nat"
  assumes inv_own: "inv h \<Longrightarrow> own h h' \<Longrightarrow> inv h'"
    and inv_stop: "inv h \<Longrightarrow> stop_step h h' \<Longrightarrow> inv h'"
    and keeps_pipe: "own h h' \<Longrightarrow> h_pipe h' = h_pipe h"
    and due_own: "inv h \<Longrightarrow> h_pipe h \<Longrightarrow> own h h' \<Longrightarrow>
      length (h_log h') + due h' \<le> length (h_log h) + due h"
    and due_stop: "stop_step h h' \<Longrightarrow> due h' \<le> due h"
    and rank_own: "inv h \<Longrightarrow> h_pipe h \<Longrightarrow> own h h' \<Longrightarrow> rank h' < rank h"
    and rank_stop: "stop_step h h' \<Longrightarrow> rank h' \<le> rank h"
    and progress: "inv h \<Longrightarrow> (\<exists>h'. own h h') \<or> (\<exists>rc. h_pc h = Finished rc)"
begin

lemma inv_step: "inv h \<Longrightarrow> with_stops own h h' \<Longrightarrow> inv h'"
  unfolding with_stops_def using inv_own inv_stop by metis

lemma inv_steps: "(with_stops own)\<^sup>*\<^sup>* h h' \<Longrightarrow> inv h \<Longrightarrow> inv h'"
  by (induction rule: rtranclp_induct) (auto intro: inv_step)

lemma pipe_stop: "stop_step h h' \<Longrightarrow> h_pipe h \<Longrightarrow> h_pipe h'"
  by (auto elim!: stop_stepE)

lemma few_clients:
  "(with_stops own)\<^sup>*\<^sup>* h h' \<Longrightarrow> inv h \<Longrightarrow> h_pipe h \<Longrightarrow>
     h_pipe h' \<and> length (h_log h') + due h' \<le> length (h_log h) + due h"
proof (induction rule: rtranclp_induct)
  case (step h1 h2)
  then have h1: "inv h1" "h_pipe h1" "length (h_log h1) + due h1 \<le> length (h_log h) + due h"
    using inv_steps by blast+
  from step.hyps(2) show ?case unfolding with_stops_def
  proof
    assume "own h1 h2"
    from due_own [OF h1(1,2) this] keeps_pipe [OF this] h1 show ?thesis by simp
  next
    assume s: "stop_step h1 h2"
    from due_stop [OF s] pipe_stop [OF s] stop_step_quiet [OF s] h1 show ?thesis by (simp add: quiet_def)
  qed
qed simp

lemma stop_steps:
  "stop_step\<^sup>*\<^sup>* h m \<Longrightarrow> inv h \<Longrightarrow> h_pipe h \<Longrightarrow> inv m \<and> h_pipe m \<and> rank m \<le> rank h"
  by (induction rule: rtranclp_induct) (auto intro: inv_stop pipe_stop order_trans [OF rank_stop])

lemma turn_rank: "turn own h h' \<Longrightarrow> inv h \<Longrightarrow> h_pipe h \<Longrightarrow> inv h' \<and> h_pipe h' \<and> rank h' < rank h"
  unfolding turn_def using stop_steps keeps_pipe inv_own rank_own by (metis order_less_le_trans)

lemma few_turns: "(turn own ^^ n) h h' \<Longrightarrow> inv h \<Longrightarrow> h_pipe h \<Longrightarrow> n + rank h' \<le> rank h"
proof (induction n arbitrary: h)
  case (Suc n)
  then obtain h1 where h1: "turn own h h1" "(turn own ^^ n) h1 h'" by (metis relpowp_Suc_D2)
  with Suc.IH [OF h1(2)] turn_rank [OF h1(1) Suc.prems(2,3)] show ?case by simp
qed simp

lemma returns: "inv h \<Longrightarrow> h_pipe h \<Longrightarrow> \<exists>h' rc. own\<^sup>*\<^sup>* h h' \<and> h_pc h' = Finished rc"
proof (induction "rank h" arbitrary: h rule: less_induct)
  case less
  from progress [OF less.prems(1)] show ?case
  proof (elim disjE exE)
    fix h' assume "own h h'"
    with less.hyps [of h'] rank_own [OF less.prems this] inv_own [OF less.prems(1) this]
      keeps_pipe [OF this] less.prems(2)
    show ?thesis by (meson converse_rtranclp_into_rtranclp)
  qed blast
qed

end

subsection \<open>The epoll loop\<close>

text \<open>Clients that a batch of events can still bring once the pipe is readable: those before
  the pipe in this batch, and one in the next batch if the pipe is not in this one.\<close>

definition due_events :: "ready list \<Rightarrow> nat" where
  "due_events evs =
     length (filter ((=) Listen) (takeWhile ((\<noteq>) Pipe) evs)) + (if Pipe \<in> set evs then 0 else 1)"

lemma due_events_simps [simp]:
  "due_events [] = 1" "due_events (Pipe # evs) = 0" "due_events (Listen # evs) = Suc (due_events evs)"
  by (simp_all add: due_events_def)

lemma due_events_le: "distinct evs \<Longrightarrow> due_events evs \<le> (if Pipe \<in> set evs then 1 else 2)"
proof -
  have one: "distinct xs \<Longrightarrow> length (filter ((=) Listen) xs) \<le> 1" for xs
    by (induction xs) (auto simp: filter_empty_conv)
  assume "distinct evs"
  then have "distinct (takeWhile ((\<noteq>) Pipe) evs)" by (rule distinct_takeWhile)
  from one [OF this] show ?thesis by (simp add: due_events_def)
qed

fun epoll_due :: "'u host \<Rightarrow> nat" where
  "epoll_due h =
     (case h_pc h of
        Start \<Rightarrow> 1
      | Finished rc \<Rightarrow> 0
      | Check \<Rightarrow> if h_running h then 1 else 0
      | Wait \<Rightarrow> if h_running h then 1 else 0
      | Dispatch evs \<Rightarrow> if h_running h then due_events evs else 0
      | Handle r evs \<Rightarrow> if h_running h then due_events (r # evs) else if r = Listen then 1 else 0)"

fun rank_events :: "ready list \<Rightarrow> nat" where
  "rank_events evs = 2 * length evs + (if Pipe \<in> set evs then 4 else 20)"

fun epoll_rank :: "'u host \<Rightarrow> nat" where
  "epoll_rank h =
     (case h_pc h of
        Start \<Rightarrow> 25
      | Finished rc \<Rightarrow> 0
      | Check \<Rightarrow> if h_running h then 19 else 1
      | Wait \<Rightarrow> if h_running h then 18 else 5
      | Dispatch evs \<Rightarrow> if h_running h then rank_events evs else 2
      | Handle r evs \<Rightarrow> if h_running h then rank_events (r # evs) - 1 else 3)"

lemma due_events_two: "distinct evs \<Longrightarrow> due_events evs \<le> 2"
  by (rule order_trans [OF due_events_le]) simp_all

text \<open>Each descriptor is in a batch at most once, and the epoll descriptor is open exactly
  while the call runs.\<close>

fun epoll_inv :: "'u host \<Rightarrow> bool" where
  "epoll_inv h =
     (case h_pc h of
        Start \<Rightarrow> \<not> h_epoll h
      | Finished rc \<Rightarrow> \<not> h_epoll h
      | Dispatch evs \<Rightarrow> distinct evs \<and> h_epoll h
      | Handle r evs \<Rightarrow> distinct (r # evs) \<and> h_epoll h
      | _ \<Rightarrow> h_epoll h)"

fun epoll_may :: "'u host \<Rightarrow> bool" where
  "epoll_may h =
     (h_running h \<or> (case h_pc h of Start \<Rightarrow> True | Handle r evs \<Rightarrow> r = Listen | _ \<Rightarrow> False))"

lemma serve_client_fields [simp]:
  "h_pc (serve_client P srv fd stop h) = h_pc h" "h_pipe (serve_client P srv fd stop h) = h_pipe h"
  "h_epoll (serve_client P srv fd stop h) = h_epoll h"
  "h_running (serve_client P srv fd stop h) = (h_running h \<and> stop = None)"
  "length (h_log (serve_client P srv fd stop h)) = Suc (length (h_log h))"
  by (simp_all add: serve_client_def Let_def)

lemma ready_set: "r \<in> {Listen, Pipe}"
  by (cases r) simp_all

lemma distinct_ready: "distinct (evs :: ready list) \<Longrightarrow> length evs \<le> 2"
proof -
  assume "distinct evs"
  then have "length evs = card (set evs)" by (simp add: distinct_card)
  also have "\<dots> \<le> card {Listen, Pipe}" using ready_set by (intro card_mono) auto
  finally show ?thesis by simp
qed

lemma epoll_progress: "(\<exists>h'. epoll_step P srv watched h h') \<or> (\<exists>rc. h_pc h = Finished rc)"
proof (cases "h_pc h")
  case Start
  from epoll_step.no_epoll [of h P srv watched, OF this] show ?thesis by blast
next
  case Check
  with epoll_step.again [of h P srv watched] epoll_step.leave [of h P srv watched] show ?thesis by blast
next
  case Wait
  from epoll_step.broken [of h P srv watched, OF this] show ?thesis by blast
next
  case (Dispatch evs)
  then show ?thesis
    using epoll_step.no_more [of h P srv watched] epoll_step.skip_rest [of h _ _ P srv watched]
      epoll_step.take_event [of h _ _ P srv watched]
    by (cases evs) blast+
next
  case (Handle r evs)
  then show ?thesis
    using epoll_step.stop_event [of h _ P srv watched] epoll_step.no_client [of h _ P srv watched]
    by (cases r) blast+
qed simp

lemma epoll_due_two: "epoll_inv h \<Longrightarrow> epoll_due h \<le> 2"
  by (auto split: pc.splits if_splits simp del: due_events_simps distinct.simps intro!: due_events_two)

interpretation epoll_loop: accept_loop P srv "epoll_step P srv watched" epoll_may
proof
  fix h h' :: "'a host"
  assume "epoll_step P srv watched h h'"
  then show "quiet h h' \<and> (epoll_may h' \<longrightarrow> epoll_may h) \<or>
      (\<exists>fd stop. epoll_may h \<and> fresh_sock fd \<and> serves_one P srv fd stop h h' \<and>
         (stop \<noteq> None \<longrightarrow> \<not> epoll_may h'))"
  proof cases
    case (client evs fd stop)
    then show ?thesis by (intro disjI2 exI [of _ fd] exI [of _ stop]) auto
  qed (auto simp: quiet_def)
next
  fix h h' :: "'a host"
  assume "stop_step h h'" "epoll_may h'"
  then show "epoll_may h" by (auto elim!: stop_stepE)
qed

lemma epoll_inv_kept: "epoll_inv h \<Longrightarrow> epoll_step P srv watched h h' \<Longrightarrow> epoll_inv h'"
proof -
  assume inv: "epoll_inv h" and e: "epoll_step P srv watched h h'"
  from e inv show ?thesis by cases (auto simp: reports_def)
qed

interpretation epoll_prompt: prompt_loop P srv "epoll_step P srv (insert Pipe watched)" epoll_may
  epoll_inv epoll_due epoll_rank
proof
  fix h h' :: "'a host"
  assume inv: "epoll_inv h" and e: "epoll_step P srv (insert Pipe watched) h h'"
  then show "epoll_inv h'" by (rule epoll_inv_kept)
next
  fix h h' :: "'a host"
  assume "epoll_inv h" "stop_step h h'"
  then show "epoll_inv h'" by (auto elim!: stop_stepE split: pc.splits)
next
  fix h h' :: "'a host"
  assume "epoll_step P srv (insert Pipe watched) h h'"
  then show "h_pipe h' = h_pipe h" by cases simp_all
next
  fix h h' :: "'a host"
  assume inv: "epoll_inv h" "h_pipe h" and e: "epoll_step P srv (insert Pipe watched) h h'"
  from e inv show "length (h_log h') + epoll_due h' \<le> length (h_log h) + epoll_due h"
  proof cases
    case (events evs)
    then show ?thesis using inv due_events_le [of evs] by (auto simp: reports_def)
  qed (auto simp: stops_at_def)
next
  fix h h' :: "'a host"
  assume "stop_step h h'"
  then show "epoll_due h' \<le> epoll_due h"
    by (auto elim!: stop_stepE split: pc.splits ready.splits)
next
  fix h h' :: "'a host"
  assume inv: "epoll_inv h" "h_pipe h" and e: "epoll_step P srv (insert Pipe watched) h h'"
  from e inv show "epoll_rank h' < epoll_rank h"
  proof cases
    case (events evs)
    then show ?thesis using inv distinct_ready [of evs] by (auto simp: reports_def)
  qed auto
next
  fix h h' :: "'a host"
  assume "stop_step h h'"
  then show "epoll_rank h' \<le> epoll_rank h" by (auto elim!: stop_stepE split: pc.splits)
next
  fix h :: "'a host"
  assume "epoll_inv h"
  show "(\<exists>h'. epoll_step P srv (insert Pipe watched) h h') \<or> (\<exists>rc. h_pc h = Finished rc)"
    by (rule epoll_progress)
qed

subsection \<open>The poll loop\<close>

definition accepts :: "ready list \<Rightarrow> bool" where
  "accepts evs \<longleftrightarrow> Pipe \<notin> set evs \<and> Listen \<in> set evs"

fun poll_due :: "'u host \<Rightarrow> nat" where
  "poll_due h = (case h_pc h of Dispatch evs \<Rightarrow> if accepts evs then 1 else 0 | _ \<Rightarrow> 0)"

fun poll_rank :: "'u host \<Rightarrow> nat" where
  "poll_rank h =
     (case h_pc h of
        Start \<Rightarrow> 10
      | Check \<Rightarrow> if h_running h then 9 else 1
      | Wait \<Rightarrow> 8
      | Dispatch evs \<Rightarrow> if Pipe \<in> set evs then 2 else 11
      | _ \<Rightarrow> 0)"

fun poll_inv :: "'u host \<Rightarrow> bool" where
  "poll_inv h = (\<not> h_epoll h \<and> (case h_pc h of Handle r evs \<Rightarrow> False | _ \<Rightarrow> True))"

fun poll_may :: "'u host \<Rightarrow> bool" where
  "poll_may h =
     (h_running h \<or>
      (case h_pc h of Start \<Rightarrow> True | Wait \<Rightarrow> True | Dispatch evs \<Rightarrow> accepts evs | _ \<Rightarrow> False))"

lemma poll_progress:
  assumes "poll_inv h"
  shows "(\<exists>h'. poll_step P srv h h') \<or> (\<exists>rc. h_pc h = Finished rc)"
proof (cases "h_pc h")
  case Start
  from poll_step.p_set_up [of h P srv, OF this] show ?thesis by blast
next
  case Check
  with poll_step.p_again [of h P srv] poll_step.p_leave [of h P srv] show ?thesis by blast
next
  case Wait
  from poll_step.p_broken [of h P srv, OF this] show ?thesis by blast
next
  case (Dispatch evs)
  consider "Pipe \<in> set evs" | "Pipe \<notin> set evs" "Listen \<in> set evs" | "evs = []"
    using ready_set by (metis emptyE insertE list.set_intros(1) neq_Nil_conv)
  then show ?thesis
    using poll_step.p_stop [OF Dispatch, of P srv] poll_step.p_no_client [OF Dispatch, of P srv]
      poll_step.p_nothing [of h P srv] Dispatch
    by cases blast+
qed (use assms in simp_all)

interpretation poll_loop: accept_loop P srv "poll_step P srv" poll_may
proof
  fix h h' :: "'a host"
  assume "poll_step P srv h h'"
  then show "quiet h h' \<and> (poll_may h' \<longrightarrow> poll_may h) \<or>
      (\<exists>fd stop. poll_may h \<and> fresh_sock fd \<and> serves_one P srv fd stop h h' \<and>
         (stop \<noteq> None \<longrightarrow> \<not> poll_may h'))"
  proof cases
    case (p_client evs fd stop)
    then show ?thesis
      by (intro disjI2 exI [of _ fd] exI [of _ stop]) (auto simp: accepts_def)
  qed (auto simp: quiet_def accepts_def)
next
  fix h h' :: "'a host"
  assume "stop_step h h'" "poll_may h'"
  then show "poll_may h" by (auto elim!: stop_stepE)
qed

interpretation poll_prompt: prompt_loop P srv "poll_step P srv" poll_may poll_inv poll_due poll_rank
proof
  fix h h' :: "'a host"
  assume inv: "poll_inv h" and e: "poll_step P srv h h'"
  from e inv show "poll_inv h'" by cases auto
next
  fix h h' :: "'a host"
  assume "poll_inv h" "stop_step h h'"
  then show "poll_inv h'" by (auto elim!: stop_stepE split: pc.splits)
next
  fix h h' :: "'a host"
  assume "poll_step P srv h h'"
  then show "h_pipe h' = h_pipe h" by cases simp_all
next
  fix h h' :: "'a host"
  assume inv: "poll_inv h" "h_pipe h" and e: "poll_step P srv h h'"
  from e inv show "length (h_log h') + poll_due h' \<le> length (h_log h) + poll_due h"
    by cases (auto simp: accepts_def reports_def)
next
  fix h h' :: "'a host"
  assume "stop_step h h'"
  then show "poll_due h' \<le> poll_due h" by (auto elim!: stop_stepE split: pc.splits)
next
  fix h h' :: "'a host"
  assume inv: "poll_inv h" "h_pipe h" and e: "poll_step P srv h h'"
  from e inv show "poll_rank h' < poll_rank h" by cases (auto simp: reports_def)
next
  fix h h' :: "'a host"
  assume "stop_step h h'"
  then show "poll_rank h' \<le> poll_rank h" by (auto elim!: stop_stepE split: pc.splits)
next
  fix h :: "'a host"
  assume "poll_inv h"
  then show "(\<exists>h'. poll_step P srv h h') \<or> (\<exists>rc. h_pc h = Finished rc)" by (rule poll_progress)
qed

subsection \<open>Either loop\<close>

definition watches_pipe :: "event_api \<Rightarrow> bool" where
  "watches_pipe api \<longleftrightarrow> (case api of Epoll watched \<Rightarrow> Pipe \<in> watched | Poll \<Rightarrow> True)"

definition host_inv :: "event_api \<Rightarrow> 'u host \<Rightarrow> bool" where
  "host_inv api = (case api of Epoll watched \<Rightarrow> epoll_inv | Poll \<Rightarrow> poll_inv)"

text \<open>Clients that may still be accepted once the stop call is over, whatever the thread was
  doing: two with \<^verbatim>\<open>epoll\<close> (one of a batch reported before the pipe was readable, one of the
  next batch), one with \<^verbatim>\<open>poll\<close>.\<close>

definition stragglers :: "event_api \<Rightarrow> nat" where
  "stragglers api = (case api of Epoll watched \<Rightarrow> 2 | Poll \<Rightarrow> 1)"

lemma host_step_simps:
  "host_step (Epoll watched) P srv = with_stops (epoll_step P srv watched)"
  "host_step Poll P srv = with_stops (poll_step P srv)"
  by (simp_all add: host_step_def)

lemma host_inv_created [simp]: "host_inv api (created w)"
  by (simp add: host_inv_def created_def split: event_api.splits)

lemma host_in_order:
  assumes "host_steps api P srv h h'" and "h_log h = []"
  shows "\<exists>cs. serve_all P srv (h_world h) cs = (h_log h', h_world h') \<and>
    list_all (\<lambda>c. fresh_sock (fst c)) cs \<and> uncut (butlast cs)"
proof (cases api)
  case (Epoll watched)
  from epoll_loop.in_order [OF assms(1) [unfolded this host_step_simps] assms(2)] show ?thesis by blast
next
  case Poll
  from poll_loop.in_order [OF assms(1) [unfolded this host_step_simps] assms(2)] show ?thesis by blast
qed

lemma host_few_clients:
  assumes "watches_pipe api" and "host_inv api h" and "h_pipe h" and "host_steps api P srv h h'"
  shows "length (h_log h') \<le> length (h_log h) + stragglers api"
proof (cases api)
  case (Epoll watched)
  then have w: "insert Pipe watched = watched" using assms(1) by (auto simp: watches_pipe_def)
  have "epoll_due h \<le> 2"
    by (rule epoll_due_two) (use assms(2) in \<open>simp add: Epoll host_inv_def\<close>)
  with epoll_prompt.few_clients [where watched = watched, unfolded w,
      OF assms(4) [unfolded Epoll host_step_simps]] assms(2,3)
  show ?thesis by (simp add: Epoll host_inv_def stragglers_def)
next
  case Poll
  have "poll_due h \<le> 1" by (simp split: pc.splits)
  with poll_prompt.few_clients [OF assms(4) [unfolded Poll host_step_simps]] assms(2,3)
  show ?thesis by (simp add: Poll host_inv_def stragglers_def)
qed

text \<open>After a stop the thread returns: it cannot be stuck, and it cannot go on for more than 25
  steps, however often it is stopped again.\<close>

lemma host_returns:
  assumes "watches_pipe api" and "host_inv api h" and "h_pipe h"
  shows "\<exists>h' rc. (loop_step api P srv)\<^sup>*\<^sup>* h h' \<and> h_pc h' = Finished rc"
    and "(turn (loop_step api P srv) ^^ n) h h' \<Longrightarrow> n \<le> 25"
proof -
  show "\<exists>h' rc. (loop_step api P srv)\<^sup>*\<^sup>* h h' \<and> h_pc h' = Finished rc"
  proof (cases api)
    case (Epoll watched)
    then have w: "insert Pipe watched = watched" using assms(1) by (auto simp: watches_pipe_def)
    from epoll_prompt.returns [where watched = watched and P = P and srv = srv, unfolded w] assms(2,3) show ?thesis
      unfolding Epoll loop_step.simps host_inv_def by simp
  next
    case Poll
    from poll_prompt.returns [of h P srv] assms(2,3) show ?thesis
      unfolding Poll loop_step.simps host_inv_def by simp
  qed
  assume t: "(turn (loop_step api P srv) ^^ n) h h'"
  show "n \<le> 25"
  proof (cases api)
    case (Epoll watched)
    then have w: "insert Pipe watched = watched" using assms(1) by (auto simp: watches_pipe_def)
    have "epoll_rank h \<le> 25"
      using assms(2) distinct_ready by (fastforce simp: Epoll host_inv_def split: pc.splits)
    moreover have "n + epoll_rank h' \<le> epoll_rank h"
      by (rule epoll_prompt.few_turns [where watched = watched and P = P and srv = srv, unfolded w])
         (use t assms(2,3) in \<open>simp_all add: Epoll host_inv_def\<close>)
    ultimately show ?thesis by linarith
  next
    case Poll
    have "poll_rank h \<le> 25" by (simp split: pc.splits)
    moreover have "n + poll_rank h' \<le> poll_rank h"
      by (rule poll_prompt.few_turns [where P = P and srv = srv])
         (use t assms(2,3) in \<open>simp_all add: Poll host_inv_def\<close>)
    ultimately show ?thesis by linarith
  qed
qed

text \<open>How it returns: \<^verbatim>\<open>WYOMING_OK\<close> whatever ended the loop, the error only when \<^verbatim>\<open>epoll_create1\<close>
  failed; the epoll descriptor is closed.\<close>

lemma host_inv_steps:
  assumes "host_steps api P srv h h'" and "host_inv api h"
  shows "host_inv api h'"
  using assms
proof (induction rule: rtranclp_induct)
  case (step h1 h2)
  then have i: "host_inv api h1" by simp
  show ?case
  proof (cases api)
    case (Epoll watched)
    with i step.hyps(2) epoll_inv_kept epoll_prompt.inv_stop show ?thesis
      by (auto simp: host_inv_def host_step_def with_stops_def)
  next
    case Poll
    with i step.hyps(2) poll_prompt.inv_step show ?thesis
      by (auto simp: host_inv_def host_step_def)
  qed
qed simp

text \<open>What the clients get: the handler's guarantees (theory \<open>Wy_Safety\<close>), for every
  connection the loop ever served.\<close>

definition session_clean :: "platform \<Rightarrow> 'u session \<Rightarrow> bool" where
  "session_clean P s \<longleftrightarrow>
     (\<exists>es. list_all (sendable P) es \<and> session_tx s = frames P es) \<and>
     iobuf_ok (s_io s) \<and> s_rcvtimeo s = 30 \<and> s_live s \<in> {0, 1}"

lemma served_clean:
  assumes "engines_ok P srv" and "host_ok P srv" and "writable fd" and "fresh_sock fd"
  shows "session_clean P (served P srv fd stop w)"
proof -
  let ?s = "start_session fd w stop"
  have s: "session_writable ?s" "session_tx ?s = []" "iobuf_ok (s_io ?s)" "s_rcvtimeo ?s = 30" "s_live ?s = 0"
    using assms(3,4)
    by (simp_all add: start_session_def session_writable_def session_tx_def iobuf_init_def iobuf_ok_def
        fresh_sock_def)
  have "stream_closes srv" using assms(1) by (simp add: stream_closes_def engines_ok_def)
  from handle_client_serves [OF this, of P ?s] speaks_writable [OF handle_client_speaks [OF assms(1,2)] s(1)]
  show ?thesis using s unfolding serves_def session_clean_def served_def by (metis add_0 append_Nil insertCI insertE singletonD)
qed

lemma serve_all_clean:
  "serve_all P srv w cs = (ss, w') \<Longrightarrow> engines_ok P srv \<Longrightarrow> host_ok P srv \<Longrightarrow>
     list_all (\<lambda>c. fresh_sock (fst c)) cs \<Longrightarrow>
     list_all2 (\<lambda>c s. writable (fst c) \<longrightarrow> session_clean P s) cs ss"
  by (induction P srv w cs arbitrary: ss w' rule: serve_all.induct)
     (auto simp: Let_def served_clean split: prod.splits)

text \<open>A run that begins with the pipe readable already: the stop came before it, or the run
  before it was stopped, since nothing ever empties the pipe.\<close>

definition late_clients :: "event_api \<Rightarrow> nat" where
  "late_clients api = (case api of Epoll watched \<Rightarrow> 1 | Poll \<Rightarrow> 0)"

lemma host_stopped_start:
  assumes "watches_pipe api" and "h_pc h = Start" and "\<not> h_epoll h" and "h_pipe h"
    and "host_steps api P srv h h'"
  shows "length (h_log h') \<le> length (h_log h) + late_clients api"
proof (cases api)
  case (Epoll watched)
  then have w: "insert Pipe watched = watched" using assms(1) by (auto simp: watches_pipe_def)
  from epoll_prompt.few_clients [where watched = watched, unfolded w,
      OF assms(5) [unfolded Epoll host_step_simps]] assms(2-4)
  show ?thesis by (simp add: Epoll late_clients_def)
next
  case Poll
  from poll_prompt.few_clients [OF assms(5) [unfolded Poll host_step_simps]] assms(2-4)
  show ?thesis by (simp add: Poll late_clients_def)
qed

text \<open>How a run ends: \<^verbatim>\<open>WYOMING_OK\<close> whatever ended the loop, an error only when
  \<^verbatim>\<open>epoll_create1\<close> failed, before any client.\<close>

definition ends_well :: "'u host \<Rightarrow> bool" where
  "ends_well h \<longleftrightarrow>
     (case h_pc h of
        Start \<Rightarrow> h_log h = []
      | Finished rc \<Rightarrow> rc = WYOMING_OK \<or> rc = WYOMING_ERR_IO \<and> h_log h = []
      | _ \<Rightarrow> True)"

lemma ends_well_step: "host_step api P srv h h' \<Longrightarrow> ends_well h \<Longrightarrow> ends_well h'"
  by (cases api)
     (auto simp: ends_well_def host_step_simps with_stops_def elim!: epoll_stepE poll_stepE stop_stepE
      split: pc.splits)

lemma ends_well_steps: "host_steps api P srv h h' \<Longrightarrow> ends_well h \<Longrightarrow> ends_well h'"
  by (induction rule: rtranclp_induct) (auto intro: ends_well_step)

text \<open>The example that attains the bound: the call waited before the pipe became readable and
  reported a client; the next one reports the pipe, but behind another client.\<close>

definition raced :: "'u \<Rightarrow> 'u host" where
  "raced w = (created w)\<lparr>h_pc := Handle Listen [], h_running := True, h_pipe := True, h_epoll := True\<rparr>"

lemma raced_reached: "host_steps (Epoll {Listen, Pipe}) P srv (created w) (raced w)"
proof -
  let ?E = "epoll_step P srv {Listen, Pipe}"
  let ?h1 = "(created w)\<lparr>h_stops := 1\<rparr>"
  let ?h2 = "?h1\<lparr>h_epoll := True, h_running := True, h_pc := Check\<rparr>"
  have 1: "stop_step (created w) ?h1" using stop_step.clear [of "created w"] by (simp add: created_def)
  have 2: "?E ?h1 ?h2" by (rule epoll_step.set_up) (simp add: created_def)
  have 3: "?E ?h2 (?h2\<lparr>h_pc := Wait\<rparr>)" by (rule epoll_step.again) simp_all
  have 4: "?E (?h2\<lparr>h_pc := Wait\<rparr>) (?h2\<lparr>h_pc := Dispatch [Listen]\<rparr>)"
    using epoll_step.events [of "?h2\<lparr>h_pc := Wait\<rparr>" "{Listen, Pipe}" "[Listen]" P srv]
    by (simp add: reports_def created_def)
  have 5: "?E (?h2\<lparr>h_pc := Dispatch [Listen]\<rparr>) (?h2\<lparr>h_pc := Handle Listen []\<rparr>)"
    using epoll_step.take_event [of "?h2\<lparr>h_pc := Dispatch [Listen]\<rparr>" Listen "[]" P srv "{Listen, Pipe}"] by simp
  have 6: "stop_step (?h2\<lparr>h_pc := Handle Listen []\<rparr>) (raced w)"
    using stop_step.wake [of "?h2\<lparr>h_pc := Handle Listen []\<rparr>" 0] by (simp add: raced_def created_def)
  note steps = 1 2 3 4 5 6
  then show ?thesis
    by (intro converse_rtranclp_into_rtranclp [OF _ converse_rtranclp_into_rtranclp
          [OF _ converse_rtranclp_into_rtranclp [OF _ converse_rtranclp_into_rtranclp
            [OF _ converse_rtranclp_into_rtranclp [OF _ r_into_rtranclp]]]]])
       (auto simp: host_step_simps with_stops_def)
qed

lemma raced_serves_two:
  assumes "fresh_sock fd"
  shows "\<exists>h'. host_steps (Epoll {Listen, Pipe}) P srv (raced w) h' \<and> length (h_log h') = 2"
proof -
  let ?E = "epoll_step P srv {Listen, Pipe}"
  let ?h1 = "(serve_client P srv fd None (raced w))\<lparr>h_pc := Dispatch []\<rparr>"
  let ?h2 = "?h1\<lparr>h_pc := Handle Listen [Pipe]\<rparr>"
  let ?h3 = "(serve_client P srv fd None ?h2)\<lparr>h_pc := Dispatch [Pipe]\<rparr>"
  have 1: "?E (raced w) ?h1"
    by (rule epoll_step.client) (simp_all add: raced_def assms stops_at_def)
  have 2: "?E ?h1 (?h1\<lparr>h_pc := Check\<rparr>)" by (rule epoll_step.no_more) simp
  have 3: "?E (?h1\<lparr>h_pc := Check\<rparr>) (?h1\<lparr>h_pc := Wait\<rparr>)"
    using epoll_step.again [of "?h1\<lparr>h_pc := Check\<rparr>" P srv "{Listen, Pipe}"] by (simp add: raced_def)
  have 4: "?E (?h1\<lparr>h_pc := Wait\<rparr>) (?h1\<lparr>h_pc := Dispatch [Listen, Pipe]\<rparr>)"
    using epoll_step.events [of "?h1\<lparr>h_pc := Wait\<rparr>" "{Listen, Pipe}" "[Listen, Pipe]" P srv]
    by (simp add: reports_def raced_def)
  have 5: "?E (?h1\<lparr>h_pc := Dispatch [Listen, Pipe]\<rparr>) ?h2"
    using epoll_step.take_event [of "?h1\<lparr>h_pc := Dispatch [Listen, Pipe]\<rparr>" Listen "[Pipe]" P srv "{Listen, Pipe}"]
    by (simp add: raced_def)
  have 6: "?E ?h2 ?h3"
    by (rule epoll_step.client) (simp_all add: raced_def assms stops_at_def)
  have "host_steps (Epoll {Listen, Pipe}) P srv (raced w) ?h3"
    by (intro converse_rtranclp_into_rtranclp [OF _ converse_rtranclp_into_rtranclp
          [OF _ converse_rtranclp_into_rtranclp [OF _ converse_rtranclp_into_rtranclp
            [OF _ converse_rtranclp_into_rtranclp [OF _ r_into_rtranclp]]]]])
       (use 1 2 3 4 5 6 in \<open>auto simp: host_step_simps with_stops_def\<close>)
  moreover have "length (h_log ?h3) = 2"
    by (simp add: raced_def created_def)
  ultimately show ?thesis by blast
qed

end
