(* ===== verification/Wy_Config.thy ===== *)
theory Wy_Config
  imports C_Number
begin

text \<open>
  The configuration file of the server: \<^verbatim>\<open>src/wyoming_config.c\<close>. A file is the list of its
  bytes; lines are read with \<^verbatim>\<open>fgets\<close> into 1024 bytes and then used as C strings.
\<close>

abbreviation WY_CFG_MAX_ENTRIES :: nat where "WY_CFG_MAX_ENTRIES \<equiv> 128"
abbreviation WY_CFG_MAX_SECTION :: nat where "WY_CFG_MAX_SECTION \<equiv> 64"
abbreviation WY_CFG_MAX_KEY :: nat where "WY_CFG_MAX_KEY \<equiv> 64"
abbreviation WY_CFG_MAX_VALUE :: nat where "WY_CFG_MAX_VALUE \<equiv> 512"

record wy_cfg_entry =
  cfg_section :: string
  cfg_key :: string
  cfg_value :: string

text \<open>\<^verbatim>\<open>wyoming_config_t\<close>: the count is the length.\<close>

type_synonym wyoming_config = "wy_cfg_entry list"

subsection \<open>Text\<close>

definition isspace :: "char \<Rightarrow> bool" where
  "isspace c \<longleftrightarrow> c = CHR '' '' \<or> 9 \<le> code c \<and> code c \<le> 13"

text \<open>\<^verbatim>\<open>trim\<close>; the trailing loop stops at the first character, which is no space.\<close>

definition trim_end :: "string \<Rightarrow> string" where
  "trim_end s = rev (dropWhile isspace (rev s))"

definition trim :: "string \<Rightarrow> string" where
  "trim s = trim_end (dropWhile isspace s)"

text \<open>\<^verbatim>\<open>strchr\<close>: what is before the character and what is behind it.\<close>

definition strchr :: "char \<Rightarrow> string \<Rightarrow> (string \<times> string) option" where
  "strchr c s =
     (if c \<in> set s then Some (takeWhile (\<lambda>x. x \<noteq> c) s, tl (dropWhile (\<lambda>x. x \<noteq> c) s)) else None)"

text \<open>\<^verbatim>\<open>snprintf(buf, n, "%s", s)\<close>.\<close>

definition snprintf_s :: "nat \<Rightarrow> string \<Rightarrow> string" where
  "snprintf_s n s = take (n - 1) s"

text \<open>One call of \<^verbatim>\<open>fgets\<close>: at most \<open>n - 1\<close> bytes, up to and with a newline.\<close>

definition fgets :: "nat \<Rightarrow> byte list \<Rightarrow> byte list \<times> byte list" where
  "fgets n s =
     (let w = take (n - 1) s;
          k = (if NL \<in> set w then Suc (length (takeWhile (\<lambda>c. c \<noteq> NL) w)) else length w)
      in (take k s, drop k s))"

subsection \<open>Loading\<close>

text \<open>
  The value without its inline comment: cut at the first \<^verbatim>\<open>;\<close> or \<^verbatim>\<open>#\<close>, then spaces at
  the end removed down to the first character.
\<close>

definition strip_comment :: "string \<Rightarrow> string" where
  "strip_comment val =
     (if take 1 val \<noteq> [CHR 0x22] \<and> (\<exists>c\<in>set val. c = CHR '';'' \<or> c = CHR ''#'')
      then (let v = takeWhile (\<lambda>c. c \<noteq> CHR '';'' \<and> c \<noteq> CHR ''#'') val
            in take 1 v @ trim_end (drop 1 v))
      else val)"

text \<open>One line: the current section and the entries so far.\<close>

definition config_line :: "string \<times> wyoming_config \<Rightarrow> byte list \<Rightarrow> string \<times> wyoming_config" where
  "config_line st line =
     (case st of (section, entries) \<Rightarrow>
        let s = trim (cstr line)
        in if s = [] \<or> hd s = CHR '';'' \<or> hd s = CHR ''#'' then (section, entries)
           else if hd s = CHR ''[''
           then (case strchr (CHR '']'') s of
                   None \<Rightarrow> (section, entries)
                 | Some (before, _) \<Rightarrow> (snprintf_s WY_CFG_MAX_SECTION (drop 1 before), entries))
           else (case strchr (CHR ''='') s of
                   None \<Rightarrow> (section, entries)
                 | Some (before, after) \<Rightarrow>
                     let key = trim before;
                         val = strip_comment (trim after)
                     in if WY_CFG_MAX_ENTRIES \<le> length entries then (section, entries)
                        else (section,
                              entries @ [\<lparr>cfg_section = snprintf_s WY_CFG_MAX_SECTION section,
                                          cfg_key = snprintf_s WY_CFG_MAX_KEY key,
                                          cfg_value = snprintf_s WY_CFG_MAX_VALUE val\<rparr>])))"

function config_lines :: "string \<times> wyoming_config \<Rightarrow> byte list \<Rightarrow> string \<times> wyoming_config" where
  "config_lines st content =
     (if content = [] then st
      else (case fgets 1024 content of (line, rest) \<Rightarrow> config_lines (config_line st line) rest))"
  by pat_completeness auto
termination
  by (relation "measure (\<lambda>(st, content). length content)")
    (auto simp: fgets_def Let_def split: if_splits)

declare config_lines.simps [simp del]

text \<open>\<^verbatim>\<open>wyoming_config_load\<close>, given what \<^verbatim>\<open>fopen\<close> found and whether \<^verbatim>\<open>calloc\<close> succeeds.\<close>

definition wyoming_config_load :: "bool \<Rightarrow> byte list option \<Rightarrow> wyoming_config option" where
  "wyoming_config_load calloc_ok content =
     (case content of
        None \<Rightarrow> None
      | Some f \<Rightarrow> if calloc_ok then Some (snd (config_lines (''general'', []) f)) else None)"

subsection \<open>Reading\<close>

fun config_find :: "wyoming_config \<Rightarrow> string \<Rightarrow> string \<Rightarrow> string option" where
  "config_find [] section key = None"
| "config_find (e # es) section key =
     (if cfg_section e = section \<and> cfg_key e = key then Some (cfg_value e)
      else config_find es section key)"

definition wyoming_config_get ::
  "wyoming_config option \<Rightarrow> string option \<Rightarrow> string option \<Rightarrow> string option" where
  "wyoming_config_get cfg section key =
     (case (cfg, section, key) of
        (Some c, Some s, Some k) \<Rightarrow> config_find c s k
      | _ \<Rightarrow> None)"

text \<open>\<^verbatim>\<open>atoi\<close>: leading spaces, a sign, digits. Outside the range of \<^verbatim>\<open>int\<close> its result is the
  platform's (\<open>over\<close>).\<close>

definition atoi :: "(int \<Rightarrow> int) \<Rightarrow> string \<Rightarrow> int" where
  "atoi over s =
     (case take_sign (dropWhile isspace s) of
        (neg, t) \<Rightarrow>
          (let n = digits_val (takeWhile isdigit t);
               i = (if neg then - n else n)
           in if INT_MIN \<le> i \<and> i \<le> INT_MAX then i else over i))"

definition wyoming_config_get_int ::
  "(int \<Rightarrow> int) \<Rightarrow> wyoming_config option \<Rightarrow> string option \<Rightarrow> string option \<Rightarrow> int \<Rightarrow> int" where
  "wyoming_config_get_int over cfg section key def =
     (case wyoming_config_get cfg section key of None \<Rightarrow> def | Some v \<Rightarrow> atoi over v)"

definition wyoming_config_get_bool ::
  "wyoming_config option \<Rightarrow> string option \<Rightarrow> string option \<Rightarrow> int \<Rightarrow> int" where
  "wyoming_config_get_bool cfg section key def =
     (case wyoming_config_get cfg section key of
        None \<Rightarrow> def
      | Some v \<Rightarrow> if v \<in> {''on'', ''yes'', ''true'', ''1''} then 1 else 0)"

subsection \<open>Bounds\<close>

definition entry_ok :: "wy_cfg_entry \<Rightarrow> bool" where
  "entry_ok e \<longleftrightarrow> length (cfg_section e) < WY_CFG_MAX_SECTION \<and> length (cfg_key e) < WY_CFG_MAX_KEY \<and>
     length (cfg_value e) < WY_CFG_MAX_VALUE"

definition config_ok :: "wyoming_config \<Rightarrow> bool" where
  "config_ok c \<longleftrightarrow> length c \<le> WY_CFG_MAX_ENTRIES \<and> list_all entry_ok c"

lemma config_line_ok: "config_ok (snd st) \<Longrightarrow> config_ok (snd (config_line st line))"
  by (auto simp: config_line_def config_ok_def entry_ok_def snprintf_s_def Let_def
      split: prod.splits option.splits)

lemma config_lines_ok: "config_ok (snd st) \<Longrightarrow> config_ok (snd (config_lines st content))"
proof (induction st content rule: config_lines.induct)
  case (1 st content)
  then show ?case
    using config_line_ok [OF "1.prems"] by (subst config_lines.simps) (simp split: prod.split)
qed

lemma config_load_ok: "wyoming_config_load ok content = Some c \<Longrightarrow> config_ok c"
  using config_lines_ok [of "(''general'', [])"]
  by (auto simp: wyoming_config_load_def config_ok_def split: option.splits if_splits)

text \<open>Looking up is looking up the first entry of that section and key.\<close>

lemma config_find_map:
  "config_find c s k = map_of (map (\<lambda>e. ((cfg_section e, cfg_key e), cfg_value e)) c) (s, k)"
  by (induction c) auto

subsection \<open>Lines\<close>

lemma fgets_line:
  assumes "NL \<notin> set l" and "length l < n - 1"
  shows "fgets n (l @ NL # rest) = (l @ [NL], rest)"
proof -
  obtain m where m: "n - 1 - length l = Suc m" using assms(2) by (cases "n - 1 - length l") auto
  then have w: "take (n - 1) (l @ NL # rest) = l @ NL # take m rest" using assms(2) by simp
  moreover have "takeWhile (\<lambda>c. c \<noteq> NL) (l @ NL # take m rest) = l"
    by (rule takeWhile_append_stop) (use assms(1) in auto)
  ultimately show ?thesis by (simp add: fgets_def Let_def)
qed

lemma config_lines_Cons:
  assumes "NL \<notin> set l" and "length l < 1023"
  shows "config_lines st (l @ NL # rest) = config_lines (config_line st (l @ [NL])) rest"
  using fgets_line [OF assms(1), of 1024 rest] assms(2) by (subst config_lines.simps) simp

lemma isspace_NL [simp]: "isspace NL" "isspace (CHR '' '')"
  by (simp_all add: isspace_def)

text \<open>A trimmed word.\<close>

definition plain :: "string \<Rightarrow> bool" where
  "plain s \<longleftrightarrow> s \<noteq> [] \<and> \<not> isspace (hd s) \<and> \<not> isspace (last s) \<and> c_string s \<and> NL \<notin> set s"

lemma dropWhile_spaces: "\<forall>c\<in>set u. isspace c \<Longrightarrow> s \<noteq> [] \<Longrightarrow> \<not> isspace (hd s) \<Longrightarrow> dropWhile isspace (u @ s) = s"
  by (rule takeWhile_append_stop(2)) auto

lemma trim_spaced:
  assumes "s \<noteq> []" and "\<not> isspace (hd s)" and "\<not> isspace (last s)"
    and "\<forall>c\<in>set u. isspace c" and "\<forall>c\<in>set v. isspace c"
  shows "trim (u @ s @ v) = s"
proof -
  have "dropWhile isspace (u @ s @ v) = s @ v"
    by (rule dropWhile_spaces) (use assms in simp_all)
  moreover have "dropWhile isspace (rev v @ rev s) = rev s"
    by (rule dropWhile_spaces) (use assms in \<open>simp_all add: hd_rev\<close>)
  ultimately show ?thesis by (simp add: trim_def trim_end_def)
qed

lemma strchr_found:
  assumes "c \<notin> set a"
  shows "strchr c (a @ c # b) = Some (a, b)"
proof -
  have "takeWhile (\<lambda>x. x \<noteq> c) (a @ c # b) = a" "dropWhile (\<lambda>x. x \<noteq> c) (a @ c # b) = c # b"
    by (rule takeWhile_append_stop; use assms in auto)+
  then show ?thesis by (simp add: strchr_def)
qed

subsection \<open>A file with the given entries\<close>

definition entry_text :: "wy_cfg_entry \<Rightarrow> byte list" where
  "entry_text e =
     (CHR ''['' # cfg_section e @ '']'') @ NL #
     (cfg_key e @ '' = '' @ cfg_value e) @ NL # []"

definition config_text :: "wyoming_config \<Rightarrow> byte list" where
  "config_text es = concat (map entry_text es)"

text \<open>Entries that the format can express.\<close>

definition writable_entry :: "wy_cfg_entry \<Rightarrow> bool" where
  "writable_entry e \<longleftrightarrow> entry_ok e \<and>
     c_string (cfg_section e) \<and> NL \<notin> set (cfg_section e) \<and> CHR '']'' \<notin> set (cfg_section e) \<and>
     plain (cfg_key e) \<and> CHR ''='' \<notin> set (cfg_key e) \<and> hd (cfg_key e) \<notin> {CHR ''['', CHR '';'', CHR ''#''} \<and>
     plain (cfg_value e) \<and>
     (hd (cfg_value e) = CHR 0x22 \<or> CHR '';'' \<notin> set (cfg_value e) \<and> CHR ''#'' \<notin> set (cfg_value e))"

lemma config_section_line:
  assumes "c_string s" and "CHR '']'' \<notin> set s" and "length s < WY_CFG_MAX_SECTION"
  shows "config_line (cur, es) ((CHR ''['' # s @ '']'') @ [NL]) = (s, es)"
proof -
  have "trim ([] @ (CHR ''['' # s @ '']'') @ [NL]) = CHR ''['' # s @ '']''"
    by (rule trim_spaced) (simp_all add: isspace_def)
  moreover have "strchr (CHR '']'') ((CHR ''['' # s) @ CHR '']'' # []) = Some (CHR ''['' # s, [])"
    by (rule strchr_found) (use assms(2) in simp)
  ultimately show ?thesis
    using assms by (simp add: config_line_def snprintf_s_def Let_def)
qed

lemma strip_comment_plain:
  "hd v = CHR 0x22 \<or> CHR '';'' \<notin> set v \<and> CHR ''#'' \<notin> set v \<Longrightarrow> v \<noteq> [] \<Longrightarrow> strip_comment v = v"
  by (cases v) (auto simp: strip_comment_def)

lemma config_key_line:
  assumes "writable_entry e" and "length es < WY_CFG_MAX_ENTRIES"
  shows "config_line (cfg_section e, es) ((cfg_key e @ '' = '' @ cfg_value e) @ [NL]) =
     (cfg_section e, es @ [e])"
proof -
  let ?k = "cfg_key e" and ?v = "cfg_value e"
  have k: "?k \<noteq> []" "\<not> isspace (hd ?k)" "\<not> isspace (last ?k)" "c_string ?k" "CHR ''='' \<notin> set ?k"
    "hd ?k \<notin> {CHR ''['', CHR '';'', CHR ''#''}" "length ?k < 64"
    and v: "?v \<noteq> []" "\<not> isspace (hd ?v)" "\<not> isspace (last ?v)" "c_string ?v" "strip_comment ?v = ?v"
    "length ?v < 512"
    and s: "length (cfg_section e) < 64"
    using assms(1) strip_comment_plain [of ?v] by (auto simp: writable_entry_def plain_def entry_ok_def)
  have whole: "trim ([] @ (?k @ '' = '' @ ?v) @ [NL]) = ?k @ '' = '' @ ?v"
    by (rule trim_spaced) (use k v in simp_all)
  have eq: "strchr (CHR ''='') ((?k @ '' '') @ CHR ''='' # '' '' @ ?v) = Some (?k @ '' '', '' '' @ ?v)"
    by (rule strchr_found) (use k(5) in simp)
  have key: "trim ([] @ ?k @ '' '') = ?k" by (rule trim_spaced) (use k in simp_all)
  have val: "trim ('' '' @ ?v @ []) = ?v" by (rule trim_spaced) (use v in simp_all)
  show ?thesis
    using whole eq key val k v s assms(2)
    by (simp add: config_line_def snprintf_s_def Let_def)
qed

lemma config_lines_entry:
  assumes "writable_entry e" and "length es < WY_CFG_MAX_ENTRIES"
  shows "config_lines (cur, es) (entry_text e @ rest) = config_lines (cfg_section e, es @ [e]) rest"
proof -
  have s: "c_string (cfg_section e)" "NL \<notin> set (cfg_section e)" "CHR '']'' \<notin> set (cfg_section e)"
    "length (cfg_section e) < 64" "NL \<notin> set (cfg_key e)" "NL \<notin> set (cfg_value e)"
    "length (cfg_key e) < 64" "length (cfg_value e) < 512"
    using assms(1) by (auto simp: writable_entry_def entry_ok_def plain_def)
  have "config_lines (cur, es) (entry_text e @ rest) =
      config_lines (cfg_section e, es) ((cfg_key e @ '' = '' @ cfg_value e) @ NL # rest)"
    using config_lines_Cons [of "CHR ''['' # cfg_section e @ '']''"] s
      config_section_line [OF s(1,3,4)]
    by (simp add: entry_text_def)
  also have "\<dots> = config_lines (cfg_section e, es @ [e]) rest"
    using config_lines_Cons [of "cfg_key e @ '' = '' @ cfg_value e"] s config_key_line [OF assms]
    by simp
  finally show ?thesis .
qed

lemma config_lines_text:
  "list_all writable_entry es \<Longrightarrow> length acc + length es \<le> WY_CFG_MAX_ENTRIES \<Longrightarrow>
     snd (config_lines (cur, acc) (config_text es)) = acc @ es"
proof (induction es arbitrary: cur acc)
  case Nil
  show ?case by (simp add: config_text_def config_lines.simps [of _ "[]"])
next
  case (Cons e es)
  then have "snd (config_lines (cur, acc) (config_text (e # es))) =
      snd (config_lines (cfg_section e, acc @ [e]) (config_text es))"
    using config_lines_entry [of e acc cur "config_text es"] by (simp add: config_text_def)
  with Cons show ?case by simp
qed

lemma config_load_text:
  "list_all writable_entry es \<Longrightarrow> length es \<le> WY_CFG_MAX_ENTRIES \<Longrightarrow>
     wyoming_config_load True (Some (config_text es)) = Some es"
  using config_lines_text [of es "[]"] by (simp add: wyoming_config_load_def)


text \<open>A line of 1023 bytes or more is cut: what follows the first 1023 bytes counts as a line of
  its own.\<close>

lemma config_long_line:
  assumes "length l = 1023" and "NL \<notin> set l"
  shows "config_lines st (l @ rest) = config_lines (config_line st l) rest"
proof -
  have "fgets 1024 (l @ rest) = (l, rest)"
    using assms by (simp add: fgets_def Let_def)
  moreover have "l \<noteq> []" using assms(1) by auto
  ultimately show ?thesis by (subst config_lines.simps) simp
qed

lemma config_line_comment:
  "cstr l = c # s \<Longrightarrow> c = CHR '';'' \<or> c = CHR ''#'' \<Longrightarrow> config_line st l = st"
proof -
  assume l: "cstr l = c # s" and c: "c = CHR '';'' \<or> c = CHR ''#''"
  then have "dropWhile isspace (cstr l) = c # s" by (auto simp: isspace_def)
  moreover have "trim_end (c # s) = c # trim_end s"
    using c by (induction s rule: rev_induct) (auto simp: trim_end_def isspace_def dropWhile_append)
  ultimately show ?thesis using c by (cases st) (auto simp: config_line_def trim_def Let_def)
qed

end
