(* ===== verification/C_Path.thy ===== *)
theory C_Path
  imports Wy_Config Cjson_Tree
begin

text \<open>
  How the programs get names out of paths and files: \<^verbatim>\<open>extract_stem\<close> of
  \<^verbatim>\<open>src/piper.c\<close>, \<^verbatim>\<open>path_basename\<close> of \<^verbatim>\<open>src/sherpa.c\<close>, and
  \<^verbatim>\<open>extract_voice_name\<close>, \<^verbatim>\<open>extract_language\<close> and \<^verbatim>\<open>parse_sample_rate\<close> of
  \<^verbatim>\<open>tools/wyoming-server.c\<close>.
\<close>

subsection \<open>The C library\<close>

text \<open>\<^verbatim>\<open>strrchr(s, c)\<close> as what is before and behind the last \<open>c\<close>.\<close>

definition strrchr :: "char \<Rightarrow> string \<Rightarrow> (string \<times> string) option" where
  "strrchr c s =
     (case dropWhile (\<lambda>x. x \<noteq> c) (rev s) of
        [] \<Rightarrow> None
      | _ # r \<Rightarrow> Some (rev r, rev (takeWhile (\<lambda>x. x \<noteq> c) (rev s))))"

text \<open>\<^verbatim>\<open>strstr(s, p)\<close> as what is before the first \<open>p\<close> and what begins with it.\<close>

fun strstr :: "string \<Rightarrow> string \<Rightarrow> (string \<times> string) option" where
  "strstr p [] = (if p = [] then Some ([], []) else None)"
| "strstr p (c # s) =
     (if take (length p) (c # s) = p then Some ([], c # s)
      else map_option (\<lambda>(a, b). (c # a, b)) (strstr p s))"

lemma strrchr_split [simp]:
  "c \<notin> set t \<Longrightarrow> strrchr c (s @ c # t) = Some (s, t)"
  by (simp add: strrchr_def takeWhile_append dropWhile_append)

lemma strrchr_none [simp]: "c \<notin> set s \<Longrightarrow> strrchr c s = None"
proof -
  assume "c \<notin> set s"
  then have "dropWhile (\<lambda>x. x \<noteq> c) (rev s) = []" by (auto simp: dropWhile_eq_Nil_conv)
  then show ?thesis by (simp only: strrchr_def list.case)
qed

lemma strstr_found: "strstr p s = Some (a, b) \<Longrightarrow> s = a @ b \<and> take (length p) b = p"
  by (induction p s arbitrary: a rule: strstr.induct) (auto split: if_splits)

subsection \<open>The voice of a model\<close>

abbreviation SLASH :: char where "SLASH \<equiv> CHR ''/''"

text \<open>\<^verbatim>\<open>src/piper.c\<close>: the directory the model is in, else the file name up to
  \<^verbatim>\<open>.onnx\<close>.\<close>

definition file_stem :: "platform \<Rightarrow> string \<Rightarrow> string option" where
  "file_stem P path =
     (let base = (case strrchr SLASH path of Some (_, b) \<Rightarrow> b | None \<Rightarrow> path);
          stem = (case strstr ''.onnx'' base of Some (a, _) \<Rightarrow> a | None \<Rightarrow> base)
      in if malloc_ok P (length stem + 1) then Some stem else None)"

definition extract_stem :: "platform \<Rightarrow> string \<Rightarrow> string option" where
  "extract_stem P path =
     (case strdup P path of
        None \<Rightarrow> file_stem P path
      | Some tmp \<Rightarrow>
          (case strrchr SLASH tmp of
             None \<Rightarrow> file_stem P path
           | Some (dir, _) \<Rightarrow>
               (case strrchr SLASH dir of
                  None \<Rightarrow> file_stem P path
                | Some (_, parent) \<Rightarrow> if parent \<noteq> [] then strdup P parent else file_stem P path)))"

text \<open>\<^verbatim>\<open>tools/wyoming-server.c\<close>: the same without the other case, and the language in
  front of the first hyphen.\<close>

definition extract_voice_name :: "platform \<Rightarrow> string \<Rightarrow> string option" where
  "extract_voice_name P path =
     (case strdup P path of
        None \<Rightarrow> None
      | Some p \<Rightarrow>
          (case strrchr SLASH p of
             None \<Rightarrow> None
           | Some (dir, _) \<Rightarrow>
               (case strrchr SLASH dir of None \<Rightarrow> None | Some (_, parent) \<Rightarrow> strdup P parent)))"

definition extract_language :: "platform \<Rightarrow> string \<Rightarrow> string option" where
  "extract_language P voice_name =
     (case strchr (CHR ''-'') voice_name of
        None \<Rightarrow> strdup P voice_name
      | Some (lang, _) \<Rightarrow> if malloc_ok P (length lang + 1) then Some lang else None)"

text \<open>A model in a directory of its own, behind at least one more slash.\<close>

definition model_path :: "string \<Rightarrow> string \<Rightarrow> string \<Rightarrow> string" where
  "model_path up dir name = up @ SLASH # dir @ SLASH # name"

lemma model_path_slashes:
  assumes "SLASH \<notin> set dir" and "SLASH \<notin> set name"
  shows "strrchr SLASH (model_path up dir name) = Some (up @ SLASH # dir, name)"
    and "strrchr SLASH (up @ SLASH # dir) = Some (up, dir)"
  using strrchr_split [of SLASH name "up @ SLASH # dir"] assms by (simp_all add: model_path_def)

lemma voice_of_model:
  assumes "SLASH \<notin> set dir" and "SLASH \<notin> set name" and "dir \<noteq> []"
    and "mem_ok P (length (model_path up dir name) + 1)"
  shows "extract_stem P (model_path up dir name) = Some dir"
    and "extract_voice_name P (model_path up dir name) = Some dir"
proof -
  have "malloc_ok P (length (model_path up dir name) + 1)" "malloc_ok P (length dir + 1)"
    using assms(4) by (simp_all add: mem_ok_def model_path_def)
  then show "extract_stem P (model_path up dir name) = Some dir"
    and "extract_voice_name P (model_path up dir name) = Some dir"
    using assms(1-3)
    by (simp_all add: extract_stem_def extract_voice_name_def strdup_def model_path_slashes)
qed

text \<open>With one slash only the two disagree.\<close>

lemma voice_of_shallow:
  assumes "SLASH \<notin> set dir" and "SLASH \<notin> set name"
  shows "extract_voice_name P (dir @ SLASH # name) = None"
    and "extract_stem P (dir @ SLASH # name) = file_stem P (dir @ SLASH # name)"
  using assms by (simp_all add: extract_stem_def extract_voice_name_def strdup_def)

lemma language_of_voice:
  assumes "CHR ''-'' \<notin> set lang" and "mem_ok P (length lang + 1)"
  shows "extract_language P (lang @ CHR ''-'' # rest) = Some lang"
    and "extract_language P lang = Some lang"
proof -
  have m: "malloc_ok P (length lang + 1)" using assms(2) by (simp add: mem_ok_def)
  show "extract_language P (lang @ CHR ''-'' # rest) = Some lang"
    using assms(1) m by (simp add: extract_language_def strchr_def takeWhile_append dropWhile_append)
  show "extract_language P lang = Some lang"
    using assms(1) m by (simp add: extract_language_def strchr_def strdup_def)
qed

subsection \<open>The base name\<close>

text \<open>\<^verbatim>\<open>src/sherpa.c\<close>. The length \<open>n\<close> without trailing slashes limits the search for a
  slash; what is returned reaches to the end of the path all the same.\<close>

fun trimmed_length :: "string \<Rightarrow> nat \<Rightarrow> nat" where
  "trimmed_length p 0 = 0"
| "trimmed_length p (Suc n) =
     (if 0 < n \<and> p ! n = SLASH then trimmed_length p n else Suc n)"

definition path_basename :: "string option \<Rightarrow> string" where
  "path_basename path =
     (case path of
        None \<Rightarrow> []
      | Some p \<Rightarrow>
          if p = [] then []
          else (let n = trimmed_length p (length p)
                in case strrchr SLASH (take n p) of
                     Some (dir, _) \<Rightarrow> drop (length dir + 1) p
                   | None \<Rightarrow> p))"

lemma trimmed_length_append:
  "s \<noteq> [] \<Longrightarrow> last s \<noteq> SLASH \<Longrightarrow> trimmed_length (s @ replicate k SLASH) (length s + k) = length s"
proof (induction k)
  case 0
  then obtain s' c where "s = s' @ [c]" by (cases s rule: rev_cases) auto
  with 0 show ?case by simp
next
  case (Suc k)
  have nth: "(s @ replicate (Suc k) SLASH) ! (length s + k) = SLASH"
    by (simp add: nth_append nth_Cons' )
  have eq: "trimmed_length (s @ replicate (Suc k) SLASH) n = trimmed_length (s @ replicate k SLASH) n"
    if "n \<le> length s + k" for n
    using that
    by (induction n) (auto simp: nth_append nth_Cons')
  show ?case
    using Suc nth eq [of "length s + k"] by (simp del: replicate_Suc)
qed

text \<open>A path that ends in slashes keeps them.\<close>

lemma basename_of:
  assumes "SLASH \<notin> set name" and "name \<noteq> []"
  shows "path_basename (Some (dir @ SLASH # name @ replicate k SLASH)) = name @ replicate k SLASH"
proof -
  have "trimmed_length ((dir @ SLASH # name) @ replicate k SLASH) (length (dir @ SLASH # name) + k) =
      length (dir @ SLASH # name)"
    by (rule trimmed_length_append) (use assms in \<open>auto simp: last_append dest: last_in_set\<close>)
  then have n: "trimmed_length (dir @ SLASH # name @ replicate k SLASH)
      (length (dir @ SLASH # name @ replicate k SLASH)) = length (dir @ SLASH # name)"
    by (simp add: add.assoc del: trimmed_length.simps)
  have "strrchr SLASH (take (length (dir @ SLASH # name)) (dir @ SLASH # name @ replicate k SLASH)) =
      Some (dir, name)"
    using assms(1) by simp
  then show ?thesis by (simp only: path_basename_def option.case Let_def n) simp
qed

subsection \<open>The sample rate of a model\<close>

text \<open>The text search of \<^verbatim>\<open>parse_sample_rate\<close> in the first 4095 bytes of
  \<^verbatim>\<open><model>.json\<close>. \<open>files\<close> says which files exist.\<close>

definition sample_rate_text :: "(int \<Rightarrow> int) \<Rightarrow> string \<Rightarrow> int" where
  "sample_rate_text over buf =
     (case strstr ''\"sample_rate\"'' buf of
        None \<Rightarrow> 22050
      | Some (_, sr) \<Rightarrow>
          (let rate = atoi over (dropWhile (\<lambda>c. c \<in> {CHR '' '', CHR '':'', CHR 0x09}) (drop 13 sr))
           in if 8000 \<le> rate \<and> rate \<le> 48000 then rate else 22050))"

definition parse_sample_rate :: "(int \<Rightarrow> int) \<Rightarrow> (string \<Rightarrow> byte list option) \<Rightarrow> string \<Rightarrow> int" where
  "parse_sample_rate over files path =
     (case files (snprintf_s 520 (path @ ''.json'')) of
        None \<Rightarrow> 22050
      | Some content \<Rightarrow> sample_rate_text over (cstr (take 4095 content)))"

lemma parse_sample_rate_bounds: "8000 \<le> parse_sample_rate over files path \<and> parse_sample_rate over files path \<le> 48000"
  by (simp add: parse_sample_rate_def sample_rate_text_def Let_def split: option.split prod.split)

end
