(* ===== verification/Wy_Bridge.thy ===== *)
theory Wy_Bridge
  imports C_Float C_Path Cjson_Parse
begin

unbundle bit_operations_syntax

text \<open>
  \<^verbatim>\<open>src/piper_bridge.cpp\<close>: a Piper voice on top of eSpeak, piper-phonemize and the ONNX
  runtime. These three are third-party libraries and a record of functions here; what the
  bridge does itself is translated: reading the voice's settings, turning a text into the
  model's input, and handing the model's audio out in chunks.
\<close>

subsection \<open>Third-party libraries\<close>

text \<open>\<open>pl_new\<close>: \<^verbatim>\<open>new (nothrow)\<close> has memory. \<open>pl_default_voice\<close>: the eSpeak voice a fresh
  configuration names. \<open>pl_session\<close>: the runtime opens the model without an exception.
  \<open>pl_phonemize\<close>: the sentences of a text as phonemes, code points, in a voice;
  \<open>pl_ids\<close>: their ids, given the voice's table, if it has one, and whether pads are interspersed;
  \<open>pl_infer\<close>: a model's audio. \<open>None\<close> is an exception.\<close>

record model_input =
  in_ids :: "int list"
  in_scales :: "double list"
  in_sid :: "int option"

record piper_lib =
  pl_new :: bool
  pl_espeak_init :: "string \<Rightarrow> int"
  pl_default_voice :: string
  pl_session :: "string \<Rightarrow> bool"
  pl_phonemize :: "string \<Rightarrow> string \<Rightarrow> nat list list option"
  pl_ids :: "(nat \<rightharpoonup> int list) option \<Rightarrow> bool \<Rightarrow> nat list \<Rightarrow> int list"
  pl_infer :: "string \<Rightarrow> model_input \<Rightarrow> double list option"

subsection \<open>The voice's settings\<close>

text \<open>\<open>syn_model\<close>: the model of the open session. \<open>syn_audio\<close> is \<^verbatim>\<open>audio_buf\<close>.
  \<open>syn_floats\<close> counts the arrays that \<^verbatim>\<open>piper_synthesize_next\<close> allocated and handed to its
  caller.\<close>

record synthesizer =
  syn_model :: "string option"
  syn_espeak_voice :: string
  syn_phoneme_ids :: "(nat \<rightharpoonup> int list) option"
  syn_intersperse :: bool
  syn_sample_rate :: int
  syn_speakers :: int
  syn_ready :: bool
  syn_audio :: "sample list"
  syn_voice_name :: "string option"
  syn_language :: "string option"
  syn_floats :: nat

definition new_synthesizer :: "piper_lib \<Rightarrow> synthesizer" where
  "new_synthesizer L =
     \<lparr>syn_model = None, syn_espeak_voice = pl_default_voice L, syn_phoneme_ids = None,
      syn_intersperse = False, syn_sample_rate = 22050, syn_speakers = 0, syn_ready = False,
      syn_audio = [], syn_voice_name = None, syn_language = None, syn_floats = 0\<rparr>"

text \<open>The first code point of a key. What lies behind the terminating NUL of a key that ends too
  early is undefined: \<open>stray\<close>.\<close>

definition key_byte :: "(nat \<Rightarrow> nat) \<Rightarrow> string \<Rightarrow> nat \<Rightarrow> nat" where
  "key_byte stray s i = (if i < length s then code (s ! i) else if i = length s then 0 else stray i)"

definition first_codepoint :: "(nat \<Rightarrow> nat) \<Rightarrow> string \<Rightarrow> nat" where
  "first_codepoint stray s =
     (let p = key_byte stray s; c = p 0
      in if c < 0x80 then c
         else if c < 0xE0 then push_bit 6 (c AND 0x1F) OR (p 1 AND 0x3F)
         else if c < 0xF0
         then push_bit 12 (c AND 0x0F) OR push_bit 6 (p 1 AND 0x3F) OR (p 2 AND 0x3F)
         else push_bit 18 (c AND 0x07) OR push_bit 12 (p 1 AND 0x3F) OR push_bit 6 (p 2 AND 0x3F)
              OR (p 3 AND 0x3F))"

text \<open>A key in UTF-8, as the parser makes it from an escape, gives its code point.\<close>

lemma and_low:
  "n AND 0x3F = take_bit 6 n" "n AND 0x1F = take_bit 5 n" "n AND 0x0F = take_bit 4 n" "n AND 0x07 = take_bit 3 n"
  for n :: nat
  by (simp_all add: take_bit_eq_mask mask_numeral)

lemma join_bits: "push_bit n (take_bit m (drop_bit n a)) OR take_bit n a = take_bit (m + n) a" for a :: nat
  by (rule bit_eqI) (auto simp: bit_simps)

lemma tail_byte: "code (char_of (unat ((cp OR 0x80) AND 0xBF)) :: char) AND 0x3F = take_bit 6 (unat cp)"
  for cp :: "64 word"
proof -
  have "unat ((cp OR 0x80) AND 0xBF) = (unat cp OR 0x80) AND 0xBF"
    by (simp add: unsigned_and_eq unsigned_or_eq)
  moreover have "take_bit 8 ((unat cp OR 0x80) AND 0xBF) AND 0x3F = take_bit 6 (unat cp)"
    by (simp add: and_low take_bit_numeral_numeral)
  ultimately show ?thesis by (simp add: take_bit_eq_mod)
qed

lemma or_high: "n < 2 ^ k \<Longrightarrow> n OR push_bit k b = n + push_bit k b" for n k b :: nat
proof -
  assume "n < 2 ^ k"
  then have n: "take_bit k n = n" by (simp add: take_bit_nat_eq_self)
  have "take_bit k n OR push_bit k b = take_bit k n + push_bit k b"
    by (rule disjunctive_add_eq_or [symmetric]) (auto intro!: bit_eqI simp: bit_simps)
  then show ?thesis by (simp only: n)
qed

lemma low_byte: "n AND 0xFF = n mod 256" for n :: nat
proof -
  have "n AND 0xFF = take_bit 8 n" by (simp add: take_bit_eq_mask mask_numeral)
  then show ?thesis by (simp add: take_bit_eq_mod)
qed

lemma lead_byte:
  fixes cp :: "64 word"
  shows "unat cp < 32 \<Longrightarrow> code (char_of (unat ((cp OR 0xC0) AND 0xFF)) :: char) = unat cp + 0xC0"
    and "unat cp < 16 \<Longrightarrow> code (char_of (unat ((cp OR 0xE0) AND 0xFF)) :: char) = unat cp + 0xE0"
    and "unat cp < 8 \<Longrightarrow> code (char_of (unat ((cp OR 0xF0) AND 0xFF)) :: char) = unat cp + 0xF0"
proof -
  have byte: "code (char_of (unat ((cp OR m) AND 0xFF)) :: char) = (unat cp OR unat m) mod 256" for m
    by (simp add: unsigned_and_eq unsigned_or_eq low_byte)
  show "unat cp < 32 \<Longrightarrow> code (char_of (unat ((cp OR 0xC0) AND 0xFF)) :: char) = unat cp + 0xC0"
    unfolding byte using or_high [of "unat cp" 5 6] by simp
  show "unat cp < 16 \<Longrightarrow> code (char_of (unat ((cp OR 0xE0) AND 0xFF)) :: char) = unat cp + 0xE0"
    unfolding byte using or_high [of "unat cp" 4 14] by simp
  show "unat cp < 8 \<Longrightarrow> code (char_of (unat ((cp OR 0xF0) AND 0xFF)) :: char) = unat cp + 0xF0"
    unfolding byte using or_high [of "unat cp" 3 30] by simp
qed

lemma lead_bits: "n < 2 ^ k \<Longrightarrow> take_bit k (n + 2 ^ k * b) = n" for n k b :: nat
  by (simp add: take_bit_eq_mod)

lemma first_codepoint_bytes:
  "code a = n + 0xC0 \<Longrightarrow> n < 32 \<Longrightarrow>
     first_codepoint stray (a # b # rest) = push_bit 6 n OR (code b AND 0x3F)"
  "code a = n + 0xE0 \<Longrightarrow> n < 16 \<Longrightarrow>
     first_codepoint stray (a # b # c # rest) = push_bit 12 n OR push_bit 6 (code b AND 0x3F) OR (code c AND 0x3F)"
  "code a = n + 0xF0 \<Longrightarrow> n < 8 \<Longrightarrow>
     first_codepoint stray (a # b # c # d # rest) =
       push_bit 18 n OR push_bit 12 (code b AND 0x3F) OR push_bit 6 (code c AND 0x3F) OR (code d AND 0x3F)"
  using lead_bits [of n 5 6] lead_bits [of n 4 14] lead_bits [of n 3 30]
  by (simp_all add: first_codepoint_def key_byte_def Let_def and_low)

lemma joined_bits:
  "push_bit 12 (drop_bit 12 n) OR push_bit 6 (take_bit 6 (drop_bit 6 n)) OR take_bit 6 n = n"
  "push_bit 18 (drop_bit 18 n) OR push_bit 12 (take_bit 6 (drop_bit 12 n)) OR
     push_bit 6 (take_bit 6 (drop_bit 6 n)) OR take_bit 6 n = n" for n :: nat
proof (rule_tac [!] bit_eqI)
  show "bit (push_bit 12 (drop_bit 12 n) OR push_bit 6 (take_bit 6 (drop_bit 6 n)) OR take_bit 6 n) i = bit n i" for i
    by (cases "i < 6"; cases "i < 12") (auto simp: bit_simps)
  show "bit (push_bit 18 (drop_bit 18 n) OR push_bit 12 (take_bit 6 (drop_bit 12 n)) OR
     push_bit 6 (take_bit 6 (drop_bit 6 n)) OR take_bit 6 n) i = bit n i" for i
    by (cases "i < 6"; cases "i < 12"; cases "i < 18") (auto simp: bit_simps)
qed

lemma first_codepoint_utf8:
  assumes "utf8_encode cp = Some bs"
  shows "first_codepoint stray (bs @ rest) = unat cp"
proof -
  let ?n = "unat cp"
  let ?lead = "\<lambda>k m. char_of (unat ((drop_bit k cp OR m) AND 0xFF)) :: char"
  let ?tail = "\<lambda>k. char_of (unat ((drop_bit k cp OR 0x80) AND 0xBF)) :: char"
  have "take_bit 64 ?n = ?n" using unsigned_less [of cp, where 'a = nat] by (simp add: take_bit_nat_eq_self)
  then have drops: "unat (drop_bit k cp) = drop_bit k ?n" for k
    by (simp add: unsigned_drop_bit_eq)
  note tail = tail_byte [of "drop_bit _ cp", unfolded drops]
  consider (1) "cp < 0x80" | (2) "\<not> cp < 0x80" "cp < 0x800" | (3) "\<not> cp < 0x80" "\<not> cp < 0x800" "cp < 0x10000"
    | (4) "\<not> cp < 0x80" "\<not> cp < 0x800" "\<not> cp < 0x10000" "cp \<le> 0x10FFFF"
    using assms by (fastforce simp: utf8_encode_def Let_def split: if_splits)
  then show ?thesis
  proof cases
    case 1
    then have n: "?n < 0x80" by (simp add: word_less_nat_alt)
    have "unat (cp AND 0x7F) = take_bit 7 ?n"
      by (simp add: unsigned_and_eq take_bit_eq_mask mask_numeral)
    also have "\<dots> = ?n" using n by (simp add: take_bit_nat_eq_self)
    finally have "unat (cp AND 0x7F) = ?n" .
    with assms 1 n show ?thesis
      by (auto simp: utf8_encode_def first_codepoint_def key_byte_def Let_def)
  next
    case 2
    then have n: "?n < 2 ^ 11" by (simp add: word_less_nat_alt)
    then have l: "unat (drop_bit 6 cp) < 32" by (simp only: drops) (simp add: drop_bit_eq_div)
    have bs: "bs = [?lead 6 0xC0, ?tail 0]"
      using assms 2 by (simp add: utf8_encode_def Let_def numeral_eq_Suc)
    show ?thesis
      unfolding bs append_Cons first_codepoint_bytes(1) [OF lead_byte(1) [OF l] l] drops tail
      by (rule bit_eqI) (auto simp: bit_simps)
  next
    case 3
    then have n: "?n < 2 ^ 16" by (simp add: word_less_nat_alt)
    then have l: "unat (drop_bit 12 cp) < 16" by (simp only: drops) (simp add: drop_bit_eq_div)
    have bs: "bs = [?lead 12 0xE0, ?tail 6, ?tail 0]"
      using assms 3 by (simp add: utf8_encode_def Let_def eval_nat_numeral drop_bit_drop_bit)
    show ?thesis
      unfolding bs append_Cons first_codepoint_bytes(2) [OF lead_byte(2) [OF l] l] drops tail
      by (simp add: joined_bits)
  next
    case 4
    then have n: "?n \<le> 0x10FFFF" by (simp add: word_le_nat_alt)
    then have l: "unat (drop_bit 18 cp) < 8" by (simp only: drops) (simp add: drop_bit_eq_div)
    have bs: "bs = [?lead 18 0xF0, ?tail 12, ?tail 6, ?tail 0]"
      using assms 4 by (simp add: utf8_encode_def Let_def eval_nat_numeral drop_bit_drop_bit)
    show ?thesis
      unfolding bs append_Cons first_codepoint_bytes(3) [OF lead_byte(3) [OF l] l] drops tail
      by (simp add: joined_bits)
  qed
qed
text \<open>\<^verbatim>\<open>(int64_t) d\<close>, undefined outside the range.\<close>

definition to_int64 :: "platform \<Rightarrow> double \<Rightarrow> int" where
  "to_int64 P d =
     (case d of
        Fin r \<Rightarrow> if - (2 ^ 63) \<le> rtrunc r \<and> rtrunc r < 2 ^ 63 then rtrunc r else int_cast P d
      | _ \<Rightarrow> int_cast P d)"

definition phoneme_ids :: "platform \<Rightarrow> cJSON list \<Rightarrow> int list" where
  "phoneme_ids P xs = List.map_filter (\<lambda>v. map_option (to_int64 P) (number_of (Some v))) xs"

definition add_phoneme ::
  "platform \<Rightarrow> (nat \<Rightarrow> nat) \<Rightarrow> (nat \<rightharpoonup> int list) option \<Rightarrow> string \<times> cJSON \<Rightarrow> (nat \<rightharpoonup> int list) option" where
  "add_phoneme P stray table kv =
     (case array_of (Some (snd kv)) of
        None \<Rightarrow> table
      | Some xs \<Rightarrow>
          if fst kv = [] then table
          else Some ((case table of None \<Rightarrow> Map.empty | Some m \<Rightarrow> m)
                       (first_codepoint stray (fst kv) \<mapsto> phoneme_ids P xs)))"

text \<open>\<^verbatim>\<open>en-us\<close> becomes \<^verbatim>\<open>en_US\<close>.\<close>

definition voice_language :: "string \<Rightarrow> string" where
  "voice_language voice =
     (case strchr (CHR ''-'') voice of
        None \<Rightarrow> voice
      | Some (a, b) \<Rightarrow> a @ CHR ''_'' # map toupper b)"

text \<open>\<^verbatim>\<open>load_model_config\<close>. An empty file is read as the empty text.\<close>

definition config_int :: "platform \<Rightarrow> cJSON option \<Rightarrow> string \<Rightarrow> int \<Rightarrow> int" where
  "config_int P obj name old =
     (case number_of (cJSON_GetObjectItem obj name) of Some d \<Rightarrow> to_int P d | None \<Rightarrow> old)"

definition phoneme_table ::
  "platform \<Rightarrow> (nat \<Rightarrow> nat) \<Rightarrow> cJSON option \<Rightarrow> (nat \<rightharpoonup> int list) option \<Rightarrow> (nat \<rightharpoonup> int list) option" where
  "phoneme_table P stray tree table =
     (case cJSON_GetObjectItem tree ''phoneme_id_map'' of
        Some (cJSON_Object kvs) \<Rightarrow> foldl (add_phoneme P stray) table kvs
      | _ \<Rightarrow> table)"

definition apply_config :: "platform \<Rightarrow> (nat \<Rightarrow> nat) \<Rightarrow> cJSON \<Rightarrow> synthesizer \<Rightarrow> synthesizer" where
  "apply_config P stray tree s =
     (let voice = (case string_of (cJSON_GetObjectItem (cJSON_GetObjectItem (Some tree) ''espeak'') ''voice'') of
                     Some v \<Rightarrow> v | None \<Rightarrow> syn_espeak_voice s)
      in s\<lparr>syn_sample_rate := config_int P (cJSON_GetObjectItem (Some tree) ''audio'') ''sample_rate'' (syn_sample_rate s),
           syn_speakers := config_int P (Some tree) ''num_speakers'' (syn_speakers s),
           syn_espeak_voice := voice,
           syn_phoneme_ids := phoneme_table P stray (Some tree) (syn_phoneme_ids s),
           syn_language := (if voice = [] then syn_language s else strdup P (voice_language voice))\<rparr>)"

definition load_model_config ::
  "platform \<Rightarrow> (nat \<Rightarrow> nat) \<Rightarrow> (string \<Rightarrow> byte list option) \<Rightarrow> string \<Rightarrow> synthesizer \<Rightarrow> synthesizer option" where
  "load_model_config P stray files path s =
     (case files path of
        None \<Rightarrow> None
      | Some content \<Rightarrow>
          if \<not> malloc_ok P (length content + 1) then None
          else map_option (\<lambda>tree. apply_config P stray tree s) (cJSON_Parse P content))"

subsection \<open>Making a synthesizer\<close>

text \<open>The directory of the model, if it is behind another slash.\<close>

definition directory_name :: "platform \<Rightarrow> string \<Rightarrow> string option" where
  "directory_name P path =
     (case strrchr SLASH path of
        None \<Rightarrow> None
      | Some (dir, _) \<Rightarrow>
          (case strrchr SLASH dir of None \<Rightarrow> None | Some (_, name) \<Rightarrow> strdup P name))"

text \<open>\<^verbatim>\<open>delete synth\<close> does not free the strings: they are lost, and counted.\<close>

definition lost_strings :: "synthesizer \<Rightarrow> nat" where
  "lost_strings s = (if syn_voice_name s = None then 0 else 1) + (if syn_language s = None then 0 else 1)"

definition piper_create ::
  "platform \<Rightarrow> piper_lib \<Rightarrow> (nat \<Rightarrow> nat) \<Rightarrow> (string \<Rightarrow> byte list option) \<Rightarrow> string \<Rightarrow> string option \<Rightarrow>
     string option \<Rightarrow> synthesizer option \<times> nat" where
  "piper_create P L stray files model config espeak_data =
     (if \<not> pl_new L then (None, 0)
      else let s = new_synthesizer L;
               data = (case espeak_data of None \<Rightarrow> ''/usr/share/espeak-ng-data'' | Some d \<Rightarrow> d)
      in if pl_espeak_init L data < 0 then (None, lost_strings s)
         else let cfg_path = (case config of
                                None \<Rightarrow> model @ ''.json''
                              | Some c \<Rightarrow> if c = [] then model @ ''.json'' else c)
         in (case load_model_config P stray files cfg_path s of
               None \<Rightarrow> (None, lost_strings s)
             | Some s \<Rightarrow>
                 let s = s\<lparr>syn_intersperse := True\<rparr>
                 in if \<not> pl_session L model then (None, lost_strings s)
                    else (Some (s\<lparr>syn_model := Some model, syn_voice_name := directory_name P model,
                                  syn_ready := True\<rparr>), 0)))"

text \<open>\<^verbatim>\<open>piper_destroy\<close>: the blocks it gives back, the session, the strings and the object.\<close>

definition piper_destroy :: "synthesizer option \<Rightarrow> nat" where
  "piper_destroy s =
     (case s of
        None \<Rightarrow> 0
      | Some s \<Rightarrow> (if syn_model s = None then 0 else 1) + lost_strings s + 1)"

text \<open>What a synthesizer that was made knows: its settings are the file's.\<close>

lemma piper_create_SomeE:
  assumes "piper_create P L stray files model (Some config) espeak_data = (Some s, lost)" and "config \<noteq> []"
  obtains content tree where "files config = Some content" and "cJSON_Parse P content = Some tree"
    and "s = (apply_config P stray tree (new_synthesizer L))
      \<lparr>syn_intersperse := True, syn_model := Some model, syn_voice_name := directory_name P model, syn_ready := True\<rparr>"
    and "lost = 0"
  using assms
  by (auto simp: piper_create_def load_model_config_def Let_def split: if_splits option.splits)

text \<open>When the model cannot be opened, the language of the settings is lost.\<close>

lemma piper_create_loses:
  assumes "pl_new L" and "0 \<le> pl_espeak_init L data" and "\<not> pl_session L model"
    and "files config = Some content" and "cJSON_Parse P content = Some tree" and "config \<noteq> []"
    and "string_of (cJSON_GetObjectItem (cJSON_GetObjectItem (Some tree) ''espeak'') ''voice'') = Some v" and "v \<noteq> []"
    and "mem_ok P (length content + length (voice_language v) + 1)"
  shows "piper_create P L stray files model (Some config) (Some data) = (None, 1)"
proof -
  have "malloc_ok P (length content + 1)" "malloc_ok P (length (voice_language v) + 1)"
    by (rule mem_okD [OF assms(9)]; simp)+
  with assms(1-8) show ?thesis
    by (simp add: piper_create_def load_model_config_def apply_config_def lost_strings_def new_synthesizer_def Let_def)
qed

subsection \<open>From a text to audio\<close>

record piper_options =
  op_speaker :: int
  op_length_scale :: double
  op_noise_scale :: double
  op_noise_w :: double

definition piper_default_synthesize_options :: piper_options where
  "piper_default_synthesize_options =
     \<lparr>op_speaker = 0, op_length_scale = Fin 1, op_noise_scale = to_float (667 / 1000),
      op_noise_w = to_float (8 / 10)\<rparr>"

text \<open>What the session is run on; the speaker only for models with several.\<close>

definition model_input_of :: "synthesizer \<Rightarrow> int list \<Rightarrow> piper_options \<Rightarrow> model_input" where
  "model_input_of s ids opts =
     \<lparr>in_ids = ids, in_scales = [op_noise_scale opts, op_length_scale opts, op_noise_w opts],
      in_sid = (if 1 < syn_speakers s then Some (op_speaker opts) else None)\<rparr>"

definition text_ids :: "piper_lib \<Rightarrow> synthesizer \<Rightarrow> nat list list \<Rightarrow> int list" where
  "text_ids L s sentences = concat (map (pl_ids L (syn_phoneme_ids s) (syn_intersperse s)) sentences)"

definition piper_synthesize_start ::
  "platform \<Rightarrow> piper_lib \<Rightarrow> synthesizer \<Rightarrow> string \<Rightarrow> piper_options \<Rightarrow> int \<times> synthesizer" where
  "piper_synthesize_start P L s text opts =
     (case (syn_ready s, syn_model s) of
        (True, Some model) \<Rightarrow>
          let s = s\<lparr>syn_audio := []\<rparr>
          in (case pl_phonemize L (syn_espeak_voice s) text of
                None \<Rightarrow> (-1, s)
              | Some sentences \<Rightarrow>
                  let ids = text_ids L s sentences
                  in if sentences = [] \<or> ids = [] then (-1, s)
                     else (case pl_infer L model (model_input_of s ids opts) of
                             None \<Rightarrow> (-1, s)
                           | Some audio \<Rightarrow> (0, s\<lparr>syn_audio := map (float_to_sample P) audio\<rparr>)))
      | _ \<Rightarrow> (-1, s))"

record audio_chunk =
  ck_samples :: "double list"
  ck_channels :: int
  ck_sample_rate :: int
  ck_is_last :: bool

abbreviation (input) PIPER_OK :: int where "PIPER_OK \<equiv> 0"
abbreviation (input) PIPER_DONE :: int where "PIPER_DONE \<equiv> 1"

text \<open>The fields of the caller's chunk that the call leaves alone keep their value.\<close>

definition piper_synthesize_next ::
  "platform \<Rightarrow> synthesizer \<Rightarrow> audio_chunk \<Rightarrow> int \<times> audio_chunk \<times> synthesizer" where
  "piper_synthesize_next P s chunk =
     (if syn_audio s = [] then (PIPER_DONE, chunk\<lparr>ck_samples := [], ck_is_last := True\<rparr>, s)
      else if \<not> malloc_ok P (4 * length (syn_audio s)) then (-1, chunk, s)
      else (PIPER_OK,
            \<lparr>ck_samples = map sample_to_float (syn_audio s), ck_channels = 1,
             ck_sample_rate = syn_sample_rate s, ck_is_last = True\<rparr>,
            s\<lparr>syn_audio := [], syn_floats := Suc (syn_floats s)\<rparr>))"

lemma synthesize_start_ok:
  assumes "syn_ready s" and "syn_model s = Some model"
    and "pl_phonemize L (syn_espeak_voice s) text = Some sentences"
    and "text_ids L s sentences \<noteq> []"
    and "pl_infer L model (model_input_of s (text_ids L s sentences) opts) = Some audio"
  shows "piper_synthesize_start P L s text opts = (PIPER_OK, s\<lparr>syn_audio := map (float_to_sample P) audio\<rparr>)"
proof -
  have "sentences \<noteq> []" using assms(4) by (auto simp: text_ids_def)
  with assms show ?thesis by (simp add: piper_synthesize_start_def text_ids_def model_input_of_def Let_def)
qed

end
