(* ===== verification/Wy_Piper.thy ===== *)
theory Wy_Piper
  imports Wy_Bridge Wy_Registry
begin

text \<open>
  The built-in Piper engine: \<^verbatim>\<open>src/piper.c\<close>, on top of the bridge (theory
  \<open>Wy_Bridge\<close>). It reads the voice's settings itself, for its own use, and gives the bridge's
  audio to the server as 16-bit samples.
\<close>

subsection \<open>The engine\<close>

text \<open>\<^verbatim>\<open>wyoming_piper_t\<close>: the two arrays are \<open>None\<close> for NULL.\<close>

record piper =
  pp_synth :: "synthesizer option"
  pp_sample_rate :: int
  pp_voice_name :: "string option"
  pp_language :: "string option"
  pp_speaker_names :: "string option list option"
  pp_speaker_ids :: "int list option"
  pp_num_speakers :: int

text \<open>\<^verbatim>\<open>wyoming_piper_speaker_id\<close>: the loop over the first \<open>k\<close> entries from \<open>i\<close> on. What a read
  beyond an array yields is undefined in C: \<open>stray\<close>.\<close>

fun speaker_scan :: "int \<Rightarrow> string option list \<Rightarrow> int list option \<Rightarrow> string \<Rightarrow> nat \<Rightarrow> nat \<Rightarrow> int" where
  "speaker_scan stray names ids name i 0 = -1"
| "speaker_scan stray names ids name i (Suc k) =
     (if i < length names
      then if names ! i = Some name
           then (case ids of Some xs \<Rightarrow> if i < length xs then xs ! i else stray | None \<Rightarrow> stray)
           else speaker_scan stray names ids name (Suc i) k
      else stray)"

definition wyoming_piper_speaker_id :: "int \<Rightarrow> piper option \<Rightarrow> string option \<Rightarrow> int" where
  "wyoming_piper_speaker_id stray p name =
     (case (p, name) of
        (Some q, Some n) \<Rightarrow>
          (case pp_speaker_names q of
             None \<Rightarrow> -1
           | Some names \<Rightarrow> speaker_scan stray names (pp_speaker_ids q) n 0 (nat (pp_num_speakers q)))
      | _ \<Rightarrow> -1)"

definition wyoming_piper_speaker_name :: "piper option \<Rightarrow> int \<Rightarrow> string option" where
  "wyoming_piper_speaker_name p index =
     (case p of
        None \<Rightarrow> None
      | Some q \<Rightarrow>
          if index < 0 \<or> pp_num_speakers q \<le> index then None
          else (case pp_speaker_names q of None \<Rightarrow> None | Some names \<Rightarrow> names ! nat index))"

text \<open>The options of a call: the speaker is looked up when the voice has several.\<close>

definition speaker_options :: "int \<Rightarrow> piper \<Rightarrow> string option \<Rightarrow> piper_options" where
  "speaker_options stray p speaker =
     (let opts = piper_default_synthesize_options
      in if speaker \<noteq> None \<and> 1 < pp_num_speakers p
         then let sid = wyoming_piper_speaker_id stray (Some p) speaker
              in if 0 \<le> sid then opts\<lparr>op_speaker := sid\<rparr> else opts
         else opts)"

text \<open>The chunk loop of \<^verbatim>\<open>piper_tts_callback\<close>: the samples so far in a buffer of \<open>cap\<close>
  samples. The arrays of the chunks are not freed.\<close>

function collect_chunks ::
  "platform \<Rightarrow> synthesizer \<Rightarrow> audio_chunk \<Rightarrow> nat \<Rightarrow> sample list \<Rightarrow>
     wyoming_error \<times> sample list \<times> synthesizer" where
  "collect_chunks P s chunk cap zs =
     (case piper_synthesize_next P s chunk of
        (rc, c, s') \<Rightarrow>
          if rc \<noteq> PIPER_OK then (WYOMING_OK, zs, s')
          else let need = length zs + length (ck_samples c)
               in if cap < need \<and> \<not> malloc_ok P (need * 2 * 2) then (WYOMING_ERR_NOMEM, [], s')
                  else let cap' = (if cap < need then need * 2 else cap);
                           zs' = zs @ map (float_to_sample P) (ck_samples c)
                       in if ck_is_last c then (WYOMING_OK, zs', s')
                          else collect_chunks P s' c cap' zs')"
  by pat_completeness auto
termination
  by (relation "measure (\<lambda>(P, s, chunk, cap, zs). length (syn_audio s))")
     (auto simp: piper_synthesize_next_def split: if_splits)

declare collect_chunks.simps [simp del]

text \<open>\<open>chunk\<close> is the callback's uninitialised local variable.\<close>

definition piper_tts_callback ::
  "platform \<Rightarrow> piper_lib \<Rightarrow> int \<Rightarrow> audio_chunk \<Rightarrow> piper tts_fn" where
  "piper_tts_callback P L stray chunk text voice speaker p =
     (let failed = (\<lambda>rc q. ((rc, None, \<lparr>rate = 0, width = 0, channels = 0\<rparr>), q))
      in case pp_synth p of
           None \<Rightarrow> failed WYOMING_ERR_INVAL p
         | Some s \<Rightarrow>
             (case piper_synthesize_start P L s text (speaker_options stray p speaker) of
                (rc, s) \<Rightarrow>
                  if rc \<noteq> PIPER_OK then failed WYOMING_ERR_PIPER (p\<lparr>pp_synth := Some s\<rparr>)
                  else let capacity = nat (pp_sample_rate p) * 2
                  in if \<not> malloc_ok P (capacity * 2)
                     then failed WYOMING_ERR_NOMEM (p\<lparr>pp_synth := Some s\<rparr>)
                     else (case collect_chunks P s chunk capacity [] of
                             (rc, zs, s) \<Rightarrow>
                               if rc \<noteq> WYOMING_OK then failed rc (p\<lparr>pp_synth := Some s\<rparr>)
                               else ((WYOMING_OK, Some zs,
                                      \<lparr>rate = pp_sample_rate p, width = 2, channels = 1\<rparr>),
                                     p\<lparr>pp_synth := Some s\<rparr>))))"

subsection \<open>Loading a voice\<close>

text \<open>\<^verbatim>\<open>read_file\<close>: an empty file counts as missing.\<close>

definition read_file :: "platform \<Rightarrow> (string \<Rightarrow> byte list option) \<Rightarrow> string \<Rightarrow> byte list option" where
  "read_file P files path =
     (case files path of
        None \<Rightarrow> None
      | Some content \<Rightarrow>
          if content = [] \<or> \<not> malloc_ok P (length content + 1) then None else Some content)"

text \<open>\<^verbatim>\<open>(int) item->valuedouble\<close>; an item that is no number holds 0.\<close>

definition item_int :: "platform \<Rightarrow> cJSON \<Rightarrow> int" where
  "item_int P v = (case v of cJSON_Number d \<Rightarrow> to_int P d | _ \<Rightarrow> 0)"

definition int_member :: "platform \<Rightarrow> cJSON option \<Rightarrow> string \<Rightarrow> int \<Rightarrow> int" where
  "int_member P obj name old =
     (case number_of (cJSON_GetObjectItemCaseSensitive obj name) of Some d \<Rightarrow> to_int P d | None \<Rightarrow> old)"

text \<open>The settings read from \<^verbatim>\<open>model.onnx.json\<close>. The speakers are counted as an
  \<^verbatim>\<open>int\<close>, for which the arrays are made, while the loop goes over all of them: \<open>None\<close> when it
  writes beyond the arrays. Without memory for either array the count from
  \<^verbatim>\<open>num_speakers\<close> stays.\<close>

definition read_speakers :: "platform \<Rightarrow> cJSON option \<Rightarrow> piper \<Rightarrow> piper option" where
  "read_speakers P tree p =
     (case cJSON_GetObjectItemCaseSensitive tree ''speaker_id_map'' of
        Some (cJSON_Object kvs) \<Rightarrow>
          let count = cJSON_GetArraySize (Some (cJSON_Object kvs));
              n = nat count;
              names_ok = malloc_ok P (n * 8);
              ids_ok = malloc_ok P (n * 4)
          in if count \<le> 0 then Some p
             else if names_ok \<and> ids_ok
             then (if n < length kvs then None
                   else Some (p\<lparr>pp_speaker_names := Some (map (\<lambda>(k, v). strdup P k) kvs),
                                pp_speaker_ids := Some (map (\<lambda>(k, v). item_int P v) kvs),
                                pp_num_speakers := count\<rparr>))
             else Some (p\<lparr>pp_speaker_names := (if names_ok then Some (replicate n None) else None),
                          pp_speaker_ids := (if ids_ok then Some (replicate n 0) else None)\<rparr>)
      | _ \<Rightarrow> Some p)"

definition read_settings :: "platform \<Rightarrow> cJSON option \<Rightarrow> piper \<Rightarrow> piper option" where
  "read_settings P tree p =
     (let sr = int_member P (cJSON_GetObjectItemCaseSensitive tree ''audio'') ''sample_rate''
                   (pp_sample_rate p);
          p = p\<lparr>pp_sample_rate := (if sr \<le> 0 then 22050 else sr)\<rparr>;
          code = string_of (cJSON_GetObjectItemCaseSensitive
                   (cJSON_GetObjectItemCaseSensitive tree ''language'') ''code'');
          p = p\<lparr>pp_language := (case code of Some c \<Rightarrow> strdup P c | None \<Rightarrow> None)\<rparr>;
          p = p\<lparr>pp_num_speakers := int_member P tree ''num_speakers'' (pp_num_speakers p)\<rparr>
      in read_speakers P tree p)"

definition piper_zero :: piper where
  "piper_zero =
     \<lparr>pp_synth = None, pp_sample_rate = 0, pp_voice_name = None, pp_language = None,
      pp_speaker_names = None, pp_speaker_ids = None, pp_num_speakers = 0\<rparr>"

abbreviation sizeof_piper :: nat where "sizeof_piper \<equiv> 56"

text \<open>The outer option: \<open>None\<close> when the behaviour is undefined. The inner one is what the
  function returns.\<close>

definition wyoming_piper_create ::
  "platform \<Rightarrow> piper_lib \<Rightarrow> (nat \<Rightarrow> nat) \<Rightarrow> (string \<Rightarrow> byte list option) \<Rightarrow> string option \<Rightarrow> string option \<Rightarrow>
     piper option option" where
  "wyoming_piper_create P L behind files model espeak_data_path =
     (case (model, espeak_data_path) of
        (Some path, Some espeak) \<Rightarrow>
          if \<not> malloc_ok P sizeof_piper \<or> \<not> malloc_ok P (length path + 6) then Some None
          else let config_path = path @ ''.json''
          in (case read_file P files config_path of
                None \<Rightarrow> Some None
              | Some json \<Rightarrow>
                  (case cJSON_Parse P json of
                     None \<Rightarrow> Some None
                   | Some tree \<Rightarrow>
                       (case read_settings P (Some tree) piper_zero of
                          None \<Rightarrow> None
                        | Some p \<Rightarrow>
                            let p = p\<lparr>pp_voice_name := extract_stem P path\<rparr>
                            in (case fst (piper_create P L behind files path (Some config_path) (Some espeak)) of
                                  None \<Rightarrow> Some None
                                | Some s \<Rightarrow> Some (Some (p\<lparr>pp_synth := Some s\<rparr>))))))
      | _ \<Rightarrow> Some None)"

text \<open>What a loaded voice is: both readings of the same file.\<close>

lemma piper_create_loaded:
  assumes "wyoming_piper_create P L behind files (Some path) (Some espeak) = Some (Some p)"
  obtains json tree q s where "files (path @ ''.json'') = Some json" and "json \<noteq> []"
    and "cJSON_Parse P json = Some tree" and "read_settings P (Some tree) piper_zero = Some q"
    and "p = q\<lparr>pp_voice_name := extract_stem P path, pp_synth := Some s\<rparr>"
    and "s = (apply_config P behind tree (new_synthesizer L))
      \<lparr>syn_intersperse := True, syn_model := Some path, syn_voice_name := directory_name P path, syn_ready := True\<rparr>"
proof -
  obtain json tree q s lost where a: "read_file P files (path @ ''.json'') = Some json" "cJSON_Parse P json = Some tree"
    "piper_create P L behind files path (Some (path @ ''.json'')) (Some espeak) = (Some s, lost)"
    "read_settings P (Some tree) piper_zero = Some q"
    "p = q\<lparr>pp_voice_name := extract_stem P path, pp_synth := Some s\<rparr>"
    using assms by (auto simp: wyoming_piper_create_def Let_def split: if_splits option.splits) (metis prod.collapse)
  then have f: "files (path @ ''.json'') = Some json" "json \<noteq> []"
    by (auto simp: read_file_def split: option.splits if_splits)
  from a(3) obtain content tree' where b: "files (path @ ''.json'') = Some content" "cJSON_Parse P content = Some tree'"
    "s = (apply_config P behind tree' (new_synthesizer L))
      \<lparr>syn_intersperse := True, syn_model := Some path, syn_voice_name := directory_name P path, syn_ready := True\<rparr>"
    by (rule piper_create_SomeE) simp
  with a(2) f(1) have "tree' = tree" by simp
  with f a(2,4,5) b(3) show ?thesis by (intro that [of json tree q s]) simp_all
qed

subsection \<open>What a voice tells, and its end\<close>

definition wyoming_piper_sample_rate :: "piper option \<Rightarrow> int" where
  "wyoming_piper_sample_rate p = (case p of None \<Rightarrow> 0 | Some q \<Rightarrow> pp_sample_rate q)"

definition wyoming_piper_voice_name :: "piper option \<Rightarrow> string option" where
  "wyoming_piper_voice_name p = (case p of None \<Rightarrow> None | Some q \<Rightarrow> pp_voice_name q)"

definition wyoming_piper_language :: "piper option \<Rightarrow> string option" where
  "wyoming_piper_language p = (case p of None \<Rightarrow> None | Some q \<Rightarrow> pp_language q)"

definition wyoming_piper_num_speakers :: "piper option \<Rightarrow> int" where
  "wyoming_piper_num_speakers p = (case p of None \<Rightarrow> 0 | Some q \<Rightarrow> pp_num_speakers q)"

text \<open>The blocks a voice owns, those of its synthesizer included, and how many of them
  \<^verbatim>\<open>wyoming_piper_destroy\<close> gives back; \<open>None\<close> when its loop runs beyond the names.\<close>

definition here :: "'a option \<Rightarrow> nat" where
  "here x = (if x = None then 0 else 1)"

definition piper_blocks :: "piper \<Rightarrow> nat" where
  "piper_blocks p =
     piper_destroy (pp_synth p) + here (pp_voice_name p) + here (pp_language p) +
     (case pp_speaker_names p of None \<Rightarrow> 0 | Some names \<Rightarrow> sum_list (map here names) + 1) +
     here (pp_speaker_ids p) + 1"

definition wyoming_piper_destroy :: "piper option \<Rightarrow> nat option" where
  "wyoming_piper_destroy p =
     (case p of
        None \<Rightarrow> Some 0
      | Some q \<Rightarrow>
          let rest = piper_destroy (pp_synth q) + here (pp_voice_name q) + here (pp_language q) +
                     here (pp_speaker_ids q) + 1
          in (case pp_speaker_names q of
                None \<Rightarrow> Some rest
              | Some names \<Rightarrow>
                  let n = nat (pp_num_speakers q)
                  in if length names < n then None
                     else Some (rest + sum_list (map here (take n names)) + 1)))"

subsection \<open>What the callback gives\<close>

lemma collect_chunks_all:
  assumes "syn_audio s \<noteq> []" and "mem_ok P (4 * length (syn_audio s))"
  shows "collect_chunks P s chunk cap [] =
    (WYOMING_OK, map softened (syn_audio s), s\<lparr>syn_audio := [], syn_floats := Suc (syn_floats s)\<rparr>)"
proof -
  have "malloc_ok P (4 * length (syn_audio s))" using assms(2) by (rule mem_okD) simp
  moreover from this have "malloc_ok P (length (syn_audio s) * 2 * 2)" by (simp add: mult.commute)
  ultimately show ?thesis
    using assms(1)
    by (subst collect_chunks.simps) (simp add: piper_synthesize_next_def float_round_trip Let_def)
qed

text \<open>As many samples as the model gave, each rounded to 16 bits and then moved towards zero by
  one; an array of the bridge is left behind.\<close>

lemma piper_callback_audio:
  assumes "pp_synth p = Some s" and "syn_ready s" and "syn_model s = Some model"
    and "pl_phonemize L (syn_espeak_voice s) text = Some sentences" and "text_ids L s sentences \<noteq> []"
    and "pl_infer L model (model_input_of s (text_ids L s sentences) (speaker_options stray p speaker)) = Some audio"
    and "audio \<noteq> []"
    and "mem_ok P (4 * length audio)" and "malloc_ok P (nat (pp_sample_rate p) * 2 * 2)"
  shows "piper_tts_callback P L stray chunk text voice speaker p =
    ((WYOMING_OK, Some (map (softened \<circ> float_to_sample P) audio),
      \<lparr>rate = pp_sample_rate p, width = 2, channels = 1\<rparr>),
     p\<lparr>pp_synth := Some (s\<lparr>syn_audio := [], syn_floats := Suc (syn_floats s)\<rparr>)\<rparr>)"
proof -
  let ?s = "s\<lparr>syn_audio := map (float_to_sample P) audio\<rparr>"
  have "collect_chunks P ?s chunk (nat (pp_sample_rate p) * 2) [] =
      (WYOMING_OK, map (softened \<circ> float_to_sample P) audio, ?s\<lparr>syn_audio := [], syn_floats := Suc (syn_floats s)\<rparr>)"
    using collect_chunks_all [of ?s P] assms(7,8) by simp
  with synthesize_start_ok [OF assms(2-6)] assms(1,9) show ?thesis
    by (simp add: piper_tts_callback_def Let_def)
qed

subsection \<open>Speakers\<close>

text \<open>The arrays of a voice that was loaded with enough memory.\<close>

definition speakers_ok :: "piper \<Rightarrow> bool" where
  "speakers_ok p \<longleftrightarrow>
     (case pp_speaker_names p of
        None \<Rightarrow> True
      | Some names \<Rightarrow>
          pp_num_speakers p = int (length names) \<and>
          (\<exists>ids. pp_speaker_ids p = Some ids \<and> length ids = length names))"

lemma destroy_all: "speakers_ok p \<Longrightarrow> wyoming_piper_destroy (Some p) = Some (piper_blocks p)"
  by (auto simp: wyoming_piper_destroy_def piper_blocks_def speakers_ok_def Let_def split: option.splits)

lemma speaker_scan_map:
  "length names = length ids \<Longrightarrow> i + k = length names \<Longrightarrow>
     speaker_scan stray names (Some ids) name i k =
       (case map_of (drop i (zip names ids)) (Some name) of Some x \<Rightarrow> x | None \<Rightarrow> -1)"
proof (induction k arbitrary: i)
  case (Suc k)
  then have "drop i (zip names ids) = (names ! i, ids ! i) # drop (Suc i) (zip names ids)"
    by (simp flip: Cons_nth_drop_Suc)
  with Suc show ?case by simp
qed simp

lemma speaker_id_lookup:
  assumes "pp_speaker_names p = Some names" and "pp_speaker_ids p = Some ids"
    and "length ids = length names" and "pp_num_speakers p = int (length names)"
  shows "wyoming_piper_speaker_id stray (Some p) (Some name) =
    (case map_of (zip names ids) (Some name) of Some x \<Rightarrow> x | None \<Rightarrow> -1)"
  using assms speaker_scan_map [of names ids 0 "length names" stray name]
  by (simp add: wyoming_piper_speaker_id_def)

text \<open>The names and ids of the settings file, looked up: the id of the first entry of that name.\<close>

lemma map_of_names:
  "\<forall>(k, v)\<in>set kvs. f k = Some k \<Longrightarrow>
     map_of (zip (map (\<lambda>(k, v). f k) kvs) (map (\<lambda>(k, v). g v) kvs)) (Some name) =
     map_option g (map_of kvs name)"
  by (induction kvs) auto

lemma speakers_of_settings:
  assumes "cJSON_GetObjectItemCaseSensitive tree ''speaker_id_map'' = Some (cJSON_Object kvs)" and "kvs \<noteq> []"
    and "length kvs < 2 ^ 31" and "malloc_ok P (length kvs * 8)" and "malloc_ok P (length kvs * 4)"
  shows "read_speakers P tree p = Some (p\<lparr>pp_speaker_names := Some (map (\<lambda>(k, v). strdup P k) kvs),
     pp_speaker_ids := Some (map (\<lambda>(k, v). item_int P v) kvs), pp_num_speakers := int (length kvs)\<rparr>)"
proof -
  have "cJSON_GetArraySize (Some (cJSON_Object kvs)) = int (length kvs)"
    using cJSON_GetArraySize_small [of "cJSON_Object kvs"] assms(3) by simp
  with assms(1,2,4,5) show ?thesis by (simp add: read_speakers_def Let_def)
qed

lemma speaker_lookup:
  assumes "\<And>k v. (k, v) \<in> set kvs \<Longrightarrow> malloc_ok P (length k + 1)"
    and "pp_speaker_names p = Some (map (\<lambda>(k, v). strdup P k) kvs)"
    and "pp_speaker_ids p = Some (map (\<lambda>(k, v). item_int P v) kvs)" and "pp_num_speakers p = int (length kvs)"
  shows "wyoming_piper_speaker_id stray (Some p) (Some name) =
    (case map_of kvs name of Some v \<Rightarrow> item_int P v | None \<Rightarrow> -1)"
proof -
  have "map_of (zip (map (\<lambda>(k, v). strdup P k) kvs) (map (\<lambda>(k, v). item_int P v) kvs)) (Some name) =
      map_option (item_int P) (map_of kvs name)"
    by (rule map_of_names) (use assms(1) in auto)
  with speaker_id_lookup [of p "map (\<lambda>(k, v). strdup P k) kvs" "map (\<lambda>(k, v). item_int P v) kvs" stray name] assms(2-4)
  show ?thesis by (simp split: option.split)
qed

lemma count_wraps:
  fixes n :: int
  assumes "2 ^ 31 \<le> n" and "n \<le> 2 ^ 32"
  shows "signed_take_bit 31 n \<le> 0"
proof -
  have "(2147483648 + n) mod 4294967296 = n - 2147483648" if "n < 2 ^ 32"
  proof -
    have "(2147483648 + n) mod 4294967296 = (n - 2147483648 + 4294967296) mod 4294967296" by simp
    also have "\<dots> = n - 2147483648"
      using assms(1) that by (simp only: mod_add_self2) (simp add: mod_pos_pos_trivial)
    finally show ?thesis .
  qed
  then show ?thesis
    using assms by (cases "n = 2 ^ 32") (auto simp: signed_take_bit_eq_take_bit_shift take_bit_eq_mod add.commute)
qed

text \<open>From 2^31 members on the count is not the number of members: up to 2^32 the map is not
  read, and of one member more the arrays hold a single entry, and the loop leaves them.\<close>

lemma too_many_speakers:
  assumes "cJSON_GetObjectItemCaseSensitive tree ''speaker_id_map'' = Some (cJSON_Object kvs)"
  shows "2 ^ 31 \<le> length kvs \<Longrightarrow> length kvs \<le> 2 ^ 32 \<Longrightarrow> read_speakers P tree p = Some p"
    and "length kvs = 2 ^ 32 + 1 \<Longrightarrow> malloc_ok P 8 \<Longrightarrow> malloc_ok P 4 \<Longrightarrow> read_speakers P tree p = None"
proof -
  have count: "cJSON_GetArraySize (Some (cJSON_Object kvs)) = signed_take_bit 31 (int (length kvs))"
    by (simp add: cJSON_GetArraySize_def)
  { assume "2 ^ 31 \<le> length kvs" "length kvs \<le> 2 ^ 32"
    then have "signed_take_bit 31 (int (length kvs)) \<le> 0" by (intro count_wraps) simp_all
    with assms count show "read_speakers P tree p = Some p" by (simp add: read_speakers_def Let_def) }
  assume "length kvs = 2 ^ 32 + 1" "malloc_ok P 8" "malloc_ok P 4"
  moreover have "signed_take_bit 31 (2 ^ 32 + 1 :: int) = 1" by (simp add: signed_take_bit_eq_take_bit_shift take_bit_eq_mod)
  ultimately show "read_speakers P tree p = None"
    using assms count by (simp add: read_speakers_def Let_def)
qed

text \<open>And of a voice that was loaded from such a file. The bridge counts the speakers by the
  member \<^verbatim>\<open>num_speakers\<close> alone; only if it says that there are several does the model hear
  which one is meant.\<close>

lemma loaded_speakers:
  assumes "wyoming_piper_create P L behind files (Some path) (Some espeak) = Some (Some p)"
    and "files (path @ ''.json'') = Some json" and "cJSON_Parse P json = Some tree"
    and "cJSON_GetObjectItemCaseSensitive (Some tree) ''speaker_id_map'' = Some (cJSON_Object kvs)" and "kvs \<noteq> []"
    and "length kvs < 2 ^ 31" and "malloc_ok P (length kvs * 8)" and "malloc_ok P (length kvs * 4)"
  shows "speakers_ok p" and "pp_num_speakers p = int (length kvs)"
    and "pp_speaker_names p = Some (map (\<lambda>(k, v). strdup P k) kvs)"
    and "pp_speaker_ids p = Some (map (\<lambda>(k, v). item_int P v) kvs)"
    and "\<exists>s. pp_synth p = Some s \<and> syn_speakers s = config_int P (Some tree) ''num_speakers'' 0"
proof -
  from assms(1) obtain json' tree' q s where json: "files (path @ ''.json'') = Some json'" "cJSON_Parse P json' = Some tree'"
    and q: "read_settings P (Some tree') piper_zero = Some q"
    and p: "p = q\<lparr>pp_voice_name := extract_stem P path, pp_synth := Some s\<rparr>"
      "s = (apply_config P behind tree' (new_synthesizer L))
        \<lparr>syn_intersperse := True, syn_model := Some path, syn_voice_name := directory_name P path, syn_ready := True\<rparr>"
    by (rule piper_create_loaded) blast
  have tree: "tree' = tree" using json assms(2,3) by simp
  with q speakers_of_settings [of "Some tree", OF assms(4-8)]
  obtain q0 where "q = q0\<lparr>pp_speaker_names := Some (map (\<lambda>(k, v). strdup P k) kvs),
     pp_speaker_ids := Some (map (\<lambda>(k, v). item_int P v) kvs), pp_num_speakers := int (length kvs)\<rparr>"
    by (auto simp: read_settings_def Let_def)
  then show "speakers_ok p" and "pp_num_speakers p = int (length kvs)"
    and "pp_speaker_names p = Some (map (\<lambda>(k, v). strdup P k) kvs)"
    and "pp_speaker_ids p = Some (map (\<lambda>(k, v). item_int P v) kvs)"
    by (simp_all add: p speakers_ok_def)
  show "\<exists>s. pp_synth p = Some s \<and> syn_speakers s = config_int P (Some tree) ''num_speakers'' 0"
    by (simp add: p tree apply_config_def new_synthesizer_def Let_def)
qed

lemma speaker_options_lookup:
  assumes "1 < pp_num_speakers p" and "wyoming_piper_speaker_id stray (Some p) (Some name) = sid" and "0 \<le> sid"
  shows "op_speaker (speaker_options stray p (Some name)) = sid"
  using assms by (simp add: speaker_options_def Let_def)

text \<open>If only the second array cannot be allocated, the count of the file remains, and may be
  beyond the first array: the next search by name reads outside it, and so does the end.\<close>

lemma speakers_overrun:
  assumes "cJSON_GetObjectItemCaseSensitive tree ''speaker_id_map'' = Some (cJSON_Object kvs)" and "kvs \<noteq> []"
    and "length kvs < 2 ^ 31" and "malloc_ok P (length kvs * 8)" and "\<not> malloc_ok P (length kvs * 4)"
    and "int (length kvs) < pp_num_speakers p"
  shows "\<exists>q. read_speakers P tree p = Some q \<and>
    wyoming_piper_speaker_id stray (Some q) (Some name) = stray \<and> wyoming_piper_destroy (Some q) = None"
proof -
  have scan: "speaker_scan stray (replicate n None) ids name i k = stray" if "i \<le> n" "n < i + k" for n ids i k
    using that by (induction k arbitrary: i) auto
  have "cJSON_GetArraySize (Some (cJSON_Object kvs)) = int (length kvs)"
    using cJSON_GetArraySize_small [of "cJSON_Object kvs"] assms(3) by simp
  then have "read_speakers P tree p =
      Some (p\<lparr>pp_speaker_names := Some (replicate (length kvs) None), pp_speaker_ids := None\<rparr>)"
    using assms(1,2,4,5) by (simp add: read_speakers_def Let_def)
  then show ?thesis
    using assms(6) by (simp add: wyoming_piper_speaker_id_def wyoming_piper_destroy_def scan Let_def)
qed

end
