(* ===== verification/Wy_Sherpa.thy ===== *)
theory Wy_Sherpa
  imports C_Float C_Path Wy_Registry
begin

text \<open>
  The Sherpa-ONNX recogniser: \<^verbatim>\<open>src/sherpa.c\<close>. The recogniser itself is a third-party
  library; its calls are arguments, functions of the library's own world \<open>'e\<close>. The engine
  record keeps that world together with a ledger: streams and results of the library that are
  alive, and memory blocks of this file.
\<close>

subsection \<open>The library\<close>

text \<open>The calls on a recogniser, offline or online; a stream is a number. \<open>sa_result\<close> is
  \<open>None\<close> for a NULL result, and its text may be NULL too.\<close>

record 'e asr_api =
  sa_create :: "'e \<Rightarrow> nat option \<times> 'e"
  sa_accept :: "nat \<Rightarrow> int \<Rightarrow> double list \<Rightarrow> int \<Rightarrow> 'e \<Rightarrow> 'e"
  sa_finish :: "nat \<Rightarrow> 'e \<Rightarrow> 'e"
  sa_ready :: "nat \<Rightarrow> 'e \<Rightarrow> bool"
  sa_decode :: "nat \<Rightarrow> 'e \<Rightarrow> 'e"
  sa_result :: "nat \<Rightarrow> 'e \<Rightarrow> string option option \<times> 'e"
  sa_destroy :: "nat \<Rightarrow> 'e \<Rightarrow> 'e"

record 'e engine =
  en_world :: 'e
  en_streams :: int
  en_results :: int
  en_blocks :: int

definition in_world :: "('e \<Rightarrow> 'e) \<Rightarrow> 'e engine \<Rightarrow> 'e engine" where
  "in_world f en = en\<lparr>en_world := f (en_world en)\<rparr>"

definition count_blocks :: "int \<Rightarrow> 'e engine \<Rightarrow> 'e engine" where
  "count_blocks k en = en\<lparr>en_blocks := en_blocks en + k\<rparr>"

definition create_stream :: "'e asr_api \<Rightarrow> 'e engine \<Rightarrow> nat option \<times> 'e engine" where
  "create_stream A en =
     (case sa_create A (en_world en) of
        (None, w) \<Rightarrow> (None, en\<lparr>en_world := w\<rparr>)
      | (Some st, w) \<Rightarrow> (Some st, en\<lparr>en_world := w, en_streams := en_streams en + 1\<rparr>))"

definition destroy_stream :: "'e asr_api \<Rightarrow> nat \<Rightarrow> 'e engine \<Rightarrow> 'e engine" where
  "destroy_stream A st en =
     en\<lparr>en_world := sa_destroy A st (en_world en), en_streams := en_streams en - 1\<rparr>"

text \<open>A result is fetched, its text copied if there is any, and the result destroyed. The text
  is \<open>Some None\<close> when the copy fails.\<close>

definition get_result :: "'e asr_api \<Rightarrow> nat \<Rightarrow> 'e engine \<Rightarrow> string option option \<times> 'e engine" where
  "get_result A st en =
     (case sa_result A st (en_world en) of
        (r, w) \<Rightarrow> (r, en\<lparr>en_world := w,
                         en_results := en_results en + (if r = None then 0 else 1)\<rparr>))"

definition destroy_result :: "string option option \<Rightarrow> 'e engine \<Rightarrow> 'e engine" where
  "destroy_result r en = en\<lparr>en_results := en_results en - (if r = None then 0 else 1)\<rparr>"

fun spoken :: "string option option \<Rightarrow> string option" where
  "spoken (Some (Some t)) = (if t = [] then None else Some t)"
| "spoken _ = None"

text \<open>The loop \<^verbatim>\<open>while (ready) decode\<close>; it returns if the library says so.\<close>

partial_function (option) decode_all :: "'e asr_api \<Rightarrow> nat \<Rightarrow> 'e \<Rightarrow> 'e option" where
  "decode_all A st w = (if sa_ready A st w then decode_all A st (sa_decode A st w) else Some w)"

definition decode_ready :: "'e asr_api \<Rightarrow> nat \<Rightarrow> 'e engine \<Rightarrow> 'e engine option" where
  "decode_ready A st en = map_option (\<lambda>w. en\<lparr>en_world := w\<rparr>) (decode_all A st (en_world en))"

subsection \<open>Samples\<close>

text \<open>\<^verbatim>\<open>int16_to_float\<close>; a \<^verbatim>\<open>float\<close> has four bytes. The count that goes to the library
  is cut to 32 bits.\<close>

definition int16_to_float :: "platform \<Rightarrow> sample list \<Rightarrow> double list option" where
  "int16_to_float P zs = (if malloc_ok P (length zs * 4) then Some (map sample_to_float zs) else None)"

definition int32_count :: "sample list \<Rightarrow> int" where
  "int32_count zs = signed_take_bit 31 (int (length zs))"

subsection \<open>The recogniser object\<close>

record sherpa =
  sh_is_streaming :: bool
  sh_offline :: bool
  sh_online :: bool
  sh_model_name :: string
  sh_language :: string
  sh_sample_rate :: int
  sh_num_threads :: int

text \<open>The library's configuration: what is always the same but for the directory, and the model.
  \<open>as_endpoint\<close>: the three rules that end an utterance, for a streaming recogniser.\<close>

record asr_settings =
  as_sample_rate :: int
  as_feature_dim :: int
  as_decoding_method :: string
  as_num_threads :: int
  as_provider :: string
  as_debug :: bool
  as_tokens :: string
  as_endpoint :: "double list option"

datatype offline_model =
    Whisper string string "string option" int
  | Paraformer string
  | Nemo_Ctc string
  | Sense_Voice string "string option"

datatype online_model =
    Transducer string string string
  | Online_Paraformer string string
  | Online_Nemo_Ctc string

definition in_dir :: "string \<Rightarrow> string \<Rightarrow> string" where
  "in_dir dir name = snprintf_s 512 (dir @ name)"

definition offline_settings :: "string \<Rightarrow> asr_settings" where
  "offline_settings dir =
     \<lparr>as_sample_rate = 16000, as_feature_dim = 80, as_decoding_method = ''greedy_search'', as_num_threads = 4,
      as_provider = ''cpu'', as_debug = False, as_tokens = in_dir dir ''/tokens.txt'', as_endpoint = None\<rparr>"

definition online_settings :: "string \<Rightarrow> asr_settings" where
  "online_settings dir =
     (offline_settings dir)\<lparr>as_endpoint := Some [to_float (24 / 10), to_float (12 / 10), to_float 20]\<rparr>"

definition set_language :: "string option \<Rightarrow> string option" where
  "set_language language = (case language of Some l \<Rightarrow> if l = [] then None else Some l | None \<Rightarrow> None)"

definition offline_model_of :: "string \<Rightarrow> string option \<Rightarrow> string option \<Rightarrow> offline_model option" where
  "offline_model_of dir type language =
     (if type = None \<or> type = Some ''whisper''
      then Some (Whisper (in_dir dir ''/encoder.onnx'') (in_dir dir ''/decoder.onnx'')
                   (set_language language) 800)
      else if type = Some ''paraformer'' then Some (Paraformer (in_dir dir ''/model.onnx''))
      else if type = Some ''nemo_ctc'' then Some (Nemo_Ctc (in_dir dir ''/model.onnx''))
      else if type = Some ''sense_voice''
      then Some (Sense_Voice (in_dir dir ''/model.onnx'') (set_language language))
      else None)"

definition online_model_of :: "string \<Rightarrow> string option \<Rightarrow> online_model option" where
  "online_model_of dir type =
     (if type = None \<or> type = Some ''zipformer''
      then Some (Transducer (in_dir dir ''/encoder.onnx'') (in_dir dir ''/decoder.onnx'') (in_dir dir ''/joiner.onnx''))
      else if type = Some ''paraformer''
      then Some (Online_Paraformer (in_dir dir ''/encoder.onnx'') (in_dir dir ''/decoder.onnx''))
      else if type = Some ''nemo_ctc'' then Some (Online_Nemo_Ctc (in_dir dir ''/model.onnx''))
      else None)"

abbreviation sizeof_sherpa :: nat where "sizeof_sherpa \<equiv> 176"

text \<open>\<open>load\<close> is the library's constructor, given the settings and the model.\<close>

definition wyoming_sherpa_create ::
  "platform \<Rightarrow> (asr_settings \<Rightarrow> offline_model \<Rightarrow> bool) \<Rightarrow> string option \<Rightarrow> string option \<Rightarrow> string option \<Rightarrow>
     sherpa option" where
  "wyoming_sherpa_create P load model_dir type language =
     (case model_dir of
        None \<Rightarrow> None
      | Some dir \<Rightarrow>
          if \<not> malloc_ok P sizeof_sherpa then None
          else (case offline_model_of dir type language of
                  None \<Rightarrow> None
                | Some m \<Rightarrow>
                    if load (offline_settings dir) m
                    then Some \<lparr>sh_is_streaming = False, sh_offline = True, sh_online = False,
                               sh_model_name = snprintf_s 128 (path_basename (Some dir)),
                               sh_language = snprintf_s 16 (case language of Some l \<Rightarrow> l | None \<Rightarrow> []),
                               sh_sample_rate = 16000, sh_num_threads = 4\<rparr>
                    else None))"

definition wyoming_sherpa_create_streaming ::
  "platform \<Rightarrow> (asr_settings \<Rightarrow> online_model \<Rightarrow> bool) \<Rightarrow> string option \<Rightarrow> string option \<Rightarrow> string option \<Rightarrow>
     sherpa option" where
  "wyoming_sherpa_create_streaming P load model_dir type language =
     (case model_dir of
        None \<Rightarrow> None
      | Some dir \<Rightarrow>
          if \<not> malloc_ok P sizeof_sherpa then None
          else (case online_model_of dir type of
                  None \<Rightarrow> None
                | Some m \<Rightarrow>
                    if load (online_settings dir) m
                    then Some \<lparr>sh_is_streaming = True, sh_offline = False, sh_online = True,
                               sh_model_name = snprintf_s 128 (path_basename (Some dir)),
                               sh_language = snprintf_s 16 (case language of Some l \<Rightarrow> l | None \<Rightarrow> []),
                               sh_sample_rate = 16000, sh_num_threads = 4\<rparr>
                    else None))"

text \<open>What the server program asks.\<close>

definition wyoming_sherpa_model_name :: "sherpa option \<Rightarrow> string option" where
  "wyoming_sherpa_model_name s = map_option sh_model_name s"

definition wyoming_sherpa_language :: "sherpa option \<Rightarrow> string option" where
  "wyoming_sherpa_language s = map_option sh_language s"

definition wyoming_sherpa_sample_rate :: "sherpa option \<Rightarrow> int" where
  "wyoming_sherpa_sample_rate s = (case s of None \<Rightarrow> 0 | Some s \<Rightarrow> sh_sample_rate s)"

definition wyoming_sherpa_is_streaming :: "sherpa option \<Rightarrow> bool" where
  "wyoming_sherpa_is_streaming s = (case s of None \<Rightarrow> False | Some s \<Rightarrow> sh_is_streaming s)"

text \<open>Giving the engine back, as an account of recognisers and heap blocks. It settles exactly
  what either constructor left behind: the struct and one recogniser.\<close>

record sherpa_account =
  sc_recognisers :: int
  sc_blocks :: int

definition wyoming_sherpa_destroy :: "sherpa option \<Rightarrow> sherpa_account \<Rightarrow> sherpa_account" where
  "wyoming_sherpa_destroy s a =
     (case s of
        None \<Rightarrow> a
      | Some s \<Rightarrow>
          let a = (if sh_offline s then a\<lparr>sc_recognisers := sc_recognisers a - 1\<rparr> else a);
              a = (if sh_online s then a\<lparr>sc_recognisers := sc_recognisers a - 1\<rparr> else a)
          in a\<lparr>sc_blocks := sc_blocks a - 1\<rparr>)"

lemma sherpa_destroy_settles:
  assumes "s = wyoming_sherpa_create P load dir type language \<or>
      s = wyoming_sherpa_create_streaming P load' dir type language"
  shows "wyoming_sherpa_destroy s a =
    (if s = None then a else \<lparr>sc_recognisers = sc_recognisers a - 1, sc_blocks = sc_blocks a - 1\<rparr>)"
  using assms
  by (cases a) (auto simp: wyoming_sherpa_destroy_def wyoming_sherpa_create_def
      wyoming_sherpa_create_streaming_def Let_def split: option.splits if_splits)

subsection \<open>Batch recognition\<close>

text \<open>What ends both batch functions: the text, if any, and the stream destroyed.\<close>

definition finish_batch ::
  "platform \<Rightarrow> 'e asr_api \<Rightarrow> nat \<Rightarrow> 'e engine \<Rightarrow> (wyoming_error \<times> string option) \<times> 'e engine" where
  "finish_batch P A st en =
     (case get_result A st en of
        (r, en) \<Rightarrow>
          let out = (case spoken r of Some t \<Rightarrow> strdup P t | None \<Rightarrow> None);
              en = count_blocks (if out = None then 0 else 1) en;
              en = destroy_stream A st (destroy_result r en)
          in ((if out = None then WYOMING_ERR_PROTO else WYOMING_OK, out), en))"

definition sherpa_batch_offline ::
  "platform \<Rightarrow> 'e asr_api \<Rightarrow> double list \<Rightarrow> int \<Rightarrow> int \<Rightarrow> 'e engine \<Rightarrow>
     (wyoming_error \<times> string option) \<times> 'e engine" where
  "sherpa_batch_offline P A fs n sr en =
     (case create_stream A en of
        (None, en) \<Rightarrow> ((WYOMING_ERR_PROTO, None), en)
      | (Some st, en) \<Rightarrow>
          finish_batch P A st (in_world (sa_decode A st) (in_world (sa_accept A st sr fs n) en)))"

definition sherpa_batch_via_online ::
  "platform \<Rightarrow> 'e asr_api \<Rightarrow> double list \<Rightarrow> int \<Rightarrow> int \<Rightarrow> 'e engine \<Rightarrow>
     ((wyoming_error \<times> string option) \<times> 'e engine) option" where
  "sherpa_batch_via_online P A fs n sr en =
     (case create_stream A en of
        (None, en) \<Rightarrow> Some ((WYOMING_ERR_PROTO, None), en)
      | (Some st, en) \<Rightarrow>
          map_option (finish_batch P A st)
            (decode_ready A st (in_world (sa_finish A st) (in_world (sa_accept A st sr fs n) en))))"

text \<open>The language of the call is ignored. \<open>None\<close>: the decoding loop does not end.\<close>

definition sherpa_batch_asr ::
  "platform \<Rightarrow> 'e asr_api \<Rightarrow> 'e asr_api \<Rightarrow> sherpa option \<Rightarrow> sample list option \<Rightarrow> audio_format \<Rightarrow>
     string option \<Rightarrow> 'e engine \<Rightarrow> ((wyoming_error \<times> string option) \<times> 'e engine) option" where
  "sherpa_batch_asr P off on s audio fmt language en =
     (case (s, audio) of
        (Some s, Some zs) \<Rightarrow>
          if zs = [] \<or> \<not> sh_offline s \<and> \<not> sh_online s then Some ((WYOMING_ERR_INVAL, None), en)
          else (case int16_to_float P zs of
                  None \<Rightarrow> Some ((WYOMING_ERR_NOMEM, None), en)
                | Some fs \<Rightarrow>
                    map_option (map_prod id (count_blocks (- 1)))
                      (let en = count_blocks 1 en
                       in if sh_offline s
                          then Some (sherpa_batch_offline P off fs (int32_count zs) (rate fmt) en)
                          else sherpa_batch_via_online P on fs (int32_count zs) (rate fmt) en))
      | _ \<Rightarrow> Some ((WYOMING_ERR_INVAL, None), en))"

subsection \<open>Streaming recognition\<close>

text \<open>\<^verbatim>\<open>sherpa_stream_ctx_t\<close>.\<close>

record stream_ctx =
  cx_stream :: nat
  cx_sample_rate :: int

abbreviation sizeof_stream_ctx :: nat where "sizeof_stream_ctx \<equiv> 24"

definition sherpa_stream_create ::
  "platform \<Rightarrow> 'e asr_api \<Rightarrow> sherpa option \<Rightarrow> audio_format option \<Rightarrow> string option \<Rightarrow> 'e engine \<Rightarrow>
     stream_ctx option \<times> 'e engine" where
  "sherpa_stream_create P A s fmt language en =
     (case s of
        None \<Rightarrow> (None, en)
      | Some s \<Rightarrow>
          if \<not> sh_online s then (None, en)
          else (case create_stream A en of
                  (None, en) \<Rightarrow> (None, en)
                | (Some st, en) \<Rightarrow>
                    if \<not> malloc_ok P sizeof_stream_ctx then (None, destroy_stream A st en)
                    else (Some \<lparr>cx_stream = st,
                                cx_sample_rate = (case fmt of Some f \<Rightarrow> rate f | None \<Rightarrow> 16000)\<rparr>,
                          count_blocks 1 en)))"

text \<open>The current text of a stream; \<open>old\<close> is freed when a new one replaces it.\<close>

definition current_text ::
  "platform \<Rightarrow> 'e asr_api \<Rightarrow> nat \<Rightarrow> string option \<Rightarrow> 'e engine \<Rightarrow> string option \<times> 'e engine" where
  "current_text P A st old en =
     (case get_result A st en of
        (r, en) \<Rightarrow>
          (case spoken r of
             None \<Rightarrow> (old, destroy_result r en)
           | Some t \<Rightarrow>
               let out = strdup P t
               in (out, destroy_result r
                     (count_blocks ((if out = None then 0 else 1) - (if old = None then 0 else 1)) en))))"

text \<open>The samples of a call: NULL or none are skipped. The result is the text so far, or
  \<open>Inl\<close> an error.\<close>

definition take_samples ::
  "platform \<Rightarrow> 'e asr_api \<Rightarrow> stream_ctx \<Rightarrow> sample list option \<Rightarrow> 'e engine \<Rightarrow>
     ((wyoming_error + string option) \<times> 'e engine) option" where
  "take_samples P A cx audio en =
     (case audio of
        None \<Rightarrow> Some (Inr None, en)
      | Some zs \<Rightarrow>
          if zs = [] then Some (Inr None, en)
          else (case int16_to_float P zs of
                  None \<Rightarrow> Some (Inl WYOMING_ERR_NOMEM, en)
                | Some fs \<Rightarrow>
                    let en = count_blocks 1 en;
                        en = in_world (sa_accept A (cx_stream cx) (cx_sample_rate cx) fs (int32_count zs)) en;
                        en = count_blocks (- 1) en
                    in map_option (\<lambda>en. map_prod Inr id (current_text P A (cx_stream cx) None en))
                         (decode_ready A (cx_stream cx) en)))"

definition sherpa_stream_process ::
  "platform \<Rightarrow> 'e asr_api \<Rightarrow> stream_ctx option \<Rightarrow> sample list option \<Rightarrow> audio_format \<Rightarrow> bool \<Rightarrow>
     'e engine \<Rightarrow> ((wyoming_error \<times> string option) \<times> 'e engine) option" where
  "sherpa_stream_process P A ctx audio fmt is_final en =
     (case ctx of
        None \<Rightarrow> Some ((WYOMING_ERR_INVAL, None), en)
      | Some cx \<Rightarrow>
          (case take_samples P A cx audio en of
             None \<Rightarrow> None
           | Some (Inl rc, en) \<Rightarrow> Some ((rc, None), en)
           | Some (Inr out, en) \<Rightarrow>
               if \<not> is_final then Some ((WYOMING_OK, out), en)
               else map_option (\<lambda>en. map_prod (Pair WYOMING_OK) id (current_text P A (cx_stream cx) out en))
                      (decode_ready A (cx_stream cx) (in_world (sa_finish A (cx_stream cx)) en))))"

definition sherpa_stream_destroy :: "'e asr_api \<Rightarrow> stream_ctx option \<Rightarrow> 'e engine \<Rightarrow> 'e engine" where
  "sherpa_stream_destroy A ctx en =
     (case ctx of None \<Rightarrow> en | Some cx \<Rightarrow> count_blocks (- 1) (destroy_stream A (cx_stream cx) en))"

subsection \<open>Decoding ends\<close>

text \<open>What the library documents: a stream is ready while it has enough frames left, and decoding
  uses frames up. Then the loops of this file end.\<close>

definition decoding_ends :: "'e asr_api \<Rightarrow> ('e \<Rightarrow> nat) \<Rightarrow> bool" where
  "decoding_ends A frames_left \<longleftrightarrow>
     (\<forall>st w. sa_ready A st w \<longrightarrow> frames_left (sa_decode A st w) < frames_left w)"

lemma decode_all_ends:
  assumes "decoding_ends A frames_left"
  shows "\<exists>w'. decode_all A st w = Some w' \<and> \<not> sa_ready A st w'"
proof (induction "frames_left w" arbitrary: w rule: less_induct)
  case less
  show ?case
  proof (cases "sa_ready A st w")
    case True
    with assms have "frames_left (sa_decode A st w) < frames_left w" by (simp add: decoding_ends_def)
    from less.hyps [OF this] True show ?thesis by (subst decode_all.simps) simp
  next
    case False
    then show ?thesis by (subst decode_all.simps) simp
  qed
qed

text \<open>\<open>owes k en en'\<close>: the same streams and results are alive, and \<open>k\<close> blocks more.\<close>

definition owes :: "int \<Rightarrow> 'e engine \<Rightarrow> 'e engine \<Rightarrow> bool" where
  "owes k en en' \<longleftrightarrow>
     en_streams en' = en_streams en \<and> en_results en' = en_results en \<and> en_blocks en' = en_blocks en + k"

definition held :: "'a option \<Rightarrow> int" where
  "held x = (if x = None then 0 else 1)"

lemma owes_refl [simp]: "owes 0 en en"
  by (simp add: owes_def)

lemma owes_trans: "owes j en en1 \<Longrightarrow> owes k en1 en2 \<Longrightarrow> j + k = n \<Longrightarrow> owes n en en2"
  by (auto simp: owes_def)

lemma in_world_owes [simp]: "owes 0 en (in_world f en)"
  by (simp add: owes_def in_world_def)

lemma decode_ready_ends:
  assumes "decoding_ends A frames_left"
  obtains en' where "decode_ready A st en = Some en'" and "owes 0 en en'"
proof -
  obtain w where w: "decode_all A st (en_world en) = Some w" using decode_all_ends [OF assms] by blast
  have "owes 0 en (en\<lparr>en_world := w\<rparr>)" by (simp add: owes_def)
  with w that show ?thesis by (simp add: decode_ready_def)
qed

subsection \<open>Batch calls\<close>

lemma finish_batch_owes:
  assumes "finish_batch P A st en1 = ((rc, out), en')"
    and "en_streams en1 = en_streams en + 1" and "en_results en1 = en_results en" and "en_blocks en1 = en_blocks en + 1"
  shows "owes (held out) en (count_blocks (- 1) en') \<and> rc = (if out = None then WYOMING_ERR_PROTO else WYOMING_OK)"
  using assms
  by (auto simp: finish_batch_def get_result_def destroy_result_def destroy_stream_def count_blocks_def
      owes_def held_def Let_def split: prod.splits)

lemma create_stream_cases:
  obtains (none) en1 where "create_stream A en = (None, en1)" and "owes 0 en en1"
  | (some) st en1 where "create_stream A en = (Some st, en1)" and "en_streams en1 = en_streams en + 1"
      and "en_results en1 = en_results en" and "en_blocks en1 = en_blocks en"
  by (cases "sa_create A (en_world en)"; cases "fst (sa_create A (en_world en))")
     (auto simp: create_stream_def owes_def)

lemma batch_offline_owes:
  "\<exists>rc out en'. sherpa_batch_offline P A fs n sr (count_blocks 1 en) = ((rc, out), en') \<and>
     owes (held out) en (count_blocks (- 1) en') \<and> (rc = WYOMING_OK \<longleftrightarrow> out \<noteq> None)"
proof (cases rule: create_stream_cases [of A "count_blocks 1 en"])
  case (none en1)
  then show ?thesis by (simp add: sherpa_batch_offline_def owes_def count_blocks_def held_def)
next
  case (some st en1)
  let ?en = "in_world (sa_decode A st) (in_world (sa_accept A st sr fs n) en1)"
  obtain rc out en' where f: "finish_batch P A st ?en = ((rc, out), en')" by (metis surj_pair)
  have "owes (held out) en (count_blocks (- 1) en') \<and> rc = (if out = None then WYOMING_ERR_PROTO else WYOMING_OK)"
    by (rule finish_batch_owes [OF f]) (use some in \<open>simp_all add: count_blocks_def in_world_def\<close>)
  with some f show ?thesis by (auto simp: sherpa_batch_offline_def)
qed

lemma batch_online_owes:
  assumes "decoding_ends A frames_left"
  shows "\<exists>rc out en'. sherpa_batch_via_online P A fs n sr (count_blocks 1 en) = Some ((rc, out), en') \<and>
     owes (held out) en (count_blocks (- 1) en') \<and> (rc = WYOMING_OK \<longleftrightarrow> out \<noteq> None)"
proof (cases rule: create_stream_cases [of A "count_blocks 1 en"])
  case (none en1)
  then show ?thesis by (simp add: sherpa_batch_via_online_def owes_def count_blocks_def held_def)
next
  case (some st en1)
  let ?en = "in_world (sa_finish A st) (in_world (sa_accept A st sr fs n) en1)"
  obtain en2 where d: "decode_ready A st ?en = Some en2" "owes 0 ?en en2"
    by (rule decode_ready_ends [OF assms])
  obtain rc out en' where f: "finish_batch P A st en2 = ((rc, out), en')" by (metis surj_pair)
  have "owes (held out) en (count_blocks (- 1) en') \<and> rc = (if out = None then WYOMING_ERR_PROTO else WYOMING_OK)"
    by (rule finish_batch_owes [OF f]) (use some d(2) in \<open>simp_all add: count_blocks_def in_world_def owes_def\<close>)
  with some d(1) f show ?thesis by (auto simp: sherpa_batch_via_online_def)
qed

text \<open>A batch call returns, with a text or an error, and owes nothing but the text.\<close>

lemma sherpa_batch_clean:
  assumes "decoding_ends on frames_left"
  shows "\<exists>rc out en'. sherpa_batch_asr P off on s audio fmt language en = Some ((rc, out), en') \<and>
    owes (held out) en en' \<and> (rc = WYOMING_OK \<longleftrightarrow> out \<noteq> None)"
proof (cases "\<exists>s' zs. s = Some s' \<and> audio = Some zs \<and> zs \<noteq> [] \<and> (sh_offline s' \<or> sh_online s')")
  case False
  then have "sherpa_batch_asr P off on s audio fmt language en = Some ((WYOMING_ERR_INVAL, None), en)"
    by (auto simp: sherpa_batch_asr_def split: option.split)
  then show ?thesis by (simp add: held_def)
next
  case True
  then obtain s' zs where s: "s = Some s'" "audio = Some zs" "zs \<noteq> []" "sh_offline s' \<or> sh_online s'" by blast
  show ?thesis
  proof (cases "int16_to_float P zs")
    case None
    with s show ?thesis by (simp add: sherpa_batch_asr_def held_def)
  next
    case (Some fs)
    show ?thesis
    proof (cases "sh_offline s'")
      case True
      with s Some batch_offline_owes [of P off fs "int32_count zs" "rate fmt" en] show ?thesis
        by (auto simp: sherpa_batch_asr_def)
    next
      case False
      with s Some batch_online_owes [OF assms, of P fs "int32_count zs" "rate fmt" en] show ?thesis
        by (auto simp: sherpa_batch_asr_def)
    qed
  qed
qed

subsection \<open>Streams\<close>

text \<open>A stream as the server uses it: created, fed one segment after the other, finished,
  destroyed. The texts are the caller's.\<close>

fun feed_all ::
  "platform \<Rightarrow> 'e asr_api \<Rightarrow> stream_ctx \<Rightarrow> sample list list \<Rightarrow> audio_format \<Rightarrow> 'e engine \<Rightarrow>
     (string option list \<times> 'e engine) option" where
  "feed_all P A cx [] fmt en = Some ([], en)"
| "feed_all P A cx (zs # zss) fmt en =
     (case sherpa_stream_process P A (Some cx) (Some zs) fmt False en of
        None \<Rightarrow> None
      | Some ((rc, out), en) \<Rightarrow>
          map_option (\<lambda>(outs, en). (out # outs, en)) (feed_all P A cx zss fmt en))"

definition sherpa_session ::
  "platform \<Rightarrow> 'e asr_api \<Rightarrow> sherpa option \<Rightarrow> audio_format \<Rightarrow> sample list list \<Rightarrow> 'e engine \<Rightarrow>
     (string option list \<times> 'e engine) option" where
  "sherpa_session P A s fmt zss en =
     (case sherpa_stream_create P A s (Some fmt) None en of
        (None, en) \<Rightarrow> Some ([], en)
      | (Some cx, en) \<Rightarrow>
          (case feed_all P A cx zss fmt en of
             None \<Rightarrow> None
           | Some (outs, en) \<Rightarrow>
               (case sherpa_stream_process P A (Some cx) None fmt True en of
                  None \<Rightarrow> None
                | Some ((rc, out), en) \<Rightarrow>
                    Some (outs @ [out], sherpa_stream_destroy A (Some cx) en))))"

lemma current_text_owes:
  assumes "current_text P A st old en = (out, en')"
  shows "owes (held out - held old) en en'"
  using assms
  by (auto simp: current_text_def get_result_def destroy_result_def count_blocks_def owes_def held_def Let_def
      split: prod.splits option.splits if_splits)

lemma take_samples_owes:
  assumes "decoding_ends A frames_left"
  shows "\<exists>r en'. take_samples P A cx audio en = Some (r, en') \<and>
    owes (case r of Inl _ \<Rightarrow> 0 | Inr out \<Rightarrow> held out) en en'"
proof -
  have fed: "\<exists>out en'. map_option (\<lambda>en. map_prod Inr id (current_text P A (cx_stream cx) None en))
      (decode_ready A (cx_stream cx) (in_world f en)) = Some (Inr out :: wyoming_error + string option, en') \<and> owes (held out) en en'" for f
  proof -
    obtain en2 where d: "decode_ready A (cx_stream cx) (in_world f en) = Some en2" "owes 0 (in_world f en) en2"
      by (rule decode_ready_ends [OF assms])
    obtain out en' where c: "current_text P A (cx_stream cx) None en2 = (out, en')" by force
    have "owes (held out) en en'"
      by (rule owes_trans [OF owes_trans [OF in_world_owes [of en f] d(2)] current_text_owes [OF c]])
         (simp_all add: held_def)
    with d(1) c show ?thesis by auto
  qed
  show ?thesis
  proof (cases "audio = None \<or> the audio = [] \<or> int16_to_float P (the audio) = None")
    case True
    then show ?thesis
      by (cases audio) (auto simp: take_samples_def held_def split: option.split)
  next
    case False
    then obtain zs fs where a: "audio = Some zs" "zs \<noteq> []" "int16_to_float P zs = Some fs" by auto
    obtain out en' where e: "map_option (\<lambda>en. map_prod Inr id (current_text P A (cx_stream cx) None en))
        (decode_ready A (cx_stream cx)
          (in_world (sa_accept A (cx_stream cx) (cx_sample_rate cx) fs (int32_count zs)) en)) = Some (Inr out :: wyoming_error + string option, en')"
      "owes (held out) en en'"
      using fed [of "sa_accept A (cx_stream cx) (cx_sample_rate cx) fs (int32_count zs)"] by blast
    have "count_blocks (- 1) (in_world f (count_blocks 1 en)) = in_world f en" for f
      by (simp add: count_blocks_def in_world_def)
    then have "take_samples P A cx audio en = Some (Inr out, en')"
      using e(1) by (simp only: take_samples_def a option.case if_False Let_def)
    with e(2) show ?thesis by fastforce
  qed
qed

lemma stream_process_owes:
  assumes "decoding_ends A frames_left"
  shows "\<exists>rc out en'. sherpa_stream_process P A (Some cx) audio fmt final en = Some ((rc, out), en') \<and>
    owes (held out) en en'"
proof -
  obtain r en1 where t: "take_samples P A cx audio en = Some (r, en1)"
    "owes (case r of Inl _ \<Rightarrow> 0 | Inr out \<Rightarrow> held out) en en1"
    using take_samples_owes [OF assms] by blast
  show ?thesis
  proof (cases r)
    case (Inl rc)
    with t show ?thesis by (auto simp: sherpa_stream_process_def held_def)
  next
    case (Inr old)
    obtain en2 where d: "decode_ready A (cx_stream cx) (in_world (sa_finish A (cx_stream cx)) en1) = Some en2"
      "owes 0 (in_world (sa_finish A (cx_stream cx)) en1) en2"
      by (rule decode_ready_ends [OF assms])
    obtain out en' where c: "current_text P A (cx_stream cx) old en2 = (out, en')" by force
    have "owes 0 en1 en2" by (rule owes_trans [OF in_world_owes d(2)]) simp
    from owes_trans [OF this current_text_owes [OF c] refl] t(2) Inr have "owes (held out) en en'"
      by (auto simp: owes_def)
    with t Inr d(1) c show ?thesis
      by (cases final) (auto simp: sherpa_stream_process_def)
  qed
qed

lemma feed_all_owes:
  assumes "decoding_ends A frames_left"
  shows "\<exists>outs en'. feed_all P A cx zss fmt en = Some (outs, en') \<and> length outs = length zss \<and>
    owes (sum_list (map held outs)) en en'"
proof (induction zss arbitrary: en)
  case (Cons zs zss)
  obtain rc out en1 where p: "sherpa_stream_process P A (Some cx) (Some zs) fmt False en = Some ((rc, out), en1)"
    "owes (held out) en en1"
    using stream_process_owes [OF assms] by blast
  obtain outs en' where r: "feed_all P A cx zss fmt en1 = Some (outs, en')" "length outs = length zss"
    "owes (sum_list (map held outs)) en1 en'"
    using Cons.IH by blast
  from owes_trans [OF p(2) r(3) refl] p(1) r(1,2) show ?case by simp
qed simp

text \<open>A whole session returns, and leaves the texts it gave and nothing else.\<close>

lemma sherpa_session_clean:
  assumes "decoding_ends A frames_left"
  shows "\<exists>outs en'. sherpa_session P A s fmt zss en = Some (outs, en') \<and>
    owes (sum_list (map held outs)) en en' \<and> (outs = [] \<or> length outs = Suc (length zss))"
proof -
  obtain c en1 where c: "sherpa_stream_create P A s (Some fmt) None en = (c, en1)" by force
  show ?thesis
  proof (cases c)
    case None
    with c have "owes 0 en en1"
      by (auto simp: sherpa_stream_create_def create_stream_def destroy_stream_def owes_def
          split: option.splits prod.splits if_splits)
    with c None show ?thesis by (simp add: sherpa_session_def)
  next
    case (Some cx)
    with c have created: "en_streams en1 = en_streams en + 1" "en_results en1 = en_results en"
      "en_blocks en1 = en_blocks en + 1"
      by (auto simp: sherpa_stream_create_def create_stream_def count_blocks_def
          split: option.splits prod.splits if_splits)
    obtain outs en2 where f: "feed_all P A cx zss fmt en1 = Some (outs, en2)" "length outs = length zss"
      "owes (sum_list (map held outs)) en1 en2"
      using feed_all_owes [OF assms] by blast
    obtain rc out en3 where p: "sherpa_stream_process P A (Some cx) None fmt True en2 = Some ((rc, out), en3)"
      "owes (held out) en2 en3"
      using stream_process_owes [OF assms] by blast
    have "sherpa_session P A s fmt zss en = Some (outs @ [out], sherpa_stream_destroy A (Some cx) en3)"
      using c Some f(1) p(1) by (simp add: sherpa_session_def)
    moreover have "owes (sum_list (map held (outs @ [out]))) en (sherpa_stream_destroy A (Some cx) en3)"
      using created f(3) p(2) by (simp add: owes_def sherpa_stream_destroy_def destroy_stream_def count_blocks_def)
    ultimately show ?thesis using f(2) by simp
  qed
qed

end
