(* ===== verification/Wy_Server.thy ===== *)
theory Wy_Server
  imports Wy_Registry
begin

text \<open>
  \<^verbatim>\<open>wyoming_server_create\<close> and \<^verbatim>\<open>wyoming_server_destroy\<close> of \<^verbatim>\<open>src/server.c\<close>: the
  descriptors and the memory a server owns, and the address it listens on; and the registration
  calls with the strings they take and free. The operating system's answers are a record; the
  process has a set of open descriptors and counts its heap blocks.
\<close>

subsection \<open>The system\<close>

text \<open>One field per call: the result it gives, \<^verbatim>\<open>None\<close> or \<^verbatim>\<open>False\<close> for a failure.
  \<open>sys_port\<close> is what \<^verbatim>\<open>getsockname\<close> reports after binding.\<close>

record system =
  sys_calloc :: bool
  sys_pipe :: "(int \<times> int) option"
  sys_socket :: "int option"
  sys_bind :: "32 word \<Rightarrow> 16 word \<Rightarrow> bool"
  sys_port :: "16 word option"
  sys_listen :: bool
  sys_getfl :: bool

record process =
  open_fds :: "int set"
  nonblocking :: "int set"
  blocks :: int

definition opened :: "int \<Rightarrow> process \<Rightarrow> process" where
  "opened fd p = p\<lparr>open_fds := insert fd (open_fds p)\<rparr>"

definition close_fd :: "int \<Rightarrow> process \<Rightarrow> process" where
  "close_fd fd p = p\<lparr>open_fds := open_fds p - {fd}, nonblocking := nonblocking p - {fd}\<rparr>"

definition set_nonblock :: "system \<Rightarrow> int \<Rightarrow> process \<Rightarrow> process" where
  "set_nonblock S fd p = (if sys_getfl S then p\<lparr>nonblocking := insert fd (nonblocking p)\<rparr> else p)"

definition allocated :: "int \<Rightarrow> process \<Rightarrow> process" where
  "allocated n p = p\<lparr>blocks := blocks p + n\<rparr>"

definition freed :: "int \<Rightarrow> process \<Rightarrow> process" where
  "freed n p = p\<lparr>blocks := blocks p - n\<rparr>"

subsection \<open>The bind address\<close>

text \<open>\<^verbatim>\<open>inet_pton(AF_INET, \<dots>)\<close> of the C library: four decimal numbers without leading zeros
  and below 256, separated by dots.\<close>

fun split_dots :: "string \<Rightarrow> string list" where
  "split_dots [] = [[]]"
| "split_dots (c # s) =
     (if c = CHR ''.'' then [] # split_dots s
      else (case split_dots s of p # ps \<Rightarrow> (c # p) # ps | [] \<Rightarrow> [[c]]))"

definition octet :: "string \<Rightarrow> nat option" where
  "octet s =
     (let n = nat (digits_val s)
      in if s \<noteq> [] \<and> list_all isdigit s \<and> (hd s = CHR ''0'' \<longrightarrow> tl s = []) \<and> n < 256
         then Some n else None)"

definition inet_pton :: "string \<Rightarrow> 32 word option" where
  "inet_pton s =
     (case map octet (split_dots s) of
        [Some a, Some b, Some c, Some d] \<Rightarrow> Some (of_nat (((a * 256 + b) * 256 + c) * 256 + d))
      | _ \<Rightarrow> None)"

abbreviation INADDR_ANY :: "32 word" where "INADDR_ANY \<equiv> 0"

text \<open>\<^verbatim>\<open>sin_addr\<close>, zero to begin with; the result of \<^verbatim>\<open>inet_pton\<close> is not looked at.\<close>

definition listen_address :: "string option \<Rightarrow> 32 word" where
  "listen_address bind_addr =
     (case bind_addr of
        None \<Rightarrow> INADDR_ANY
      | Some a \<Rightarrow> if a = ''0.0.0.0'' then INADDR_ANY
                  else (case inet_pton a of Some n \<Rightarrow> n | None \<Rightarrow> 0))"

subsection \<open>Create and destroy\<close>

text \<open>The descriptors of \<^verbatim>\<open>struct wyoming_server\<close>; what else it holds is \<open>host_server\<close>.
  The listening address is the kernel's, kept here to speak about it.\<close>

record ('u, 'c) server_handle =
  host_server :: "('u, 'c) server"
  listen_fd :: int
  stop_pipe :: "int \<times> int"
  epoll_fd :: int
  bound_addr :: "32 word"

definition close_both :: "int \<times> int \<Rightarrow> process \<Rightarrow> process" where
  "close_both fds p = close_fd (snd fds) (close_fd (fst fds) p)"

definition wyoming_server_create ::
  "system \<Rightarrow> string option \<Rightarrow> 16 word \<Rightarrow> process \<Rightarrow> ('u, 'c) server_handle option \<times> process" where
  "wyoming_server_create S bind_addr port p =
     (if \<not> sys_calloc S then (None, p)
      else let p = allocated 1 p
      in case sys_pipe S of
           None \<Rightarrow> (None, freed 1 p)
         | Some fds \<Rightarrow>
             let p = set_nonblock S (snd fds) (opened (snd fds) (opened (fst fds) p))
             in case sys_socket S of
                  None \<Rightarrow> (None, freed 1 (close_both fds p))
                | Some fd \<Rightarrow>
                    let p = opened fd p; addr = listen_address bind_addr
                    in if \<not> sys_bind S addr port then (None, freed 1 (close_both fds (close_fd fd p)))
                       else let srv = server_zero (case sys_port S of Some n \<Rightarrow> n | None \<Rightarrow> 0)
                       in if \<not> sys_listen S then (None, freed 1 (close_both fds (close_fd fd p)))
                          else (Some \<lparr>host_server = srv, listen_fd = fd, stop_pipe = fds, epoll_fd = -1,
                                      bound_addr = addr\<rparr>,
                                set_nonblock S fd p))"

subsection \<open>Registrations and their memory\<close>

text \<open>The registration functions of theory \<open>Wy_Registry\<close> once more, with the strings they copy
  and free. \<^verbatim>\<open>s ? strdup(s) : NULL\<close> takes a block if there is a string and memory for it;
  \<^verbatim>\<open>free\<close> ignores a NULL.\<close>

definition take_copy :: "platform \<Rightarrow> string option \<Rightarrow> process \<Rightarrow> string option \<times> process" where
  "take_copy P s p = (case strdup_opt P s of None \<Rightarrow> (None, p) | Some t \<Rightarrow> (Some t, allocated 1 p))"

definition free_string :: "string option \<Rightarrow> process \<Rightarrow> process" where
  "free_string s p = (case s of None \<Rightarrow> p | Some _ \<Rightarrow> freed 1 p)"

fun take_copies :: "platform \<Rightarrow> string list \<Rightarrow> process \<Rightarrow> string option list \<times> process" where
  "take_copies P [] p = ([], p)"
| "take_copies P (l # ls) p =
     (case take_copy P (Some l) p of (x, p) \<Rightarrow> case take_copies P ls p of (xs, p) \<Rightarrow> (x # xs, p))"

text \<open>Name, description and languages of a new voice or model.\<close>

definition take_entry ::
  "platform \<Rightarrow> string \<Rightarrow> string list option \<Rightarrow> string option \<Rightarrow> process \<Rightarrow>
     (string option \<times> string option list \<times> string option) \<times> process" where
  "take_entry P name languages description p =
     (let (n, p) = take_copy P (Some name) p;
          (d, p) = take_copy P description p;
          (ls, p) = take_copies P (case languages of None \<Rightarrow> [] | Some ls \<Rightarrow> take WYOMING_MAX_LANGS ls) p
      in ((n, ls, d), p))"

fun register_on ::
  "platform \<Rightarrow> ('u, 'c) server \<times> process \<Rightarrow> ('u, 'c) registration \<Rightarrow> ('u, 'c) server \<times> process" where
  "register_on P (srv, p) (Set_Tts fn name version) =
     (let (n, p) = take_copy P name (free_string (tts_name srv) p);
          (v, p) = take_copy P version (free_string (tts_version srv) p)
      in (srv\<lparr>tts_fn := fn, tts_name := n, tts_version := v\<rparr>, p))"
| "register_on P (srv, p) (Set_Asr fn name version) =
     (let (n, p) = take_copy P name (free_string (asr_name srv) p);
          (v, p) = take_copy P version (free_string (asr_version srv) p)
      in (srv\<lparr>asr_fn := fn, asr_name := n, asr_version := v\<rparr>, p))"
| "register_on P (srv, p) (Set_Streaming create process destroy) =
     (wyoming_server_set_asr_streaming srv create process destroy, p)"
| "register_on P (srv, p) (Add_Voice name languages description) =
     (case name of
        None \<Rightarrow> (srv, p)
      | Some s \<Rightarrow>
          if WYOMING_MAX_VOICES \<le> length (voices srv) then (srv, p)
          else let ((n, ls, d), p) = take_entry P s languages description p;
                   v = \<lparr>sv_name = n, sv_languages = ls, sv_description = d, sv_speakers = []\<rparr>
               in (srv\<lparr>voices := voices srv @ [v]\<rparr>, p))"
| "register_on P (srv, p) (Add_Speaker name) =
     (case name of
        None \<Rightarrow> (srv, p)
      | Some s \<Rightarrow>
          if voices srv = [] then (srv, p)
          else let v = last (voices srv)
               in if WYOMING_MAX_SPEAKERS \<le> length (sv_speakers v) then (srv, p)
                  else let (n, p) = take_copy P (Some s) p
                  in (srv\<lparr>voices := butlast (voices srv) @ [v\<lparr>sv_speakers := sv_speakers v @ [n]\<rparr>]\<rparr>, p))"
| "register_on P (srv, p) (Add_Model name languages description) =
     (case name of
        None \<Rightarrow> (srv, p)
      | Some s \<Rightarrow>
          if WYOMING_MAX_MODELS \<le> length (asr_models srv) then (srv, p)
          else let ((n, ls, d), p) = take_entry P s languages description p;
                   m = \<lparr>sm_name = n, sm_languages = ls, sm_description = d\<rparr>
               in (srv\<lparr>asr_models := asr_models srv @ [m]\<rparr>, p))"

subsection \<open>Destroying\<close>

definition close_if :: "int \<Rightarrow> process \<Rightarrow> process" where
  "close_if fd p = (if 0 \<le> fd then close_fd fd p else p)"

definition free_voice :: "server_voice \<Rightarrow> process \<Rightarrow> process" where
  "free_voice v p =
     fold free_string (sv_speakers v) (fold free_string (sv_languages v)
       (free_string (sv_description v) (free_string (sv_name v) p)))"

definition free_model :: "server_model \<Rightarrow> process \<Rightarrow> process" where
  "free_model m p =
     fold free_string (sm_languages m) (free_string (sm_description m) (free_string (sm_name m) p))"

definition wyoming_server_destroy :: "('u, 'c) server_handle option \<Rightarrow> process \<Rightarrow> process" where
  "wyoming_server_destroy h p =
     (case h of
        None \<Rightarrow> p
      | Some h \<Rightarrow>
          let srv = host_server h;
              p = close_if (epoll_fd h) (close_if (snd (stop_pipe h)) (close_if (fst (stop_pipe h))
                    (close_if (listen_fd h) p)));
              p = free_string (asr_version srv) (free_string (asr_name srv)
                    (free_string (tts_version srv) (free_string (tts_name srv) p)));
              p = fold free_voice (voices srv) p;
              p = fold free_model (asr_models srv) p
          in freed 1 p)"

subsection \<open>What the system promises\<close>

text \<open>New descriptors are not open yet and not negative, and the two ends of a pipe differ.\<close>

definition new_fd :: "int \<Rightarrow> process \<Rightarrow> bool" where
  "new_fd fd p \<longleftrightarrow> 0 \<le> fd \<and> fd \<notin> open_fds p \<and> fd \<notin> nonblocking p"

definition system_ok :: "system \<Rightarrow> process \<Rightarrow> bool" where
  "system_ok S p \<longleftrightarrow>
     (case sys_pipe S of
        None \<Rightarrow> True
      | Some (r, w) \<Rightarrow> new_fd r p \<and> new_fd w p \<and> r \<noteq> w \<and>
          (case sys_socket S of None \<Rightarrow> True | Some fd \<Rightarrow> new_fd fd p \<and> fd \<noteq> r \<and> fd \<noteq> w))"

lemmas process_steps =
  opened_def close_fd_def set_nonblock_def allocated_def freed_def close_both_def close_if_def

text \<open>A failed creation leaves the process as it was, whatever failed; a server that was
  created owns three new descriptors and one block.\<close>

lemma close_undoes_pipe:
  "new_fd r p \<Longrightarrow> new_fd w p \<Longrightarrow>
     freed 1 (close_both (r, w) (set_nonblock S w (opened w (opened r (allocated 1 p))))) = p"
  by (cases p) (auto simp: process_steps new_fd_def)

lemma close_undoes_socket:
  "new_fd fd p \<Longrightarrow> new_fd r p \<Longrightarrow> new_fd w p \<Longrightarrow> fd \<noteq> r \<Longrightarrow> fd \<noteq> w \<Longrightarrow>
     close_fd fd (opened fd (set_nonblock S w (opened w (opened r (allocated 1 p))))) =
       set_nonblock S w (opened w (opened r (allocated 1 p)))"
  by (cases p) (auto simp: process_steps new_fd_def)

lemma create_fails:
  assumes "system_ok S p" and "wyoming_server_create S bind_addr port p = (None, p')"
  shows "p' = p"
proof -
  have freed: "freed 1 (allocated 1 p) = p" by (simp add: process_steps)
  show ?thesis
  proof (cases "sys_calloc S \<and> sys_pipe S \<noteq> None")
    case False
    then show ?thesis
      using assms(2) freed by (cases "sys_calloc S"; cases "sys_pipe S") (simp_all add: wyoming_server_create_def Let_def)
  next
    case True
    then obtain r w where c: "sys_calloc S" "sys_pipe S = Some (r, w)" by auto
    then have new: "new_fd r p" "new_fd w p"
      "sys_socket S = Some fd \<Longrightarrow> new_fd fd p \<and> fd \<noteq> r \<and> fd \<noteq> w" for fd
      using assms(1) by (simp_all add: system_ok_def)
    show ?thesis
    proof (cases "sys_socket S")
      case None
      with c assms(2) close_undoes_pipe [OF new(1,2)] show ?thesis
        by (simp add: wyoming_server_create_def Let_def)
    next
      case (Some fd)
      with c assms(2) close_undoes_pipe [OF new(1,2)] close_undoes_socket [OF _ new(1,2)] new(3) [OF Some]
      show ?thesis
        by (simp add: wyoming_server_create_def Let_def split: if_splits)
    qed
  qed
qed

lemma create_SomeE:
  assumes "wyoming_server_create S bind_addr port p = (Some h, p')"
  obtains r w fd where "sys_pipe S = Some (r, w)" and "sys_socket S = Some fd"
    and "sys_bind S (listen_address bind_addr) port"
    and "h = \<lparr>host_server = server_zero (case sys_port S of Some n \<Rightarrow> n | None \<Rightarrow> 0), listen_fd = fd,
              stop_pipe = (r, w), epoll_fd = -1, bound_addr = listen_address bind_addr\<rparr>"
    and "p' = set_nonblock S fd (opened fd (set_nonblock S w (opened w (opened r (allocated 1 p)))))"
  using assms
  by (auto simp: wyoming_server_create_def Let_def split: option.splits if_splits)

definition server_fds :: "('u, 'c) server_handle \<Rightarrow> int set" where
  "server_fds h = {fst (stop_pipe h), snd (stop_pipe h), listen_fd h}"

lemma create_succeeds:
  assumes "wyoming_server_create S bind_addr port p = (Some h, p')"
  shows "open_fds p' = open_fds p \<union> server_fds h \<and> blocks p' = blocks p + 1 \<and>
    (sys_getfl S \<longrightarrow> nonblocking p' = nonblocking p \<union> {snd (stop_pipe h), listen_fd h}) \<and>
    bound_addr h = listen_address bind_addr \<and> sys_bind S (bound_addr h) port \<and>
    (\<forall>n. sys_port S = Some n \<longrightarrow> wyoming_server_port (Some (host_server h)) = n)"
  using assms
  by (rule create_SomeE)
     (auto simp: server_fds_def process_steps wyoming_server_port_def server_zero_def)

text \<open>What a server holds beside its own block. Every registration moves the account of the
  process by as much as it moves this.\<close>

definition held_string :: "string option \<Rightarrow> int" where
  "held_string s = (if s = None then 0 else 1)"

definition held_strings :: "string option list \<Rightarrow> int" where
  "held_strings xs = sum_list (map held_string xs)"

definition held_by :: "('u, 'c) server \<Rightarrow> int" where
  "held_by srv =
     held_strings [tts_name srv, tts_version srv, asr_name srv, asr_version srv] +
     sum_list (map (\<lambda>v. held_strings (sv_name v # sv_description v # sv_languages v @ sv_speakers v)) (voices srv)) +
     sum_list (map (\<lambda>m. held_strings (sm_name m # sm_description m # sm_languages m)) (asr_models srv))"

lemma held_strings_simps [simp]:
  "held_strings [] = 0" "held_strings (x # xs) = held_string x + held_strings xs"
  "held_strings (xs @ ys) = held_strings xs + held_strings ys"
  by (simp_all add: held_strings_def)

lemma allocated_simps:
  "allocated a (allocated b p) = allocated (a + b) p" "freed a p = allocated (- a) p" "allocated 0 p = p"
  by (simp_all add: allocated_def freed_def)

lemma take_copy_eq: "take_copy P s p = (strdup_opt P s, allocated (held_string (strdup_opt P s)) p)"
  by (simp add: allocated_simps take_copy_def held_string_def split: option.split)

lemma free_string_eq: "free_string s p = allocated (- held_string s) p"
  by (simp add: allocated_simps free_string_def held_string_def split: option.split)

lemma take_copies_eq:
  "take_copies P ls p = (map (strdup P) ls, allocated (held_strings (map (strdup P) ls)) p)"
  by (induction ls arbitrary: p) (simp_all add: allocated_simps take_copy_eq strdup_opt_def add.commute)

lemma take_entry_eq:
  "take_entry P name languages description p =
     ((strdup P name, copy_languages P languages, strdup_opt P description),
      allocated (held_strings (strdup P name # strdup_opt P description # copy_languages P languages)) p)"
  by (auto simp: allocated_simps take_entry_def take_copy_eq take_copies_eq copy_languages_def strdup_opt_def Let_def
      add_ac split: option.split)

lemma free_strings_eq: "fold free_string xs p = allocated (- held_strings xs) p"
  by (induction xs arbitrary: p) (simp_all add: allocated_simps free_string_eq add.commute)

lemma register_on_eq:
  "register_on P (srv, p) r = (register P srv r, allocated (held_by (register P srv r) - held_by srv) p)"
proof (cases r)
  case (Add_Speaker n)
  show ?thesis
  proof (cases "voices srv = []")
    case True
    with Add_Speaker show ?thesis by (cases n) (simp_all add: allocated_simps wyoming_server_add_speaker_def)
  next
    case False
    then obtain vs v where v: "voices srv = vs @ [v]" by (cases "voices srv" rule: rev_cases) auto
    with Add_Speaker show ?thesis
      by (cases n) (simp_all add: allocated_simps wyoming_server_add_speaker_def take_copy_eq held_by_def strdup_opt_def Let_def)
  qed
next
  case (Add_Voice n l d)
  then show ?thesis
    by (cases n) (simp_all add: allocated_simps wyoming_server_add_voice_def take_entry_eq held_by_def Let_def)
next
  case (Add_Model n l d)
  then show ?thesis
    by (cases n) (simp_all add: allocated_simps wyoming_server_add_asr_model_def take_entry_eq held_by_def Let_def)
qed (simp_all add: allocated_simps take_copy_eq free_string_eq held_by_def wyoming_server_set_tts_def
    wyoming_server_set_asr_def wyoming_server_set_asr_streaming_def,
    (rule arg_cong2 [where f = allocated], simp_all)+)

lemma registrations_on_eq:
  "foldl (register_on P) (srv, p) rs =
     (foldl (register P) srv rs, allocated (held_by (foldl (register P) srv rs) - held_by srv) p)"
  by (induction rs arbitrary: srv p) (simp_all add: allocated_simps register_on_eq del: register_on.simps register.simps)

lemma held_by_zero [simp]: "held_by (server_zero port) = 0"
  by (simp add: held_by_def server_zero_def held_string_def)

text \<open>Destroying frees exactly what is held.\<close>

lemma free_voices_eq:
  "fold free_voice vs p =
     allocated (- sum_list (map (\<lambda>v. held_strings (sv_name v # sv_description v # sv_languages v @ sv_speakers v)) vs)) p"
  by (induction vs arbitrary: p) (simp_all add: allocated_simps free_voice_def free_strings_eq free_string_eq algebra_simps)

lemma free_models_eq:
  "fold free_model ms p =
     allocated (- sum_list (map (\<lambda>m. held_strings (sm_name m # sm_description m # sm_languages m)) ms)) p"
  by (induction ms arbitrary: p) (simp_all add: allocated_simps free_model_def free_strings_eq free_string_eq algebra_simps)

lemma destroy_frees:
  "wyoming_server_destroy (Some h) p =
     allocated (- held_by (host_server h) - 1)
       (close_if (epoll_fd h) (close_if (snd (stop_pipe h)) (close_if (fst (stop_pipe h)) (close_if (listen_fd h) p))))"
  by (simp add: allocated_simps wyoming_server_destroy_def free_voices_eq free_models_eq free_string_eq held_by_def Let_def)
     (rule arg_cong2 [where f = allocated], simp_all)

lemma destroy_undoes:
  assumes "system_ok S p" and "wyoming_server_create S bind_addr port p = (Some h, p')"
    and "foldl (register_on P) (host_server h, p') rs = (srv, q)"
  shows "wyoming_server_destroy (Some (h\<lparr>host_server := srv\<rparr>)) q = p \<and>
    srv = foldl (register P) (host_server h) rs"
proof -
  obtain r w fd where h: "sys_pipe S = Some (r, w)" "sys_socket S = Some fd"
    "listen_fd h = fd" "stop_pipe h = (r, w)" "epoll_fd h = -1" "held_by (host_server h) = 0"
    "p' = set_nonblock S fd (opened fd (set_nonblock S w (opened w (opened r (allocated 1 p)))))"
    by (rule create_SomeE [OF assms(2)]) simp
  have q: "srv = foldl (register P) (host_server h) rs" "q = allocated (held_by srv) p'"
    using assms(3) by (auto simp: registrations_on_eq h(6))
  have "new_fd r p" "new_fd w p" "new_fd fd p" "r \<noteq> w" "fd \<noteq> r" "fd \<noteq> w"
    using assms(1) h(1,2) by (simp_all add: system_ok_def)
  then have "wyoming_server_destroy (Some (h\<lparr>host_server := srv\<rparr>)) q = p"
    unfolding destroy_frees q(2) h(7)
    by (cases p) (auto simp: h(3-5) process_steps new_fd_def)
  with q(1) show ?thesis by simp
qed

text \<open>An address that does not parse makes the server listen on every interface.\<close>

lemma bad_address_listens_everywhere: "inet_pton a = None \<Longrightarrow> listen_address (Some a) = INADDR_ANY"
  by (simp add: listen_address_def)

end
