(* ===== verification/Wy_Connect.thy ===== *)
theory Wy_Connect
  imports Wy_Server Wy_Client
begin

text \<open>
  \<^verbatim>\<open>wyoming_connect\<close> and \<^verbatim>\<open>wyoming_close\<close> of \<^verbatim>\<open>src/client.c\<close>. Name resolution and
  the network are the system's: a record says what they answer for the host and port asked
  for. Descriptors and memory are accounted for as in theory \<open>Wy_Server\<close>.
\<close>

text \<open>\<open>net_resolve\<close>: the addresses \<^verbatim>\<open>getaddrinfo\<close> lists, in its order; \<open>None\<close> for an error.
  \<open>net_socket\<close>: the descriptor \<^verbatim>\<open>socket\<close> gives for an address. \<open>net_connect\<close>: the connected
  socket, if the address accepts.\<close>

record 'a network =
  net_resolve :: "string \<Rightarrow> string \<Rightarrow> 'a list option"
  net_socket :: "'a \<Rightarrow> int option"
  net_connect :: "'a \<Rightarrow> sock option"
  net_calloc :: bool

text \<open>\<^verbatim>\<open>wyoming_conn_t\<close>.\<close>

record wyoming_conn =
  conn_fd :: int
  conn_iobuf :: iobuf

text \<open>The list of addresses is one allocation of the library's, which \<^verbatim>\<open>freeaddrinfo\<close> gives
  back.\<close>

definition wyoming_connect ::
  "'a network \<Rightarrow> string option \<Rightarrow> 16 word \<Rightarrow> process \<Rightarrow> wyoming_conn option \<times> process" where
  "wyoming_connect N host port p =
     (case host of
        None \<Rightarrow> (None, p)
      | Some h \<Rightarrow>
          (case net_resolve N h (dec_int (uint port)) of
             None \<Rightarrow> (None, p)
           | Some [] \<Rightarrow> (None, p)
           | Some (a # as) \<Rightarrow>
               let p = allocated 1 p
               in (case net_socket N a of
                  None \<Rightarrow> (None, freed 1 p)
                | Some fd \<Rightarrow>
                    let p = opened fd p
                    in (case net_connect N a of
                          None \<Rightarrow> (None, freed 1 (close_fd fd p))
                        | Some s \<Rightarrow>
                            let p = freed 1 p
                            in if \<not> net_calloc N then (None, close_fd fd p)
                               else (Some \<lparr>conn_fd = fd, conn_iobuf = iobuf_init s\<rparr>, allocated 1 p)))))"

definition wyoming_close :: "wyoming_conn option \<Rightarrow> process \<Rightarrow> process" where
  "wyoming_close conn p =
     (case conn of None \<Rightarrow> p | Some c \<Rightarrow> freed 1 (close_if (conn_fd c) p))"

definition network_ok :: "'a network \<Rightarrow> process \<Rightarrow> bool" where
  "network_ok N p \<longleftrightarrow> (\<forall>a fd. net_socket N a = Some fd \<longrightarrow> new_fd fd p)"

text \<open>A failed call leaves no descriptor and no memory behind; closing a connection returns
  what making it took.\<close>

lemma connect_fails:
  assumes "network_ok N p" and "wyoming_connect N host port p = (None, p')"
  shows "p' = p"
proof -
  have undo: "freed 1 (close_fd fd (opened fd (allocated 1 p))) = p"
    "close_fd fd (freed 1 (opened fd (allocated 1 p))) = p" "freed 1 (allocated 1 p) = p" if "new_fd fd p" for fd
    using that by (cases p, auto simp: process_steps new_fd_def)+
  have "freed 1 (allocated 1 p) = p" by (simp add: process_steps)
  note undo = undo this
  show ?thesis
    using assms
    by (auto simp: wyoming_connect_def network_ok_def undo Let_def split: option.splits list.splits if_splits)
qed

lemma connect_close:
  assumes "network_ok N p" and "wyoming_connect N host port p = (Some c, p')"
  shows "open_fds p' = insert (conn_fd c) (open_fds p) \<and> wyoming_close (Some (c\<lparr>conn_iobuf := io\<rparr>)) p' = p"
proof -
  obtain o1 n1 b1 where p: "p = \<lparr>open_fds = o1, nonblocking = n1, blocks = b1\<rparr>" by (cases p)
  have "new_fd (conn_fd c) p" and "p' = allocated 1 (freed 1 (opened (conn_fd c) (allocated 1 p)))"
    using assms
    by (auto simp: wyoming_connect_def network_ok_def Let_def split: option.splits list.splits if_splits)
  then show ?thesis
    by (auto simp: p wyoming_close_def process_steps new_fd_def)
qed

text \<open>Only the first address is tried.\<close>

lemma connect_first:
  assumes "net_resolve N h (dec_int (uint port)) = Some (a # as)" and "net_connect N a = None"
  shows "fst (wyoming_connect N (Some h) port p) = None"
  using assms by (auto simp: wyoming_connect_def Let_def split: option.splits)

end
