(* ===== verification/Wy_Tools.thy ===== *)
theory Wy_Tools
  imports Wy_Dialog Wy_Connect Wy_Config
begin

text \<open>
  The command line clients: \<^verbatim>\<open>tools/wyoming-speak.c\<close>, which writes what a server says to
  a WAV file, and \<^verbatim>\<open>tools/wyoming-describe.c\<close>, which prints what a server offers.
\<close>

subsection \<open>WAV files\<close>

text \<open>Integers in a file: low byte first, as \<^verbatim>\<open>fwrite\<close> of the machine's integers gives.\<close>

definition word32_bytes :: "32 word \<Rightarrow> byte list" where
  "word32_bytes w = sample_bytes (ucast w) @ sample_bytes (ucast (drop_bit 16 w))"

text \<open>\<^verbatim>\<open>(uint32_t)(sample_rate * channels * bits / 8)\<close> for one channel of 16 bits: a product
  of \<^verbatim>\<open>int\<close>s, undefined beyond their range (\<open>over\<close>).\<close>

definition byte_rate :: "(int \<Rightarrow> int) \<Rightarrow> int \<Rightarrow> 32 word" where
  "byte_rate over sr =
     (let p = sr * 1 * 16
      in word_of_int ((if INT_MIN \<le> p \<and> p \<le> INT_MAX then p else over p) div 8))"

text \<open>\<^verbatim>\<open>write_wav\<close>: what is in the file afterwards. All sizes are 32-bit.\<close>

definition write_wav :: "(int \<Rightarrow> int) \<Rightarrow> sample list \<Rightarrow> int \<Rightarrow> byte list" where
  "write_wav over zs sr =
     (let data_size = of_nat (length zs * 2) :: 32 word;
          file_size = 36 + data_size
      in ''RIFF'' @ word32_bytes file_size @ ''WAVE'' @
         ''fmt '' @ word32_bytes 16 @ sample_bytes 1 @ sample_bytes 1 @ word32_bytes (word_of_int sr) @
         word32_bytes (byte_rate over sr) @ sample_bytes 2 @ sample_bytes 16 @
         ''data'' @ word32_bytes data_size @ samples_bytes zs)"

text \<open>A reader of such files, from the format's description: the outer chunk has the size it
  says, the format is one channel of 16-bit PCM with consistent rates, and the samples are
  what the data chunk's size covers. It gives the rate and the samples.\<close>

definition word32_of :: "byte list \<Rightarrow> nat" where
  "word32_of bs = code (bs ! 0) + 256 * code (bs ! 1) + 65536 * code (bs ! 2) + 16777216 * code (bs ! 3)"

definition read_wav :: "byte list \<Rightarrow> (nat \<times> sample list) option" where
  "read_wav f =
     (let field = (\<lambda>i n. take n (drop i f)); size = word32_of (field 40 4)
      in if 44 \<le> length f \<and> field 0 4 = ''RIFF'' \<and> field 8 8 = ''WAVEfmt '' \<and>
            word32_of (field 4 4) + 8 = length f \<and> word32_of (field 16 4) = 16 \<and>
            field 20 2 = sample_bytes 1 \<and> field 22 2 = sample_bytes 1 \<and>
            word32_of (field 28 4) = 2 * word32_of (field 24 4) \<and>
            field 32 2 = sample_bytes 2 \<and> field 34 2 = sample_bytes 16 \<and>
            field 36 4 = ''data'' \<and> 44 + size = length f
         then Some (word32_of (field 24 4), samples_of (drop 44 f)) else None)"

lemma length_word32_bytes [simp]: "length (word32_bytes w) = 4" "length (sample_bytes v) = 2"
  by (simp_all add: word32_bytes_def sample_bytes_def)

lemma word32_of_samples: "word32_of (sample_bytes a @ sample_bytes b) = unat a + 65536 * unat b"
proof -
  have two: "code (char_of (unat v mod 256) :: char) + 256 * code (char_of (unat v div 256) :: char) = unat v"
    for v :: sample
  proof -
    have "unat v < 65536" using unsigned_less [of v] by simp
    then show ?thesis by simp
  qed
  have up: "65536 * (n mod 256) + 16777216 * (n div 256) = 65536 * n" for n :: nat
  proof -
    have "n mod 256 + 256 * (n div 256) = n" by simp
    then show ?thesis by linarith
  qed
  show ?thesis using two [of a] two [of b] up [of "unat b"] by (simp add: word32_of_def sample_bytes_def)
qed

lemma word32_of_bytes [simp]: "word32_of (word32_bytes w) = unat w"
proof -
  have n: "unat w < 4294967296" using unsigned_less [of w] by simp
  have lo: "unat (ucast w :: 16 word) = unat w mod 65536"
    by (simp add: unsigned_ucast_eq take_bit_eq_mod)
  have "unat (drop_bit 16 w) = unat w div 65536"
    by (simp add: drop_bit_eq_div unat_div_distrib)
  then have hi: "unat (ucast (drop_bit 16 w) :: 16 word) = unat w div 65536"
    using n by (simp add: unsigned_ucast_eq take_bit_eq_mod)
  show ?thesis
    unfolding word32_bytes_def word32_of_samples lo hi by simp
qed

text \<open>What is written reads back as the rate and the samples, as long as the file's size fits in
  32 bits.\<close>

lemma read_write_wav:
  assumes "36 + 2 * length zs < 2 ^ 32" and "0 \<le> sr" and "sr * 16 \<le> INT_MAX"
  shows "read_wav (write_wav over zs sr) = Some (nat sr, zs)"
proof -
  define size where "size = (of_nat (length zs * 2) :: 32 word)"
  have s1: "unat size = 2 * length zs"
    using assms(1) by (simp add: size_def unsigned_of_nat take_bit_eq_mod del: of_nat_mult)
  have s: "unat size = 2 * length zs" "unat (36 + size) = 36 + 2 * length zs"
    using assms(1) s1 by (simp_all add: unat_word_ariths(1))
  have r: "unat (word_of_int sr :: 32 word) = nat sr"
    using assms(2,3) by (simp add: unsigned_of_int take_bit_int_eq_self)
  have "byte_rate over sr = word_of_int (sr * 2)"
    using assms(2,3) by (simp add: byte_rate_def Let_def)
  moreover have "unat (word_of_int (sr * 2) :: 32 word) = nat (sr * 2)"
    using assms(2,3) by (simp add: unsigned_of_int take_bit_int_eq_self del: of_int_mult)
  ultimately have b: "unat (byte_rate over sr) = 2 * nat sr"
    using assms(2) by (simp add: nat_mult_distrib)
  have w: "write_wav over zs sr =
      ''RIFF'' @ word32_bytes (36 + size) @ ''WAVE'' @
      ''fmt '' @ word32_bytes 16 @ sample_bytes 1 @ sample_bytes 1 @ word32_bytes (word_of_int sr) @
      word32_bytes (byte_rate over sr) @ sample_bytes 2 @ sample_bytes 16 @
      ''data'' @ word32_bytes size @ samples_bytes zs"
    by (simp add: write_wav_def Let_def size_def)
  have "drop 44 (write_wav over zs sr) = samples_bytes zs" unfolding w by simp
  moreover have "length (write_wav over zs sr) = 44 + 2 * length zs" unfolding w by simp
  moreover have "take 4 (drop 0 (write_wav over zs sr)) = ''RIFF''"
    "take 8 (drop 8 (write_wav over zs sr)) = ''WAVEfmt ''"
    "take 4 (drop 4 (write_wav over zs sr)) = word32_bytes (36 + size)"
    "take 4 (drop 16 (write_wav over zs sr)) = word32_bytes 16"
    "take 2 (drop 20 (write_wav over zs sr)) = sample_bytes 1"
    "take 2 (drop 22 (write_wav over zs sr)) = sample_bytes 1"
    "take 4 (drop 24 (write_wav over zs sr)) = word32_bytes (word_of_int sr)"
    "take 4 (drop 28 (write_wav over zs sr)) = word32_bytes (byte_rate over sr)"
    "take 2 (drop 32 (write_wav over zs sr)) = sample_bytes 2"
    "take 2 (drop 34 (write_wav over zs sr)) = sample_bytes 16"
    "take 4 (drop 36 (write_wav over zs sr)) = ''data''"
    "take 4 (drop 40 (write_wav over zs sr)) = word32_bytes size"
    unfolding w by simp_all
  ultimately show ?thesis
    using s r b by (simp add: read_wav_def Let_def)
qed

text \<open>Beyond that the sizes in the header are wrong, by multiples of \<open>2\<^sup>3\<^sup>2\<close>.\<close>

lemma write_wav_wraps:
  "word32_of (take 4 (drop 40 (write_wav over zs sr))) = 2 * length zs mod 2 ^ 32"
  by (simp add: write_wav_def Let_def unsigned_of_nat take_bit_eq_mod mult.commute del: of_nat_mult)

subsection \<open>wyoming-speak\<close>

text \<open>The exit code, and the file that was written, if one was. \<open>args\<close> are the arguments behind
  the program's name; \<open>creatable\<close> says where \<^verbatim>\<open>fopen\<close> succeeds.\<close>

definition wyoming_speak ::
  "platform \<Rightarrow> (int \<Rightarrow> int) \<Rightarrow> 'a network \<Rightarrow> (string \<Rightarrow> bool) \<Rightarrow> string list \<Rightarrow> process \<Rightarrow>
     int \<times> (string \<times> byte list) option \<times> process" where
  "wyoming_speak P over N creatable args p =
     (case args of
        host # port # text # outpath # _ \<Rightarrow>
          (case wyoming_connect N (Some host) (word_of_int (atoi over port)) p of
             (None, p) \<Rightarrow> (1, None, p)
           | (Some conn, p) \<Rightarrow>
               (case wyoming_synthesize_pcm P (conn_iobuf conn) (Some text) None of
                  (rc, audio, fmt, io) \<Rightarrow>
                    let p = wyoming_close (Some (conn\<lparr>conn_iobuf := io\<rparr>)) p
                    in if rc \<noteq> WYOMING_OK then (1, None, p)
                       else (case audio of
                               None \<Rightarrow> (1, None, p)
                             | Some zs \<Rightarrow>
                                 if zs = [] then (1, None, p)
                                 else if \<not> creatable outpath then (-1, None, p)
                                 else (0, Some (outpath, write_wav over zs (rate fmt)), p))))
      | _ \<Rightarrow> (1, None, p))"

text \<open>Client and server in one exchange, each reading what the other sends.\<close>

lemma synthesize_exchange:
  assumes "tts_fn srv = Some fn" and "fn text voice None (s_world s) = ((WYOMING_OK, Some zs, fmt), w)"
    and "format_ok fmt" and "c_string text" and "opt_c_string voice"
    and "platform_ok P (9000 + 6 * length text + 6 * opt_length voice)" and "pcm_room P 4096 (length zs)"
    and "session_writable s" and "s_stop s = None" and "session_tx s = []"
    and "writable (io_fd conn)" and "tx (io_fd conn) = []"
    and "wyoming_synthesize_pcm P conn (Some text) voice = (rc, audio, got, conn')"
    and "pending (s_io s) = tx (io_fd conn')"
    and "pending conn = session_tx (handle_client P srv s)"
  shows "rc = WYOMING_OK \<and> (case audio of None \<Rightarrow> [] | Some ys \<Rightarrow> ys) = zs \<and> got = fmt \<and>
     s_world (handle_client P srv s) = w \<and> s_live (handle_client P srv s) = s_live s"
proof -
  have p0: "platform_ok P 9000" by (rule platform_ok_mono [OF assms(6)]) simp
  obtain c1 where c1: "wyoming_synthesize_pcm P conn (Some text) voice =
      collect_audio P c1 pcm_empty \<lparr>rate = 0, width = 0, channels = 0\<rparr> False"
    "posted P conn [synthesize_msg text voice] c1"
    by (rule wyoming_synthesize_pcm_posts [OF assms(4-6,11)])
  note run = assms(13) [unfolded c1(1)]
  have "pending (s_io s) = frame P (synthesize_msg text voice)"
    using assms(12,14) c1(2) collect_audio_tx [OF run] by (simp add: posted_def)
  note served = serve_synthesize [OF assms(1,2,4,5,3,6) this assms(8,9)]
  have "pending c1 = frames P (audio_reply fmt zs) @ []"
    using assms(10,15) served c1(2) by (simp add: posted_def)
  from collect_reply [OF assms(3) p0 assms(7) this] obtain b where "rc = WYOMING_OK" "audio = pcm b"
    "got = fmt" "pcm_samples b = zs" by (metis run Pair_inject)
  then show ?thesis using served by (simp add: pcm_samples_def)
qed

text \<open>What \<^verbatim>\<open>wyoming-speak\<close> does once it is connected and the server has answered.\<close>

lemma wyoming_speak_writes:
  assumes "wyoming_connect N (Some host) (word_of_int (atoi over port)) p = (Some conn, p')"
    and "wyoming_synthesize_pcm P (conn_iobuf conn) (Some text) None = (WYOMING_OK, Some zs, fmt, io)"
    and "zs \<noteq> []" and "creatable outpath" and "network_ok N p"
  shows "wyoming_speak P over N creatable [host, port, text, outpath] p =
    (0, Some (outpath, write_wav over zs (rate fmt)), p)"
  using assms connect_close [OF assms(5,1), of io] by (simp add: wyoming_speak_def Let_def)

subsection \<open>wyoming-describe\<close>

text \<open>The report. \<^verbatim>\<open>%s\<close> with a NULL prints what the C library makes of it (\<open>null_text\<close>);
  the code guards names, versions and descriptions, not the languages.\<close>

definition LF :: string where
  "LF = [CHR 0x0A]"

definition or_else :: "string \<Rightarrow> string option \<Rightarrow> string" where
  "or_else d s = (case s of Some t \<Rightarrow> t | None \<Rightarrow> d)"

definition framed :: "string \<Rightarrow> string option \<Rightarrow> string \<Rightarrow> string" where
  "framed a s b = (case s of Some t \<Rightarrow> a @ t @ b | None \<Rightarrow> [])"

fun joined :: "string list \<Rightarrow> string" where
  "joined [] = []"
| "joined [x] = x"
| "joined (x # xs) = x @ '', '' @ joined xs"

definition language_list :: "string \<Rightarrow> string option list \<Rightarrow> string" where
  "language_list null_text ls =
     (if ls = [] then [] else '' ['' @ joined (map (or_else null_text) ls) @ '']'')"

definition engine_line :: "string option \<Rightarrow> string option \<Rightarrow> string" where
  "engine_line name version = ''  '' @ or_else ''?'' name @ framed '' v'' version [] @ LF"

definition voice_line :: "string \<Rightarrow> voice_info \<Rightarrow> string" where
  "voice_line null_text v =
     ''    voice: '' @ or_else ''?'' (vi_name v) @ framed '' ('' (vi_description v) '')'' @
     language_list null_text (vi_languages v) @
     (if vi_speakers v = [] then []
      else '' ('' @ dec_int (int (length (vi_speakers v))) @ '' speakers)'') @ LF"

definition model_line :: "string \<Rightarrow> model_info \<Rightarrow> string" where
  "model_line null_text m =
     ''    model: '' @ or_else ''?'' (mi_name m) @ framed '' ('' (mi_description m) '')'' @
     language_list null_text (mi_languages m) @ LF"

definition tts_report :: "string \<Rightarrow> tts_info \<Rightarrow> string" where
  "tts_report null_text t =
     engine_line (ti_name t) (ti_version t) @ concat (map (voice_line null_text) (ti_voices t))"

definition asr_report :: "string \<Rightarrow> asr_info \<Rightarrow> string" where
  "asr_report null_text a =
     engine_line (ai_name a) (ai_version a) @ concat (map (model_line null_text) (ai_models a))"

definition info_report :: "string \<Rightarrow> wyoming_info \<Rightarrow> string" where
  "info_report null_text info =
     (if info_tts info = [] then ''TTS: none'' @ LF @ LF
      else ''TTS engines: '' @ dec_int (int (length (info_tts info))) @ LF @
           concat (map (tts_report null_text) (info_tts info)) @ LF) @
     (if info_asr info = [] then ''ASR: none'' @ LF @ LF
      else ''ASR engines: '' @ dec_int (int (length (info_asr info))) @ LF @
           concat (map (asr_report null_text) (info_asr info)) @ LF)"

definition wyoming_describe_main ::
  "platform \<Rightarrow> (int \<Rightarrow> int) \<Rightarrow> string \<Rightarrow> 'a network \<Rightarrow> string list \<Rightarrow> process \<Rightarrow>
     int \<times> string \<times> process" where
  "wyoming_describe_main P over null_text N args p =
     (case args of
        host # port # _ \<Rightarrow>
          let n = word_of_int (atoi over port) :: 16 word
          in (case wyoming_connect N (Some host) n p of
                (None, p) \<Rightarrow> (1, [], p)
              | (Some conn, p) \<Rightarrow>
                  (case wyoming_describe P (conn_iobuf conn) of
                     (rc, info, io) \<Rightarrow>
                       let p = wyoming_close (Some (conn\<lparr>conn_iobuf := io\<rparr>)) p
                       in if rc \<noteq> WYOMING_OK then (1, [], p)
                          else (0, ''Wyoming server at '' @ host @ '':'' @ dec_int (uint n) @ LF @ LF @
                                   info_report null_text info, p)))
      | _ \<Rightarrow> (1, [], p))"

lemma describe_exchange:
  assumes "server_ok srv" and "server_room P srv" and "event_room P (info_msg srv)" and "platform_ok P 9000"
    and "session_writable s" and "s_stop s = None" and "session_tx s = []"
    and "writable (io_fd conn)" and "tx (io_fd conn) = []"
    and "wyoming_describe P conn = (rc, info, conn')"
    and "pending (s_io s) = tx (io_fd conn')"
    and "pending conn = session_tx (handle_client P srv s)"
  shows "rc = WYOMING_OK \<and> info = info_of srv"
proof -
  obtain c1 where c1: "conn_write P conn (bare_event P WYOMING_EVENT_DESCRIBE) = (WYOMING_OK, c1)"
    "posted P conn [bare_msg WYOMING_EVENT_DESCRIBE] c1"
    by (rule wyoming_describe_posts [OF assms(4,8)])
  have "pending (s_io s) = frame P (bare_msg WYOMING_EVENT_DESCRIBE)"
    using assms(9,11) c1(2) wyoming_describe_tx [OF c1(1) assms(10)] by (simp add: posted_def)
  note served = serve_describe [OF assms(2-6) this]
  have "pending c1 = frame P (info_msg srv) @ []"
    using assms(7,12) served c1(2) by (simp add: posted_def)
  from wyoming_describe_reads [OF assms(1-3) c1(1) this] assms(10) show ?thesis by simp
qed

end
