(* ===== verification/Wy_Daemon.thy ===== *)
theory Wy_Daemon
  imports Wy_Piper Wy_Sherpa Wy_Tools Wy_Log
begin

text \<open>
  The server program: \<^verbatim>\<open>tools/wyoming-server.c\<close>. First its Piper engine, which runs the
  \<^verbatim>\<open>piper\<close> program as a child process, then \<^verbatim>\<open>main\<close>, which reads the configuration,
  makes a server, registers the engines, runs the server and cleans up.
\<close>

subsection \<open>Piper as a child process\<close>

record piper_config =
  pc_model_path :: string
  pc_piper_bin :: string
  pc_sample_rate :: int

datatype exit_status = Exited int | Signalled

text \<open>What the system answers: the two pipes, and whether \<^verbatim>\<open>fork\<close> works. The child is another
  program: from its arguments and its standard input it gives what arrives on the pipe and how
  it ends. The two writes to its standard input, whose results the code does not look at, are
  taken to be complete.\<close>

record spawn =
  sp_pipe_in :: "(int \<times> int) option"
  sp_pipe_out :: "(int \<times> int) option"
  sp_fork :: bool
  sp_child :: "string list \<Rightarrow> byte list \<Rightarrow> rx_step list \<times> exit_status"

definition piper_argv :: "piper_config \<Rightarrow> string option \<Rightarrow> string list" where
  "piper_argv cfg speaker =
     [pc_piper_bin cfg, ''--model'', pc_model_path cfg] @
     (case speaker of Some s \<Rightarrow> if s = [] then [] else [''--speaker'', s] | None \<Rightarrow> []) @
     [''--output_raw'', ''--quiet'']"

text \<open>The read loop: up to the end of the pipe, a failure or an interruption. The buffer doubles
  when it is full; \<open>None\<close> when it cannot.\<close>

function read_output :: "platform \<Rightarrow> nat \<Rightarrow> byte list \<Rightarrow> rx_step list \<Rightarrow> byte list option" where
  "read_output P cap buf r =
     (if cap \<le> length buf then Some buf
      else (case sys_read (cap - length buf) r of
              (Data bs, r') \<Rightarrow>
                let buf' = buf @ bs
                in if cap \<le> length buf'
                   then (if malloc_ok P (cap * 2) then read_output P (cap * 2) buf' r' else None)
                   else read_output P cap buf' r'
            | _ \<Rightarrow> Some buf))"
  by pat_completeness auto
termination
  by (relation "measure (\<lambda>(P, cap, buf, r). rx_size r)")
     (auto dest!: sym [of "(_, _)"] sys_read_size)

declare read_output.simps [simp del]

definition no_format :: audio_format where
  "no_format = \<lparr>rate = 0, width = 0, channels = 0\<rparr>"

text \<open>\<^verbatim>\<open>piper_tts_callback\<close> of this file. Descriptors are accounted for in the process.\<close>

definition piper_subprocess ::
  "platform \<Rightarrow> spawn \<Rightarrow> piper_config \<Rightarrow> process tts_fn" where
  "piper_subprocess P sys cfg text voice speaker p =
     (if text = [] then ((WYOMING_ERR_INVAL, None, no_format), p)
      else case sp_pipe_in sys of
        None \<Rightarrow> ((WYOMING_ERR_IO, None, no_format), p)
      | Some pin \<Rightarrow>
          let p = opened (snd pin) (opened (fst pin) p)
          in case sp_pipe_out sys of
               None \<Rightarrow> ((WYOMING_ERR_IO, None, no_format), p)
             | Some pout \<Rightarrow>
                 let p = opened (snd pout) (opened (fst pout) p)
                 in if \<not> sp_fork sys
                    then ((WYOMING_ERR_IO, None, no_format), close_both pout (close_both pin p))
                    else let p = close_fd (snd pin) (close_fd (snd pout) (close_fd (fst pin) p))
                    in case sp_child sys (piper_argv cfg speaker) (text @ [NL]) of
                         (output, status) \<Rightarrow>
                           if \<not> malloc_ok P 65536
                           then ((WYOMING_ERR_NOMEM, None, no_format), close_fd (fst pout) p)
                           else (case read_output P 65536 [] output of
                                   None \<Rightarrow> ((WYOMING_ERR_NOMEM, None, no_format), close_fd (fst pout) p)
                                 | Some buf \<Rightarrow>
                                     let p = close_fd (fst pout) p
                                     in if status \<noteq> Exited 0 \<or> length buf < 2
                                     then ((WYOMING_ERR_PIPER, None, no_format), p)
                                     else ((WYOMING_OK, Some (samples_of buf),
                                            \<lparr>rate = pc_sample_rate cfg, width = 2, channels = 1\<rparr>), p)))"

subsection \<open>What the child says arrives\<close>

text \<open>A child that writes without being interrupted.\<close>

fun only_chunks :: "rx_step list \<Rightarrow> bool" where
  "only_chunks [] = True"
| "only_chunks (Chunk bs # r) = only_chunks r"
| "only_chunks (_ # r) = False"

lemma sys_read_chunks:
  "only_chunks r \<Longrightarrow> 0 < cap \<Longrightarrow> sys_read cap r = (x, r') \<Longrightarrow>
     (x = Eof \<and> rx_bytes r = []) \<or>
     (\<exists>bs. x = Data bs \<and> bs \<noteq> [] \<and> length bs \<le> cap \<and> rx_bytes r = bs @ rx_bytes r' \<and> only_chunks r')"
  by (induction cap r rule: sys_read.induct) (auto split: if_splits)

lemma read_output_all:
  "only_chunks r \<Longrightarrow> length buf < cap \<Longrightarrow> mem_ok P (2 * (length buf + length (rx_bytes r))) \<Longrightarrow>
     read_output P cap buf r = Some (buf @ rx_bytes r)"
proof (induction P cap buf r rule: read_output.induct)
  case (1 P cap buf r)
  obtain x r' where x: "sys_read (cap - length buf) r = (x, r')" by force
  have room: "0 < cap - length buf" "\<not> cap \<le> length buf" using "1.prems"(2) by simp_all
  from sys_read_chunks [OF "1.prems"(1) room(1) x] show ?case
  proof (elim disjE exE conjE)
    assume "x = Eof" "rx_bytes r = []"
    with x room(2) show ?thesis by (subst read_output.simps) simp
  next
    fix bs
    assume bs: "x = Data bs" "bs \<noteq> []" "length bs \<le> cap - length buf" "rx_bytes r = bs @ rx_bytes r'"
      "only_chunks r'"
    show ?thesis
    proof (cases "cap \<le> length (buf @ bs)")
      case True
      then have c: "cap = length buf + length bs" using bs(3) room(2) by simp
      have m: "malloc_ok P (cap * 2)" by (rule mem_okD [OF "1.prems"(3)]) (use c bs(4) in simp)
      have "read_output P (cap * 2) (buf @ bs) r' = Some ((buf @ bs) @ rx_bytes r')"
        by (rule "1.IH"(1) [OF room(2) x [symmetric] bs(1) refl True m bs(5)])
           (use "1.prems"(3) c bs(2,4) in \<open>simp_all add: add.assoc\<close>)
      with x bs True m room(2) show ?thesis by (subst read_output.simps) (simp add: Let_def)
    next
      case False
      have "read_output P cap (buf @ bs) r' = Some ((buf @ bs) @ rx_bytes r')"
        by (rule "1.IH"(2) [OF room(2) x [symmetric] bs(1) refl False bs(5)])
           (use "1.prems"(3) False bs(4) in \<open>simp_all add: add.assoc\<close>)
      with x bs False room(2) show ?thesis by (subst read_output.simps) (simp add: Let_def)
    qed
  qed
qed

text \<open>A successful child: its output as samples, a last odd byte dropped, and the descriptors as
  before.\<close>

definition pipes_ok :: "spawn \<Rightarrow> process \<Rightarrow> bool" where
  "pipes_ok sys p \<longleftrightarrow>
     (\<forall>fds. sp_pipe_in sys = Some fds \<or> sp_pipe_out sys = Some fds \<longrightarrow> new_fd (fst fds) p \<and> new_fd (snd fds) p)"

lemma close_undoes:
  assumes "new_fd a p" "new_fd b p" "new_fd c p" "new_fd d p"
  shows "close_fd c (close_fd b (close_fd d (close_fd a (opened d (opened c (opened b (opened a p))))))) = p"
    and "close_both (c, d) (close_both (a, b) (opened d (opened c (opened b (opened a p))))) = p"
  using assms by (cases p; auto simp: new_fd_def process_steps)+

lemma piper_subprocess_ok:
  assumes "sp_pipe_in sys = Some pin" and "sp_pipe_out sys = Some pout" and "sp_fork sys" and "text \<noteq> []"
    and "pipes_ok sys p" and "sp_child sys (piper_argv cfg speaker) (text @ [NL]) = (output, Exited 0)"
    and "only_chunks output" and "2 \<le> length (rx_bytes output)"
    and "mem_ok P (65536 + 2 * length (rx_bytes output))"
  shows "piper_subprocess P sys cfg text voice speaker p =
    ((WYOMING_OK, Some (samples_of (rx_bytes output)),
      \<lparr>rate = pc_sample_rate cfg, width = 2, channels = 1\<rparr>), p)"
proof -
  have "malloc_ok P 65536" by (rule mem_okD [OF assms(9)]) simp
  moreover have "read_output P 65536 [] output = Some ([] @ rx_bytes output)"
    by (rule read_output_all [OF assms(7)]) (use assms(9) in \<open>auto intro: mem_ok_mono\<close>)
  moreover have "new_fd (fst pin) p" "new_fd (snd pin) p" "new_fd (fst pout) p" "new_fd (snd pout) p"
    using assms(1,2,5) unfolding pipes_ok_def by blast+
  ultimately show ?thesis
    using assms(1-4,6,8) close_undoes(1) [of "fst pin" p "snd pin" "fst pout" "snd pout"]
    by (simp add: piper_subprocess_def Let_def)
qed

text \<open>Only one path keeps descriptors: when the second pipe cannot be made, the first one stays
  open.\<close>

lemma piper_subprocess_fds:
  assumes "pipes_ok sys p" and "piper_subprocess P sys cfg text voice speaker p = (res, p')"
  shows "p' = p \<or> (\<exists>pin. sp_pipe_in sys = Some pin \<and> sp_pipe_out sys = None \<and> text \<noteq> [] \<and>
    fst res = WYOMING_ERR_IO \<and> open_fds p' = open_fds p \<union> {fst pin, snd pin} \<and> new_fd (fst pin) p)"
proof (cases "text = [] \<or> sp_pipe_in sys = None \<or> sp_pipe_out sys = None")
  case True
  then show ?thesis
    using assms
    by (cases "text = []"; cases "sp_pipe_in sys"; cases "sp_pipe_out sys")
       (auto simp: piper_subprocess_def pipes_ok_def opened_def Let_def)
next
  case False
  then obtain pin pout where pipes: "sp_pipe_in sys = Some pin" "sp_pipe_out sys = Some pout" "text \<noteq> []"
    by auto
  then have "new_fd (fst pin) p" "new_fd (snd pin) p" "new_fd (fst pout) p" "new_fd (snd pout) p"
    using assms(1) unfolding pipes_ok_def by blast+
  note u = close_undoes [OF this]
  have "close_both pout (close_both pin (opened (snd pout) (opened (fst pout) (opened (snd pin) (opened (fst pin) p))))) = p"
    using u(2) by simp
  with u(1) show ?thesis
    using assms(2) pipes by (simp add: piper_subprocess_def Let_def split: if_splits prod.splits option.splits)
qed

subsection \<open>The engines together\<close>

text \<open>The worlds of the engines side by side, with the log, and an engine of one of them.\<close>

record 'e daemon_world =
  dw_process :: process
  dw_piper :: piper
  dw_engine :: "'e engine"
  dw_log :: log_state
  dw_said :: nat

definition on_process :: "process tts_fn \<Rightarrow> 'e daemon_world tts_fn" where
  "on_process fn text voice speaker w =
     (case fn text voice speaker (dw_process w) of (res, p) \<Rightarrow> (res, w\<lparr>dw_process := p\<rparr>))"

definition on_piper :: "piper tts_fn \<Rightarrow> 'e daemon_world tts_fn" where
  "on_piper fn text voice speaker w =
     (case fn text voice speaker (dw_piper w) of (res, p) \<Rightarrow> (res, w\<lparr>dw_piper := p\<rparr>))"

text \<open>The third-party parts and the file system. \<open>de_piper\<close> and \<open>de_sherpa\<close>: the build has
  them (\<^verbatim>\<open>WYOMING_HAVE_PIPER\<close>, \<^verbatim>\<open>WYOMING_HAVE_SHERPA\<close>).\<close>

record 'e daemon_env =
  de_files :: "string \<Rightarrow> byte list option"
  de_atoi :: "int \<Rightarrow> int"
  de_spawn :: spawn
  de_piper :: bool
  de_piper_lib :: piper_lib
  de_stray :: int
  de_behind :: "nat \<Rightarrow> nat"
  de_chunk :: audio_chunk
  de_sherpa :: bool
  de_load_offline :: "asr_settings \<Rightarrow> offline_model \<Rightarrow> bool"
  de_load_online :: "asr_settings \<Rightarrow> online_model \<Rightarrow> bool"
  de_offline :: "'e asr_api"
  de_online :: "'e asr_api"
  de_stamp :: "nat \<Rightarrow> string \<times> string"
  de_can_open :: "string \<Rightarrow> bool"

text \<open>One log message; the environment stamps the \<open>n\<close>-th.\<close>

definition say :: "'e daemon_env \<Rightarrow> wy_log_level \<Rightarrow> string \<Rightarrow> 'e daemon_world \<Rightarrow> 'e daemon_world" where
  "say E level msg w =
     (case de_stamp E (dw_said w) of
        (time, date) \<Rightarrow>
          w\<lparr>dw_log := wy_log (dw_log w) \<lparr>lc_level = level, lc_time = time, lc_date = date, lc_msg = msg\<rparr>,
            dw_said := Suc (dw_said w)\<rparr>)"

text \<open>The recogniser as the server's callbacks; that the loops end is the library's promise
  (\<open>decoding_ends\<close>).\<close>

definition sherpa_asr :: "platform \<Rightarrow> 'e daemon_env \<Rightarrow> sherpa \<Rightarrow> 'e daemon_world asr_fn" where
  "sherpa_asr P E s zs fmt language w =
     (case the (sherpa_batch_asr P (de_offline E) (de_online E) (Some s) (Some zs) fmt language (dw_engine w)) of
        (res, en) \<Rightarrow> (res, w\<lparr>dw_engine := en\<rparr>))"

definition sherpa_create :: "platform \<Rightarrow> 'e daemon_env \<Rightarrow> sherpa \<Rightarrow> ('e daemon_world, stream_ctx) stream_create_fn" where
  "sherpa_create P E s fmt language w =
     (case sherpa_stream_create P (de_online E) (Some s) (Some fmt) language (dw_engine w) of
        (cx, en) \<Rightarrow> (cx, w\<lparr>dw_engine := en\<rparr>))"

definition sherpa_process :: "platform \<Rightarrow> 'e daemon_env \<Rightarrow> ('e daemon_world, stream_ctx) stream_process_fn" where
  "sherpa_process P E cx audio fmt final w =
     (case the (sherpa_stream_process P (de_online E) (Some cx) audio fmt final (dw_engine w)) of
        (res, en) \<Rightarrow> (res, w\<lparr>dw_engine := en\<rparr>))"

definition sherpa_destroy :: "'e daemon_env \<Rightarrow> ('e daemon_world, stream_ctx) stream_destroy_fn" where
  "sherpa_destroy E cx w = w\<lparr>dw_engine := sherpa_stream_destroy (de_online E) (Some cx) (dw_engine w)\<rparr>"

subsection \<open>Registration\<close>

type_synonym 'e daemon = "('e daemon_world, stream_ctx) server \<times> 'e daemon_world"

abbreviation cfg_get :: "wyoming_config \<Rightarrow> string \<Rightarrow> string \<Rightarrow> string option" where
  "cfg_get cfg s k \<equiv> wyoming_config_get (Some cfg) (Some s) (Some k)"

text \<open>A language array with its terminating NULL.\<close>

definition one_language :: "string option \<Rightarrow> string list option" where
  "one_language l = Some (case l of Some x \<Rightarrow> [x] | None \<Rightarrow> [])"

text \<open>A registration, with what it takes and gives back in the process.\<close>

definition registered ::
  "platform \<Rightarrow> ('e daemon_world, stream_ctx) registration \<Rightarrow> 'e daemon \<Rightarrow> 'e daemon" where
  "registered P r d =
     (case d of (srv, w) \<Rightarrow> case register_on P (srv, dw_process w) r of
        (srv, p) \<Rightarrow> (srv, w\<lparr>dw_process := p\<rparr>))"

definition add_voice :: "platform \<Rightarrow> string \<Rightarrow> string option \<Rightarrow> 'e daemon \<Rightarrow> 'e daemon" where
  "add_voice P name language = registered P (Add_Voice (Some name) (one_language language) None)"

definition setup_piper :: "platform \<Rightarrow> 'e daemon_env \<Rightarrow> wyoming_config \<Rightarrow> string \<Rightarrow> 'e daemon \<Rightarrow> 'e daemon" where
  "setup_piper P E cfg model d =
     (case d of (srv, w) \<Rightarrow>
        if de_files E model = None then (srv, say E WY_LOG_WARN (''TTS model not found: '' @ model) w)
        else let pc = \<lparr>pc_model_path = model,
                       pc_piper_bin = or_else ''/usr/bin/piper'' (cfg_get cfg ''tts'' ''piper_binary''),
                       pc_sample_rate = parse_sample_rate (de_atoi E) (de_files E) model\<rparr>;
                 d = registered P (Set_Tts (Some (on_process (piper_subprocess P (de_spawn E) pc)))
                         (Some ''piper'') (Some (lib_version P))) (srv, w);
                 voice_name = extract_voice_name P model;
                 language = extract_language P (or_else ''unknown'' voice_name);
                 (srv, w) = add_voice P (or_else ''default'' voice_name) language d
             in (srv, say E WY_LOG_INFO (''TTS: piper voice='' @ or_else ''?'' voice_name @
                   '' rate='' @ dec_int (pc_sample_rate pc)) w))"

definition setup_piper_native :: "platform \<Rightarrow> 'e daemon_env \<Rightarrow> wyoming_config \<Rightarrow> string \<Rightarrow> 'e daemon \<Rightarrow> 'e daemon" where
  "setup_piper_native P E cfg model d =
     (case d of (srv, w) \<Rightarrow>
        let espeak = or_else ''/usr/share/espeak-ng-data'' (cfg_get cfg ''tts'' ''espeak_data'')
        in (case the (wyoming_piper_create P (de_piper_lib E) (de_behind E) (de_files E) (Some model) (Some espeak)) of
              None \<Rightarrow> (srv, say E WY_LOG_WARN (''failed to load Piper model: '' @ model) w)
            | Some piper \<Rightarrow>
                let d = registered P (Set_Tts
                            (Some (on_piper (piper_tts_callback P (de_piper_lib E) (de_stray E) (de_chunk E))))
                            (Some ''piper'') (Some (lib_version P))) (srv, w);
                    vname = wyoming_piper_voice_name (Some piper);
                    vlang = wyoming_piper_language (Some piper);
                    (srv, w) = add_voice P (or_else ''default'' vname) vlang d
                in (srv, say E WY_LOG_INFO (''TTS: piper-native voice='' @ or_else ''?'' vname @
                      '' rate='' @ dec_int (wyoming_piper_sample_rate (Some piper))) (w\<lparr>dw_piper := piper\<rparr>))))"

definition setup_tts :: "platform \<Rightarrow> 'e daemon_env \<Rightarrow> wyoming_config \<Rightarrow> 'e daemon \<Rightarrow> 'e daemon" where
  "setup_tts P E cfg d =
     (case (cfg_get cfg ''tts'' ''engine'', cfg_get cfg ''tts'' ''model'') of
        (Some engine, Some model) \<Rightarrow>
          if engine = ''piper'' then setup_piper P E cfg model d
          else if de_piper E \<and> engine = ''piper-native'' then setup_piper_native P E cfg model d
          else d
      | _ \<Rightarrow> d)"

definition setup_asr :: "platform \<Rightarrow> 'e daemon_env \<Rightarrow> wyoming_config \<Rightarrow> 'e daemon \<Rightarrow> 'e daemon" where
  "setup_asr P E cfg d =
     (case (de_sherpa E, cfg_get cfg ''asr'' ''engine'', cfg_get cfg ''asr'' ''model_dir'') of
        (True, Some engine, Some model_dir) \<Rightarrow>
          if engine \<noteq> ''sherpa'' then d
          else (case d of (srv, w) \<Rightarrow>
            let model_type = or_else ''whisper'' (cfg_get cfg ''asr'' ''model_type'');
                language = or_else ''en'' (cfg_get cfg ''asr'' ''language'');
                streaming = wyoming_config_get_bool (Some cfg) (Some ''asr'') (Some ''streaming'') 0 \<noteq> 0;
                sherpa = (if streaming
                          then wyoming_sherpa_create_streaming P (de_load_online E) (Some model_dir) (Some model_type) (Some language)
                          else wyoming_sherpa_create P (de_load_offline E) (Some model_dir) (Some model_type) (Some language))
            in (case sherpa of
                  None \<Rightarrow> (srv, say E WY_LOG_WARN (''failed to load ASR model: '' @ model_dir) w)
                | Some s \<Rightarrow>
                    let d = registered P (Set_Asr (Some (sherpa_asr P E s)) (Some ''sherpa-onnx'')
                                (Some (lib_version P))) (srv, w);
                        d = (if streaming
                             then registered P (Set_Streaming (Some (sherpa_create P E s))
                                    (Some (sherpa_process P E)) (Some (sherpa_destroy E))) d
                             else d);
                        model_name = wyoming_sherpa_model_name (Some s);
                        (srv, w) = registered P (Add_Model model_name (one_language (Some language))
                               (Some (if streaming then ''streaming'' else ''offline''))) d
                    in (srv, say E WY_LOG_INFO (''ASR: sherpa-onnx model='' @ or_else [] model_name @ '' type='' @ model_type @
                          '' lang='' @ language @ (if streaming then '' (streaming)'' else '' (batch)'')) w)))
      | _ \<Rightarrow> d)"

text \<open>\<^verbatim>\<open>main\<close> from the configuration to the call of \<^verbatim>\<open>wyoming_server_run\<close>: \<open>Inl\<close> the exit
  code of a start that failed, or the server made and set up. The port is an \<^verbatim>\<open>int\<close> cast to
  16 bits.\<close>

definition daemon_start ::
  "platform \<Rightarrow> 'e daemon_env \<Rightarrow> system \<Rightarrow> bool \<Rightarrow> string \<Rightarrow> 'e daemon_world \<Rightarrow>
     (int + ('e daemon_world, stream_ctx) server_handle) \<times> 'e daemon_world" where
  "daemon_start P E S calloc_ok config_path w =
     (case wyoming_config_load calloc_ok (de_files E config_path) of
        None \<Rightarrow> (Inl 1, say E WY_LOG_ERROR (''cannot read config: '' @ config_path) w)
      | Some cfg \<Rightarrow>
          let w = w\<lparr>dw_log := wy_log_init (de_can_open E) (wy_log_parse_level (cfg_get cfg ''log'' ''level''))
                               (cfg_get cfg ''log'' ''file'') (dw_log w)\<rparr>;
              host = or_else ''0.0.0.0'' (cfg_get cfg ''server'' ''host'');
              port = wyoming_config_get_int (de_atoi E) (Some cfg) (Some ''server'') (Some ''port'') 10200;
              w = say E WY_LOG_INFO (''Wyoming server '' @ lib_version P) w;
              w = say E WY_LOG_INFO (''config: '' @ config_path) w
          in (case wyoming_server_create S (Some host) (word_of_int port) (dw_process w) of
                (None, p) \<Rightarrow>
                  (Inl 1, say E WY_LOG_ERROR (''failed to bind '' @ host @ '':'' @ dec_int port) (w\<lparr>dw_process := p\<rparr>))
              | (Some h, p) \<Rightarrow>
                  (case setup_asr P E cfg (setup_tts P E cfg (host_server h, w\<lparr>dw_process := p\<rparr>)) of
                     (srv, w) \<Rightarrow>
                       (Inr (h\<lparr>host_server := srv\<rparr>),
                        say E WY_LOG_INFO (''listening on '' @ host @ '':'' @ dec_int port) w))))"

text \<open>The rest of \<^verbatim>\<open>main\<close>: the server runs (\<open>run\<close>: what it returned and the world it left), is
  destroyed, and the log is closed. The engines are not destroyed.\<close>

definition daemon_main ::
  "platform \<Rightarrow> 'e daemon_env \<Rightarrow> system \<Rightarrow> bool \<Rightarrow>
     (('e daemon_world, stream_ctx) server_handle \<Rightarrow> 'e daemon_world \<Rightarrow> wyoming_error \<times> 'e daemon_world) \<Rightarrow>
     string \<Rightarrow> 'e daemon_world \<Rightarrow> int \<times> 'e daemon_world" where
  "daemon_main P E S calloc_ok run config_path w =
     (case daemon_start P E S calloc_ok config_path w of
        (Inl status, w) \<Rightarrow> (status, w)
      | (Inr h, w) \<Rightarrow>
          (case run h w of
             (rc, w) \<Rightarrow>
               let w = say E WY_LOG_INFO ''shutting down'' w;
                   w = w\<lparr>dw_process := wyoming_server_destroy (Some h) (dw_process w)\<rparr>
               in (if rc = WYOMING_OK then 0 else 1, w\<lparr>dw_log := wy_log_shutdown (dw_log w)\<rparr>)))"

subsection \<open>What a configuration makes of the server\<close>

lemma say_process [simp]: "dw_process (say E level msg w) = dw_process w"
  by (simp add: say_def split: prod.split)

lemma registered_eq: "registered P r d = (register P (fst d) r, snd (registered P r d))"
  by (simp add: registered_def register_on_eq split: prod.split)

lemma fst_registered [simp]: "fst (registered P r d) = register P (fst d) r"
  by (subst registered_eq) simp

lemma setup_asr_keeps [simp]:
  "tts_fn (fst (setup_asr P E cfg d)) = tts_fn (fst d)" "tts_name (fst (setup_asr P E cfg d)) = tts_name (fst d)"
  "tts_version (fst (setup_asr P E cfg d)) = tts_version (fst d)" "voices (fst (setup_asr P E cfg d)) = voices (fst d)"
  by (auto simp: setup_asr_def wyoming_server_set_asr_def wyoming_server_set_asr_streaming_def
      wyoming_server_add_asr_model_def Let_def case_prod_unfold split: option.split bool.split)

lemma setup_asr_ok: "server_ok (fst d) \<Longrightarrow> server_ok (fst (setup_asr P E cfg d))"
  by (auto simp: setup_asr_def wyoming_server_set_asr_def wyoming_server_set_asr_streaming_def
      wyoming_server_add_asr_model_def server_ok_def copy_languages_def one_language_def Let_def
      case_prod_unfold split: option.split bool.split)

text \<open>The subprocess engine: one voice, named after the model's directory, with the language in
  front of its first hyphen.\<close>

definition configured_voice :: "string \<Rightarrow> string \<Rightarrow> server_voice" where
  "configured_voice dir lang =
     \<lparr>sv_name = Some dir, sv_languages = [Some lang], sv_description = None, sv_speakers = []\<rparr>"

lemma setup_piper_voice:
  assumes "de_files E (model_path up dir name) \<noteq> None" and "dir = lang @ CHR ''-'' # rest"
    and "CHR ''-'' \<notin> set lang" and "SLASH \<notin> set dir" and "SLASH \<notin> set name"
    and "mem_ok P (100 + length (model_path up dir name))" and "mem_ok P (length (lib_version P) + 1)"
    and "voices srv = []"
  shows "\<exists>pc. pc_model_path pc = model_path up dir name \<and>
    fst (setup_piper P E cfg (model_path up dir name) (srv, w)) =
      srv\<lparr>tts_fn := Some (on_process (piper_subprocess P (de_spawn E) pc)), tts_name := Some ''piper'',
           tts_version := Some (lib_version P), voices := [configured_voice dir lang]\<rparr>"
proof -
  let ?m = "model_path up dir name"
  obtain content where found: "de_files E ?m = Some content" using assms(1) by blast
  have dir: "dir \<noteq> []" using assms(2) by simp
  have voice: "extract_voice_name P ?m = Some dir"
    by (rule voice_of_model(2) [OF assms(4,5) dir]) (rule mem_ok_mono [OF assms(6)], simp)
  have "mem_ok P (length lang + 1)"
    by (rule mem_ok_mono [OF assms(6)]) (simp add: model_path_def assms(2))
  from language_of_voice(1) [OF assms(3) this] have lang: "extract_language P dir = Some lang"
    by (simp add: assms(2))
  have "malloc_ok P (length dir + 1)" "malloc_ok P (length lang + 1)" "malloc_ok P (length ''piper'' + 1)"
    by (rule mem_okD [OF assms(6)]; simp add: model_path_def assms(2))+
  then have "strdup P dir = Some dir" "strdup P lang = Some lang" "strdup P ''piper'' = Some ''piper''"
    by (simp_all only: strdup_def if_True)
  moreover have "strdup P (lib_version P) = Some (lib_version P)"
    using mem_okD [OF assms(7)] by (simp add: strdup_def)
  moreover define pc where "pc = \<lparr>pc_model_path = ?m,
      pc_piper_bin = or_else ''/usr/bin/piper'' (cfg_get cfg ''tts'' ''piper_binary''),
      pc_sample_rate = parse_sample_rate (de_atoi E) (de_files E) ?m\<rparr>"
  ultimately have "fst (setup_piper P E cfg ?m (srv, w)) =
      srv\<lparr>tts_fn := Some (on_process (piper_subprocess P (de_spawn E) pc)), tts_name := Some ''piper'',
           tts_version := Some (lib_version P), voices := [configured_voice dir lang]\<rparr>"
    using found assms(8) voice lang unfolding pc_def
    by (simp add: setup_piper_def add_voice_def wyoming_server_set_tts_def wyoming_server_add_voice_def case_prod_unfold
        or_else_def one_language_def copy_languages_def strdup_opt_def configured_voice_def Let_def)
  moreover have "pc_model_path pc = ?m" by (simp add: pc_def)
  ultimately show ?thesis by blast
qed

text \<open>A server started with such a configuration offers that voice.\<close>

lemma daemon_start_voice:
  assumes "daemon_start P E S calloc_ok path w = (Inr h, w')"
    and "wyoming_config_load calloc_ok (de_files E path) = Some cfg"
    and "cfg_get cfg ''tts'' ''engine'' = Some ''piper''"
    and "cfg_get cfg ''tts'' ''model'' = Some (model_path up dir name)"
    and "de_files E (model_path up dir name) \<noteq> None" and "dir = lang @ CHR ''-'' # rest"
    and "CHR ''-'' \<notin> set lang" and "SLASH \<notin> set dir" and "SLASH \<notin> set name"
    and "mem_ok P (100 + length (model_path up dir name))" and "mem_ok P (length (lib_version P) + 1)"
  shows "server_ok (host_server h) \<and> tts_fn (host_server h) \<noteq> None \<and>
    tts_name (host_server h) = Some ''piper'' \<and> tts_version (host_server h) = Some (lib_version P) \<and>
    voices (host_server h) = [configured_voice dir lang]"
proof -
  obtain h0 p W where c: "wyoming_server_create S (Some (or_else ''0.0.0.0'' (cfg_get cfg ''server'' ''host'')))
      (word_of_int (wyoming_config_get_int (de_atoi E) (Some cfg) (Some ''server'') (Some ''port'') 10200))
      (dw_process w) = (Some h0, p)"
    and h: "host_server h = fst (setup_asr P E cfg (setup_tts P E cfg (host_server h0, W)))"
    using assms(1,2)
    by (auto simp: daemon_start_def Let_def split: prod.splits option.splits) (metis fst_conv)
  obtain n where z: "host_server h0 = server_zero n" by (rule create_SomeE [OF c]) simp
  let ?d = "setup_piper P E cfg (model_path up dir name) (host_server h0, W)"
  have t: "setup_tts P E cfg (host_server h0, W) = ?d"
    using assms(3,4) by (simp add: setup_tts_def)
  have "voices (host_server h0) = []" by (simp add: z server_zero_def)
  from setup_piper_voice [where cfg = cfg and w = W, OF assms(5-11) this] obtain pc where
    d: "fst ?d = (host_server h0)\<lparr>tts_fn := Some (on_process (piper_subprocess P (de_spawn E) pc)),
      tts_name := Some ''piper'', tts_version := Some (lib_version P), voices := [configured_voice dir lang]\<rparr>"
    by force
  have "server_ok (fst ?d)"
    unfolding d by (simp add: z server_zero_def server_ok_def voice_ok_def configured_voice_def)
  from setup_asr_ok [OF this] show ?thesis unfolding h t by (simp add: d)
qed

text \<open>Streaming recognition without a model type: the default \<^verbatim>\<open>whisper\<close> is not a type the
  streaming constructor knows, so no recogniser is registered.\<close>

lemma streaming_needs_type:
  assumes "cfg_get cfg ''asr'' ''model_type'' = None"
    and "wyoming_config_get_bool (Some cfg) (Some ''asr'') (Some ''streaming'') 0 \<noteq> 0"
  shows "fst (setup_asr P E cfg d) = fst d"
proof -
  have "wyoming_sherpa_create_streaming P load (Some dir) (Some ''whisper'') language = None" for load dir language
    by (simp add: wyoming_sherpa_create_streaming_def online_model_of_def)
  then show ?thesis
    using assms by (simp add: setup_asr_def or_else_def Let_def split: option.split prod.split bool.split)
qed

end
