(* ===== verification/Wy_Command.thy ===== *)
theory Wy_Command
  imports Wy_Daemon
begin

text \<open>
  The command line of \<^verbatim>\<open>tools/wyoming-server.c\<close>: its options as \<^verbatim>\<open>getopt_long\<close> of the C
  library finds them, the texts of \<^verbatim>\<open>--help\<close> and \<^verbatim>\<open>--version\<close>, and the signal handler.
\<close>

subsection \<open>Options\<close>

text \<open>\<^verbatim>\<open>long_opts\<close>: name, whether an argument is required, and the letter it stands for. The
  short options are the same letters.\<close>

definition long_opts :: "(string \<times> bool \<times> char) list" where
  "long_opts = [(''config'', True, CHR ''c''), (''version'', False, CHR ''v''), (''help'', False, CHR ''h'')]"

text \<open>A found option with its argument, or \<open>Bad\<close> for what \<^verbatim>\<open>getopt_long\<close> reports as
  \<^verbatim>\<open>'?'\<close>.\<close>

datatype found = Letter char "string option" | Bad

text \<open>A long option may be written with the first letters of its name, as long as they belong to
  one name only.\<close>

definition long_named :: "string \<Rightarrow> (string \<times> bool \<times> char) option" where
  "long_named name =
     (case filter (\<lambda>p. fst p = name) long_opts of
        x # _ \<Rightarrow> Some x
      | [] \<Rightarrow> (case filter (\<lambda>p. take (length name) (fst p) = name) long_opts of
                 [x] \<Rightarrow> Some x
               | _ \<Rightarrow> None))"

text \<open>One long option and the words behind it.\<close>

definition long_option :: "string \<Rightarrow> string list \<Rightarrow> found \<times> string list" where
  "long_option word args =
     (let name = takeWhile (\<lambda>c. c \<noteq> CHR ''='') word;
          val = (if CHR ''='' \<in> set word then Some (drop (Suc (length name)) word) else None)
      in case long_named name of
           None \<Rightarrow> (Bad, args)
         | Some (_, True, c) \<Rightarrow>
             (case (val, args) of
                (Some v, _) \<Rightarrow> (Letter c (Some v), args)
              | (None, a # args') \<Rightarrow> (Letter c (Some a), args')
              | (None, []) \<Rightarrow> (Bad, []))
         | Some (_, False, c) \<Rightarrow> (if val = None then Letter c None else Bad, args))"

text \<open>A word of letters. \<^verbatim>\<open>c\<close> takes the rest of the word, or the next one, as its argument.\<close>

fun short_options :: "string \<Rightarrow> string list \<Rightarrow> found list \<times> string list" where
  "short_options [] args = ([], args)"
| "short_options (c # cs) args =
     (if c = CHR ''c'' then
        (case (cs, args) of
           ([], a # args') \<Rightarrow> ([Letter c (Some a)], args')
         | ([], []) \<Rightarrow> ([Bad], [])
         | _ \<Rightarrow> ([Letter c (Some cs)], args))
      else (case short_options cs args of
              (os, args') \<Rightarrow>
                ((if c = CHR ''v'' \<or> c = CHR ''h'' then Letter c None else Bad) # os, args')))"

lemma short_options_shrinks: "short_options cs args = (os, args') \<Longrightarrow> length args' \<le> length args"
  by (induction cs args arbitrary: os rule: short_options.induct)
     (auto split: if_splits prod.splits list.splits)

lemma long_option_shrinks: "long_option word args = (x, args') \<Longrightarrow> length args' \<le> length args"
  by (auto simp: long_option_def Let_def split: option.splits prod.splits bool.splits list.splits)

text \<open>All options, up to the word \<^verbatim>\<open>--\<close>; words that are no options are passed over.\<close>

function getopt_all :: "string list \<Rightarrow> found list" where
  "getopt_all [] = []"
| "getopt_all (word # args) =
     (if word = ''--'' then []
      else if take 2 word = ''--'' then
        (case long_option (drop 2 word) args of (x, args') \<Rightarrow> x # getopt_all args')
      else if take 1 word = ''-'' \<and> word \<noteq> ''-'' then
        (case short_options (drop 1 word) args of (xs, args') \<Rightarrow> xs @ getopt_all args')
      else getopt_all args)"
  by pat_completeness auto
termination
  by (relation "measure length")
     (auto dest!: sym [of "(_, _)"] long_option_shrinks short_options_shrinks)

text \<open>The loop of \<^verbatim>\<open>main\<close>: what the program is to do.\<close>

datatype task = Serve string | Version | Help | Wrong

fun option_loop :: "string \<Rightarrow> found list \<Rightarrow> task" where
  "option_loop config_path [] = Serve config_path"
| "option_loop config_path (Bad # os) = Wrong"
| "option_loop config_path (Letter c arg # os) =
     (if c = CHR ''c'' then option_loop (case arg of Some p \<Rightarrow> p | None \<Rightarrow> []) os
      else if c = CHR ''v'' then Version
      else if c = CHR ''h'' then Help
      else Wrong)"

definition default_config :: string where
  "default_config = ''/etc/wyoming/wyoming-server.conf''"

definition task_of :: "string list \<Rightarrow> task" where
  "task_of argv = option_loop default_config (getopt_all (tl argv))"

subsection \<open>Output\<close>

definition usage :: string where
  "usage = concat (map (\<lambda>line. line @ [NL])
     [''Usage: wyoming-server [options]'',
      '''',
      ''  -c, --config FILE     Config file (default: /etc/wyoming/wyoming-server.conf)'',
      ''  -v, --version         Show version and exit'',
      ''  -h, --help            Show this help'',
      '''',
      ''Config file format (INI):'',
      ''  [server]'',
      ''  host = 0.0.0.0'',
      ''  port = 10200'',
      '''',
      ''  [tts]'',
      ''  engine = piper'',
      ''  model = /usr/share/wyoming/voices/en_US-lessac-high/model.onnx'',
      '''',
      ''  [asr]'',
      ''  engine = sherpa'',
      ''  model_dir = /usr/share/wyoming/models/whisper-base.en'',
      ''  model_type = whisper'',
      ''  language = en'',
      ''''])"

text \<open>The whole program: exit code, standard output, the usage text on standard error, and the
  world.\<close>

definition wyoming_server_main ::
  "platform \<Rightarrow> 'e daemon_env \<Rightarrow> system \<Rightarrow> bool \<Rightarrow>
     (('e daemon_world, stream_ctx) server_handle \<Rightarrow> 'e daemon_world \<Rightarrow> wyoming_error \<times> 'e daemon_world) \<Rightarrow>
     string list \<Rightarrow> 'e daemon_world \<Rightarrow> int \<times> string \<times> string \<times> 'e daemon_world" where
  "wyoming_server_main P E S calloc_ok run argv w =
     (case task_of argv of
        Version \<Rightarrow> (0, ''wyoming-server '' @ lib_version P @ [NL], [], w)
      | Help \<Rightarrow> (0, usage, [], w)
      | Wrong \<Rightarrow> (1, [], usage, w)
      | Serve config_path \<Rightarrow>
          (case daemon_main P E S calloc_ok run config_path w of (status, w) \<Rightarrow> (status, [], [], w)))"

text \<open>\<^verbatim>\<open>SIGINT\<close> and \<^verbatim>\<open>SIGTERM\<close>: the server is stopped, once \<^verbatim>\<open>g_server\<close> is set. \<open>stop\<close>
  is \<^verbatim>\<open>wyoming_server_stop\<close> (theory \<open>Wy_Loop\<close>).\<close>

definition handle_signal :: "('h \<Rightarrow> 's \<Rightarrow> 's) \<Rightarrow> 'h option \<Rightarrow> 's \<Rightarrow> 's" where
  "handle_signal stop g_server st = (case g_server of Some h \<Rightarrow> stop h st | None \<Rightarrow> st)"

subsection \<open>Ways to name the configuration\<close>

lemma options_before_words:
  "word \<noteq> ''--'' \<Longrightarrow> take 1 word \<noteq> ''-'' \<or> word = ''-'' \<Longrightarrow> getopt_all (word # args) = getopt_all args"
  by (cases word) auto

lemma short_config: "getopt_all (''-c'' # path # args) = Letter CHR ''c'' (Some path) # getopt_all args"
  by simp

lemma joined_config:
  "path \<noteq> [] \<Longrightarrow> getopt_all ((''-c'' @ path) # args) = Letter CHR ''c'' (Some path) # getopt_all args"
  by (cases path) simp_all

lemma long_config:
  "getopt_all (''--config'' # path # args) = Letter CHR ''c'' (Some path) # getopt_all args"
  "getopt_all ((''--config='' @ path) # args) = Letter CHR ''c'' (Some path) # getopt_all args"
  by (simp_all add: long_option_def long_named_def long_opts_def Let_def)

text \<open>Every spelling of the option, an abbreviated one too, makes the program serve that
  configuration; without one it takes the default.\<close>

lemma config_spellings:
  "task_of [prog, ''-c'', path] = Serve path"
  "path \<noteq> [] \<Longrightarrow> task_of [prog, ''-c'' @ path] = Serve path"
  "task_of [prog, ''--config'', path] = Serve path"
  "task_of [prog, ''--config='' @ path] = Serve path"
  "task_of [prog, ''--co'', path] = Serve path"
  "task_of [prog] = Serve default_config"
  using joined_config [of path "[]"] long_config(2) [of path "[]"]
  by (simp_all add: task_of_def long_option_def long_named_def long_opts_def Let_def)

text \<open>The last one counts; \<^verbatim>\<open>-v\<close> and \<^verbatim>\<open>-h\<close> end the program wherever they stand, before an
  error that follows them.\<close>

lemma task_examples:
  "task_of [prog, ''-c'', a, ''x'', ''--config'', b] = Serve b"
  "task_of [prog, ''-c'', a, ''-vq''] = Version"
  "task_of [prog, ''--help=no''] = Wrong"
  "task_of [prog, ''-c''] = Wrong"
  "task_of [prog, ''--'', ''-v''] = Serve default_config"
  by (simp_all add: task_of_def long_option_def long_named_def long_opts_def Let_def)

end
