(* ===== verification/Spec2Isabelle.thy ===== *)
theory Spec2Isabelle
  imports Wy_Calls Cjson_Safety Cjson_Minify Cjson_Compare Cjson_Build Wy_Log Wy_Loop Wy_Command
begin

text \<open>
  libwyoming, a C library for the Wyoming protocol: one process offers text to speech and speech
  recognition, another uses them. Both sides exchange events, a line of JSON that is followed by
  blocks of bytes. This development translates the library and its programs into HOL and
  proves what they promise each other. The properties are C1 to C40 below, in this theory; each
  stands on the library of the theory named with it.

  The parts and the theories, in the order in which they rest on each other:

  \<^item> \<open>Wy_Prelude\<close>: bytes, C strings (lists without NUL), the error codes of
    \<^verbatim>\<open>wyoming.h\<close>, and list facts.
  \<^item> \<open>C_Number\<close>, \<open>C_Digits\<close>, \<open>C_Float\<close>, \<open>C_Path\<close>: what the code uses of C. Doubles are rationals with
    infinities and NaN, rounded to nearest even; \<^verbatim>\<open>strtod\<close>, \<^verbatim>\<open>%1.15g\<close> and \<^verbatim>\<open>%1.17g\<close>
    are computed exactly, and a printed number has at most 24 characters (\<open>length_fmt_g\<close>). \<^verbatim>\<open>float\<close> samples and the way back to 16 bits (\<open>float_round_trip\<close>).
    \<^verbatim>\<open>strrchr\<close>, \<^verbatim>\<open>strstr\<close> and the path helpers of the engines.
  \<^item> \<open>Cjson_Tree\<close>, \<open>Cjson_Print\<close>, \<open>Cjson_Parse\<close>, \<open>Cjson_Roundtrip\<close>, \<open>Cjson_Safety\<close>,
    \<open>Cjson_Minify\<close>: \<^verbatim>\<open>cJSON.c\<close>. The printer is the code's, with its buffer and its modes;
    it equals a plain rendering, and fails only without memory or room (C19). The parser is the code's, with nesting limit, escapes and
    surrogates; parsing what was printed gives the tree back (C18), and no parse is deeper than
    1000 or holds a NUL (C20). Minifying undoes formatting (C21).
  \<^item> \<open>Cjson_Heap\<close>, \<open>Cjson_Memory\<close>, \<open>Cjson_Members\<close>: the nodes of \<^verbatim>\<open>cJSON.c\<close> as they lie in
    memory, children in doubly linked lists whose first element points to the last. Following a
    NULL or freed pointer is \<open>None\<close>. \<open>holds h s v\<close> says that the nodes at the addresses of shape
    \<open>s\<close> hold the tree \<open>v\<close>; adding, inserting, finding, detaching, deleting and replacing are the
    operations on trees (C13 for arrays, C16 for objects, also when a key cannot be copied). So the trees that the rest of the
    development passes around stand for what the code keeps in memory.
  \<^item> \<open>Cjson_Grow\<close>, \<open>Cjson_Copy\<close>, \<open>Cjson_Build\<close>: new trees next to the old ones. A copy, and an
    array that is built from a C array, is a tree of its own or leaves nothing behind, and so is
    a member that is made and added in one call (C17, C24); the locale \<open>constructor\<close> holds what
    these calls rely on, and is interpreted for every kind of item.
  \<^item> \<open>Cjson_Query\<close>: reading nodes gives what the look-ups of \<open>Cjson_Tree\<close> give for the tree that
    they hold (\<open>type_tests\<close>, \<open>values_read\<close>, \<open>children_counted\<close>, \<open>member_tested\<close>).
  \<^item> \<open>Cjson_Compare\<close>: \<^verbatim>\<open>cJSON_Compare\<close> against the meaning of a tree, where an object is a finite
    map (C27), and the case in which a tree differs from its own copy (\<open>repeated_name_unequal\<close>).
  \<^item> \<open>Wy_Io\<close>, \<open>Wy_Event\<close>: \<^verbatim>\<open>event.c\<close>. A socket is a script of what \<^verbatim>\<open>read\<close> and
    \<^verbatim>\<open>write\<close> will do (portions of any size, EINTR, errors, the end), so that every theorem
    holds for all behaviours of the kernel. The buffered readers equal readers of the whole
    stream (C15), one event and sequences of events arrive as sent (C11, C12), and reading
    always ends (C14).
  \<^item> \<open>Wy_Audio\<close>: formats, 16-bit samples as bytes, the growing sample buffer (C22, C23).
  \<^item> \<open>Wy_Registry\<close>, \<open>Wy_Info\<close>: the set-up calls of \<^verbatim>\<open>server.c\<close> with their fixed arrays
    (C25), the information a server gives and what a client makes of it.
  \<^item> \<open>Wy_Client\<close>, \<open>Wy_Session\<close>: the calls of \<^verbatim>\<open>client.c\<close> on a connection, and
    \<^verbatim>\<open>handle_client\<close> of \<^verbatim>\<open>server.c\<close> with its five branches. The engines are functions of
    a world of their own. A session keeps a ledger of what the handler owns (\<open>s_live\<close>), the
    receive timeout, and the moment the stop flag is seen (\<open>s_stop\<close>).
  \<^item> \<open>Wy_Dialog\<close>, \<open>Wy_Streaming\<close>, \<open>Wy_Safety\<close>: the two sides together. Each reads exactly
    what the other sends; then a call returns what the engine gave (C1 to C4). Any client
    at all, hostile ones and such that close or reset the connection included, gets well-formed
    answers up to the first write that fails (C5), and leaves the server in order whatever fails
    (C6); two defects are stated as they are (C7, C8).
  \<^item> \<open>Wy_Conversation\<close>, \<open>Wy_Calls\<close>: a specification without bytes and buffers, requests
    that are answered with messages. A whole connection refines it, on the server's side for
    every sequence of requests (C9), and on both sides when every request has an answer (C10).
  \<^item> \<open>Wy_Loop\<close>: \<^verbatim>\<open>wyoming_server_run\<close> and \<^verbatim>\<open>wyoming_server_stop\<close>, for \<^verbatim>\<open>epoll\<close> and for
    \<^verbatim>\<open>poll\<close>, as inductive step relations that interleave. The locales \<open>accept_loop\<close> and
    \<open>prompt_loop\<close> hold what both builds have in common and are interpreted for each
    (C30 to C32).
  \<^item> \<open>Wy_Server\<close>, \<open>Wy_Connect\<close>: servers and connections as resources, with descriptors and
    heap blocks accounted for: each call takes and frees its own strings (\<open>register_on\<close>, proved
    to be the registration of \<open>Wy_Registry\<close> with an account), and destroying a server frees
    them one by one (C33, C34).
  \<^item> \<open>Wy_Config\<close>, \<open>Wy_Log\<close>: \<^verbatim>\<open>wyoming_config.c\<close> and \<^verbatim>\<open>wyoming_log.c\<close> (C26, C28, C29).
  \<^item> \<open>Wy_Bridge\<close>, \<open>Wy_Piper\<close>, \<open>Wy_Sherpa\<close>: the engines, \<^verbatim>\<open>piper_bridge.cpp\<close>,
    \<^verbatim>\<open>piper.c\<close> and \<^verbatim>\<open>sherpa.c\<close> (C35 to C37). eSpeak, the ONNX session and the
    recogniser are records of functions.
  \<^item> \<open>Wy_Tools\<close>, \<open>Wy_Daemon\<close>, \<open>Wy_Command\<close>: the programs under \<^verbatim>\<open>tools/\<close> (C38 to C40).

  How the code is rendered. A struct is a record with the code's fields, a C enumeration a
  datatype, a NULL pointer \<open>None\<close>. A call that changes state takes it and returns it. Errors are
  values of \<open>wyoming_error\<close>. Memory that runs out is the platform's \<open>malloc_ok\<close>, a predicate
  on sizes; the conversions C leaves undefined are its functions \<open>size_cast\<close> and \<open>int_cast\<close>,
  about which nothing is assumed. So every failing branch of the code is a branch here. A loop
  is a recursive function with a termination proof; the one that depends on a third party, the
  recogniser's decoding loop, is a \<open>partial_function\<close>, and C37 proves that it returns when
  every decoding step uses up frames (\<open>decoding_ends\<close>). The server's endless loop is a
  relation.

  Hypotheses and bounds. \<open>platform_ok P n\<close>, \<open>pcm_room\<close> and \<open>event_room\<close> say that there is
  memory for messages of the size in question; \<open>engines_ok\<close> says that engines return a
  format the protocol can carry and texts that are C strings, and that stream contexts can be
  destroyed if they can be created; \<open>host_ok\<close> that there is memory for the server's own
  messages; \<open>session_writable\<close> that no write to this client fails, which C5 and C6 do not ask
  for; \<open>roomy P n\<close> that a buffer can grow to twice a text of \<open>n\<close> bytes, and that the text has
  fewer than 1 GB; \<open>system_ok\<close>, \<open>network_ok\<close> and
  \<open>pipes_ok\<close> say that a new descriptor is not one that is open already. A text's own bound is
  in its statement: 1000 levels of JSON, 64 voices, 16 models, 32 speakers, 8 languages, lines
  of 1023 characters. C36 is about settings files with fewer than 2^31 speakers, which
  \<^verbatim>\<open>piper.c\<close> counts in an \<^verbatim>\<open>int\<close>; what it does from there on is \<open>too_many_speakers\<close>. C31 and C32 bound what a server does after it was stopped: at most two
  more clients with \<^verbatim>\<open>epoll\<close>, one with \<^verbatim>\<open>poll\<close>, and 25 steps.

  Not modelled, and why. Of what \<^verbatim>\<open>cJSON.c\<close> offers beyond what this library calls: hooks
  (\<^verbatim>\<open>cJSON_InitHooks\<close>; the model allocates as the C library does), the setter of numbers, which
  writes the two number fields of a node of any type, where a node here has one number and only
  if that is its type, the position of the last parse error, and the version string. Messages on standard error. Time: the receive timeout is a number
  that is set, and a read that times out is an error of the script. Writes to a file that
  could be opened, and to the subprocess engine, whose results the code ignores, are complete. The programs under \<^verbatim>\<open>tests/\<close>.
\<close>

section \<open>A platform for the examples\<close>

text \<open>Memory never runs out, and out-of-range conversions give 0.\<close>

definition demo_platform :: platform where
  "demo_platform =
     \<lparr>malloc_ok = (\<lambda>_. True), size_cast = (\<lambda>_. 0), int_cast = (\<lambda>_. 0), lib_version = ''0.1.0''\<rparr>"

lemma demo_mem [simp]: "mem_ok demo_platform n" "malloc_ok demo_platform n"
  by (simp_all add: mem_ok_def demo_platform_def)

lemma demo_ample [simp]: "n \<le> 1000000 \<Longrightarrow> ample demo_platform n"
  by (simp add: ample_def roomy_def)

lemma demo_version [simp]: "lib_version demo_platform = ''0.1.0''"
  by (simp add: demo_platform_def)

lemma demo_platform_ok [simp]: "n \<le> 900000 \<Longrightarrow> platform_ok demo_platform n"
  by (simp add: platform_ok_def)

lemma demo_room [simp]: "pcm_room demo_platform least n" "line_room demo_platform n"
  by (simp_all add: pcm_room_def line_room_def)

definition demo_format :: audio_format where
  "demo_format = \<lparr>rate = 22050, width = 2, channels = 1\<rparr>"

lemma demo_format_ok [simp]: "format_ok demo_format"
  by (simp add: format_ok_def demo_format_def)

text \<open>A server whose engines echo: three samples for any text, ''yes'' for any audio. Its world
  counts the calls.\<close>

definition demo_tts :: "nat tts_fn" where
  "demo_tts text voice speaker w = ((WYOMING_OK, Some [1, 2, 3], demo_format), w + 1)"

definition demo_asr :: "nat asr_fn" where
  "demo_asr zs fmt language w = ((WYOMING_OK, Some ''yes''), w + 1)"

definition demo_process :: "(nat, unit) stream_process_fn" where
  "demo_process c zs fmt final w = ((WYOMING_OK, Some (if final then ''yes'' else ''ye'')), w + 1)"

definition demo_server :: "(nat, unit) server" where
  "demo_server = (server_zero 10200)
     \<lparr>tts_fn := Some demo_tts, tts_name := Some ''demo'', asr_fn := Some demo_asr,
      voices := [\<lparr>sv_name = Some ''v'', sv_languages = [Some ''en''], sv_description = None,
                  sv_speakers = []\<rparr>],
      asr_stream_create := Some (\<lambda>fmt language w. (Some (), w)),
      asr_stream_process := Some demo_process,
      asr_stream_destroy := Some (\<lambda>c w. w + 10)\<rparr>"

lemma demo_server_fields [simp]:
  "tts_fn demo_server = Some demo_tts" "asr_fn demo_server = Some demo_asr"
  "asr_stream_create demo_server = Some (\<lambda>fmt language w. (Some (), w))"
  "asr_stream_process demo_server = Some demo_process"
  "asr_stream_destroy demo_server = Some (\<lambda>c w. w + 10)"
  by (simp_all add: demo_server_def)

text \<open>A connection on which the given bytes arrive and every write succeeds.\<close>

definition demo_session :: "byte list \<Rightarrow> nat session" where
  "demo_session bs = start_session \<lparr>rx = [Chunk bs], ws = [], tx = []\<rparr> 0 None"

lemma demo_session_fields [simp]:
  "pending (s_io (demo_session bs)) = bs" "session_tx (demo_session bs) = []"
  "session_writable (demo_session bs)" "s_stop (demo_session bs) = None"
  "s_world (demo_session bs) = 0" "s_live (demo_session bs) = 0"
  by (simp_all add: demo_session_def start_session_def session_tx_def session_writable_def
      writable_def iobuf_init_def pending_def)

lemma source_of_fields [simp]:
  "pending (source_of bs) = bs" "tx (io_fd (source_of bs)) = []" "writable (io_fd (source_of bs))"
  by (simp_all add: source_of_def pending_def iobuf_init_def writable_def)

section \<open>Properties\<close>

subsection \<open>Conversations\<close>

text \<open>C1: speech synthesis end to end. A client calls \<^verbatim>\<open>wyoming_synthesize_pcm\<close> and a server
  runs \<^verbatim>\<open>handle_client\<close>; the server reads, in whatever portions, exactly what the client
  sends, and the client what the server sends. Then the call returns \<^verbatim>\<open>WYOMING_OK\<close> with the
  engine's format and exactly the engine's samples, however many chunk events they took; the
  engine was called once, with the text and voice of the call, and the server owns no more than
  before.\<close>

theorem synthesize_dialog:
  assumes "tts_fn srv = Some fn" and "fn text voice None (s_world s) = ((WYOMING_OK, Some zs, fmt), w)"
    and "format_ok fmt" and "c_string text" and "opt_c_string voice"
    and "platform_ok P (9000 + 6 * length text + 6 * opt_length voice)" and "pcm_room P 4096 (length zs)"
    and "session_writable s" and "s_stop s = None" and "session_tx s = []"
    and "writable (io_fd conn)" and "tx (io_fd conn) = []"
    and "wyoming_synthesize_pcm P conn (Some text) voice = (rc, audio, got, conn')"
    and "pending (s_io s) = tx (io_fd conn')"
    and "pending conn = session_tx (handle_client P srv s)"
  shows "rc = WYOMING_OK \<and> (case audio of None \<Rightarrow> [] | Some ys \<Rightarrow> ys) = zs \<and> got = fmt \<and>
     s_world (handle_client P srv s) = w \<and> s_live (handle_client P srv s) = s_live s"
  by (rule synthesize_exchange [OF assms])

lemma demo_synthesize_request:
  assumes "wyoming_synthesize_pcm demo_platform (source_of bs) (Some ''hi'') None = (rc, audio, got, conn')"
  shows "tx (io_fd conn') = frame demo_platform (synthesize_msg ''hi'' None)"
proof (rule wyoming_synthesize_pcm_posts [of "''hi''" None demo_platform "source_of bs"])
  fix c1 assume c1: "wyoming_synthesize_pcm demo_platform (source_of bs) (Some ''hi'') None =
      collect_audio demo_platform c1 pcm_empty \<lparr>rate = 0, width = 0, channels = 0\<rparr> False"
    "posted demo_platform (source_of bs) [synthesize_msg ''hi'' None] c1"
  show ?thesis
    using collect_audio_tx [OF assms [unfolded c1(1)]] c1(2) by (simp add: posted_def)
qed (simp_all add: opt_c_string_def opt_length_def)

theorem synthesize_dialog_witness:
  "let s = demo_session (frame demo_platform (synthesize_msg ''hi'' None));
       conn = source_of (session_tx (handle_client demo_platform demo_server s))
   in \<exists>audio conn'. wyoming_synthesize_pcm demo_platform conn (Some ''hi'') None =
          (WYOMING_OK, audio, demo_format, conn') \<and>
        (case audio of None \<Rightarrow> [] | Some ys \<Rightarrow> ys) = [1, 2, 3] \<and>
        s_world (handle_client demo_platform demo_server s) = 1"
proof -
  let ?s = "demo_session (frame demo_platform (synthesize_msg ''hi'' None))"
  let ?conn = "source_of (session_tx (handle_client demo_platform demo_server ?s))"
  obtain rc audio got conn' where run:
    "wyoming_synthesize_pcm demo_platform ?conn (Some ''hi'') None = (rc, audio, got, conn')"
    by (metis surj_pair)
  have "rc = WYOMING_OK \<and> (case audio of None \<Rightarrow> [] | Some ys \<Rightarrow> ys) = [1, 2, 3] \<and> got = demo_format \<and>
     s_world (handle_client demo_platform demo_server ?s) = 1 \<and>
     s_live (handle_client demo_platform demo_server ?s) = s_live ?s"
    by (rule synthesize_dialog [OF _ _ _ _ _ _ _ _ _ _ _ _ run, where fn = demo_tts])
      (use demo_synthesize_request [OF run] in \<open>simp_all add: demo_tts_def opt_c_string_def opt_length_def\<close>)
  with run show ?thesis by (simp add: Let_def)
qed

text \<open>C2: transcription end to end. With each side reading exactly what the other sends,
  \<^verbatim>\<open>wyoming_transcribe_pcm\<close> returns the engine's text (the empty one if the engine fails),
  the engine having been called once with the client's format, its language, and exactly the
  client's samples, though these travelled in chunks of 2048 bytes.\<close>

theorem transcribe_dialog:
  assumes "asr_fn srv = Some fn" and "fn zs fmt (given_language language) (s_world s) = (res, w)"
    and "format_ok fmt" and "zs \<noteq> []" and "opt_c_string language" and "c_string (reply_text res)"
    and "platform_ok P (9000 + 6 * opt_length language + 6 * length (reply_text res))"
    and "pcm_room P 16000 (length zs)"
    and "session_writable s" and "s_stop s = None" and "session_tx s = []"
    and "writable (io_fd conn)" and "tx (io_fd conn) = []"
    and "wyoming_transcribe_pcm P conn (Some zs) fmt language = (rc, text, conn')"
    and "pending (s_io s) = tx (io_fd conn')"
    and "pending conn = session_tx (handle_client P srv s)"
  shows "rc = WYOMING_OK \<and> text = Some (reply_text res) \<and>
     s_world (handle_client P srv s) = w \<and> s_live (handle_client P srv s) = s_live s"
proof -
  have p1: "platform_ok P (9000 + 6 * opt_length language)" by (rule platform_ok_mono [OF assms(7)]) simp
  have p2: "platform_ok P (9000 + 6 * length (reply_text res))" by (rule platform_ok_mono [OF assms(7)]) simp
  obtain c1 where c1: "wyoming_transcribe_pcm P conn (Some zs) fmt language = await_transcript P c1"
    "posted P conn (transcribe_upload fmt zs language) c1"
    by (rule wyoming_transcribe_pcm_posts [OF assms(4,3,5) p1 assms(12)])
  note run = assms(14) [unfolded c1(1)]
  have "pending (s_io s) = frames P (transcribe_upload fmt zs language)"
    using assms(13,15) c1(2) await_transcript_tx [OF run] by (simp add: posted_def)
  note served = serve_transcribe [OF assms(1-8) assms(9,10) this]
  have "pending c1 = frame P (transcript_msg (reply_text res) False) @ []"
    using assms(11,16) served c1(2) by (simp add: posted_def)
  from await_transcript_ok [OF transcript_msg_sendable(1) [OF assms(6) p2] p2 this] run served
  show ?thesis by simp
qed

lemma demo_transcribe_request:
  assumes "wyoming_transcribe_pcm demo_platform (source_of bs) (Some [7, 8]) demo_format (Some ''en'') =
    (rc, text, conn')"
  shows "tx (io_fd conn') = frames demo_platform (transcribe_upload demo_format [7, 8] (Some ''en''))"
proof (rule wyoming_transcribe_pcm_posts [of "[7, 8]" demo_format "Some ''en''" demo_platform "source_of bs"])
  fix c1 assume c1: "wyoming_transcribe_pcm demo_platform (source_of bs) (Some [7, 8]) demo_format (Some ''en'') =
      await_transcript demo_platform c1"
    "posted demo_platform (source_of bs) (transcribe_upload demo_format [7, 8] (Some ''en'')) c1"
  show ?thesis
    using await_transcript_tx [OF assms [unfolded c1(1)]] c1(2) by (simp add: posted_def)
qed (simp_all add: opt_c_string_def opt_length_def)

theorem transcribe_dialog_witness:
  "let s = demo_session (frames demo_platform (transcribe_upload demo_format [7, 8] (Some ''en'')));
       conn = source_of (session_tx (handle_client demo_platform demo_server s))
   in \<exists>conn'. wyoming_transcribe_pcm demo_platform conn (Some [7, 8]) demo_format (Some ''en'') =
          (WYOMING_OK, Some ''yes'', conn') \<and>
        s_world (handle_client demo_platform demo_server s) = 1"
proof -
  let ?s = "demo_session (frames demo_platform (transcribe_upload demo_format [7, 8] (Some ''en'')))"
  let ?conn = "source_of (session_tx (handle_client demo_platform demo_server ?s))"
  obtain rc reply conn' where run:
    "wyoming_transcribe_pcm demo_platform ?conn (Some [7, 8]) demo_format (Some ''en'') = (rc, reply, conn')"
    by (metis surj_pair)
  have "rc = WYOMING_OK \<and> reply = Some (reply_text (WYOMING_OK, Some ''yes'')) \<and>
     s_world (handle_client demo_platform demo_server ?s) = 1 \<and>
     s_live (handle_client demo_platform demo_server ?s) = s_live ?s"
    by (rule transcribe_dialog [OF _ _ _ _ _ _ _ _ _ _ _ _ _ run, where fn = demo_asr])
      (use demo_transcribe_request [OF run] in
        \<open>simp_all add: demo_asr_def opt_c_string_def opt_length_def reply_text_def\<close>)
  with run show ?thesis by (simp add: Let_def reply_text_def)
qed

text \<open>C3: streaming transcription end to end. The application starts a stream, sends its chunks
  and stops it; with each side reading exactly what the other sends, the final call returns the
  engine's final text, every partial text the engine gave was sent as a partial transcript in
  between, the engine saw the chunks one by one and in order, then the final call, and its
  context was created and destroyed.\<close>

theorem streaming_dialog:
  assumes "asr_stream_create srv = Some create" and "asr_stream_process srv = Some process"
    and "asr_stream_destroy srv = Some destroy"
    and "create fmt (given_language language) (s_world s) = (Some c, w0)"
    and "feed process c fmt zss w0 = (ts, w1)" and "process c None fmt True w1 = (res, w2)"
    and "format_ok fmt" and "segments_ok P zss" and "opt_c_string language"
    and "texts_ok P (ts @ [final_text res])" and "platform_ok P (9000 + 6 * opt_length language)"
    and "session_writable s" and "s_stop s = None" and "session_tx s = []"
    and "writable (io_fd conn)" and "tx (io_fd conn) = []"
    and "transcribe_stream P conn fmt language zss = (rc, text, conn')"
    and "pending (s_io s) = tx (io_fd conn')"
    and "pending conn = session_tx (handle_client P srv s)"
  shows "rc = WYOMING_OK \<and> text = Some (final_text res) \<and>
     pending conn = frames P (partial_msgs ts @ [transcript_msg (final_text res) False]) \<and>
     s_world (handle_client P srv s) = destroy c w2 \<and> s_live (handle_client P srv s) = s_live s"
proof -
  obtain c1 where c1: "transcribe_stream P conn fmt language zss = await_final P c1 None"
    "posted P conn (stream_request fmt zss language) c1"
    by (rule transcribe_stream_ok [OF assms(7,9,11,8,15)])
  note run = assms(17) [unfolded c1(1)]
  have "pending (s_io s) = frames P (stream_request_with
      [bare_msg WYOMING_EVENT_AUDIO_STOP, bare_msg WYOMING_EVENT_TRANSCRIBE_STOP] fmt zss language)"
    using assms(16,18) c1(2) await_final_tx [OF run] by (simp add: posted_def stream_request_def stop_msgs_def)
  moreover have "ends_stream WYOMING_EVENT_AUDIO_STOP" "ends_stream WYOMING_EVENT_TRANSCRIBE_STOP"
    by (simp_all add: ends_stream_def)
  moreover have "platform_ok P 9000" by (rule platform_ok_mono [OF assms(11)]) simp
  ultimately have served: "session_tx (handle_client P srv s) = session_tx s @ frames P (stream_reply ts (final_text res)) \<and>
     s_world (handle_client P srv s) = destroy c w2 \<and> s_live (handle_client P srv s) = s_live s"
    using serve_streaming [OF assms(1-13)] stop_sendable by blast
  have reply: "pending conn = frames P (stream_reply ts (final_text res))" using assms(14,19) served by simp
  then have "pending c1 = frames P (stream_reply ts (final_text res)) @ []"
    using c1(2) by (simp add: posted_def)
  from await_final_reply [OF _ _ this, of None] assms(10) run served reply show ?thesis
    by (simp add: stream_reply_def)
qed

lemma demo_stream_request:
  assumes "transcribe_stream demo_platform (source_of bs) demo_format None [[7, 8], [9]] = (rc, text, conn')"
  shows "tx (io_fd conn') = frames demo_platform (stream_request demo_format [[7, 8], [9]] None)"
proof (rule transcribe_stream_ok [of demo_format None demo_platform "[[7, 8], [9]]" "source_of bs"])
  fix c1 assume c1: "transcribe_stream demo_platform (source_of bs) demo_format None [[7, 8], [9]] =
      await_final demo_platform c1 None"
    "posted demo_platform (source_of bs) (stream_request demo_format [[7, 8], [9]] None) c1"
  show ?thesis
    using await_final_tx [OF assms [unfolded c1(1)]] c1(2) by (simp add: posted_def)
qed (simp_all add: opt_c_string_def opt_length_def segments_ok_def)

theorem streaming_dialog_witness:
  "let s = demo_session (frames demo_platform (stream_request demo_format [[7, 8], [9]] None));
       conn = source_of (session_tx (handle_client demo_platform demo_server s))
   in \<exists>conn'. transcribe_stream demo_platform conn demo_format None [[7, 8], [9]] =
          (WYOMING_OK, Some ''yes'', conn') \<and>
        s_world (handle_client demo_platform demo_server s) = 13"
proof -
  let ?s = "demo_session (frames demo_platform (stream_request demo_format [[7, 8], [9]] None))"
  let ?conn = "source_of (session_tx (handle_client demo_platform demo_server ?s))"
  let ?res = "(WYOMING_OK, Some ''yes'')"
  obtain rc reply conn' where run:
    "transcribe_stream demo_platform ?conn demo_format None [[7, 8], [9]] = (rc, reply, conn')"
    by (metis surj_pair)
  have "rc = WYOMING_OK \<and> reply = Some (final_text ?res) \<and>
     pending ?conn = frames demo_platform (partial_msgs [''ye'', ''ye''] @ [transcript_msg (final_text ?res) False]) \<and>
     s_world (handle_client demo_platform demo_server ?s) = (\<lambda>c w. w + 10) () (3 :: nat) \<and>
     s_live (handle_client demo_platform demo_server ?s) = s_live ?s"
    by (rule streaming_dialog [OF _ _ _ _ _ _ _ _ _ _ _ _ _ _ _ _ run, where process = demo_process
        and ?w0.0 = 0 and ?w1.0 = 2 and create = "\<lambda>fmt language w. (Some (), w)"])
      (use demo_stream_request [OF run] in
        \<open>simp_all add: demo_process_def opt_c_string_def opt_length_def segments_ok_def said_def final_text_def\<close>)
  with run show ?thesis by (simp add: Let_def final_text_def)
qed

text \<open>C4: discovery end to end. What \<^verbatim>\<open>wyoming_describe\<close> returns is the server's
  registrations: every voice with its languages, description and speakers, every model with its
  languages, under the names and versions of the engines, in the order they were registered.\<close>

theorem describe_dialog:
  assumes "server_ok srv" and "server_room P srv" and "event_room P (info_msg srv)" and "platform_ok P 9000"
    and "session_writable s" and "s_stop s = None" and "session_tx s = []"
    and "writable (io_fd conn)" and "tx (io_fd conn) = []"
    and "wyoming_describe P conn = (rc, info, conn')"
    and "pending (s_io s) = tx (io_fd conn')"
    and "pending conn = session_tx (handle_client P srv s)"
  shows "rc = WYOMING_OK \<and> info = info_of srv"
  by (rule describe_exchange [OF assms])

lemma demo_describe_request:
  assumes "wyoming_describe demo_platform (source_of bs) = (rc, info, conn')"
  shows "tx (io_fd conn') = frame demo_platform (bare_msg WYOMING_EVENT_DESCRIBE)"
proof (rule wyoming_describe_posts [of demo_platform "source_of bs"])
  fix c1 assume c1: "conn_write demo_platform (source_of bs) (bare_event demo_platform WYOMING_EVENT_DESCRIBE) =
      (WYOMING_OK, c1)"
    "posted demo_platform (source_of bs) [bare_msg WYOMING_EVENT_DESCRIBE] c1"
  show ?thesis
    using wyoming_describe_tx [OF c1(1) assms] c1(2) by (simp add: posted_def)
qed simp_all

theorem describe_dialog_witness:
  "let s = demo_session (frame demo_platform (bare_msg WYOMING_EVENT_DESCRIBE));
       conn = source_of (session_tx (handle_client demo_platform demo_server s))
   in \<exists>info conn'. wyoming_describe demo_platform conn = (WYOMING_OK, info, conn') \<and>
        info = info_of demo_server \<and> info_tts info \<noteq> []"
proof -
  let ?s = "demo_session (frame demo_platform (bare_msg WYOMING_EVENT_DESCRIBE))"
  let ?conn = "source_of (session_tx (handle_client demo_platform demo_server ?s))"
  obtain rc info conn' where run: "wyoming_describe demo_platform ?conn = (rc, info, conn')"
    by (metis surj_pair)
  have ok: "server_ok demo_server" by code_simp
  have room: "server_room demo_platform demo_server"
    by (simp add: server_room_def string_fits_def) code_simp
  have "length (frame demo_platform (info_msg demo_server)) \<le> 1000" by code_simp
  then have event: "event_room demo_platform (info_msg demo_server)" by (simp add: event_room_def)
  have "rc = WYOMING_OK \<and> info = info_of demo_server"
    by (rule describe_dialog [OF ok room event _ _ _ _ _ _ run])
      (use demo_describe_request [OF run] in simp_all)
  with run show ?thesis by (simp add: Let_def info_of_def)
qed

subsection \<open>The server against an arbitrary client\<close>

lemma demo_engines_ok [simp]: "engines_ok demo_platform demo_server"
  by (auto simp: engines_ok_def demo_tts_def demo_asr_def demo_process_def text_ok_def)

lemma demo_host_ok [simp]: "host_ok demo_platform demo_server"
proof -
  have "length (frame demo_platform (info_msg demo_server)) \<le> 1000" by code_simp
  then have "event_room demo_platform (info_msg demo_server)" by (simp add: event_room_def)
  moreover have "server_room demo_platform demo_server"
    by (simp add: server_room_def string_fits_def) code_simp
  ultimately show ?thesis by (simp add: host_ok_def)
qed

text \<open>C5: whatever bytes a client sends, in whatever portions, with whatever read errors,
  whenever the server is told to stop, and whether or not its writes succeed, the bytes the
  server puts on the connection are the frames of well-formed messages, and a client that reads
  them gets exactly those messages. Only behind a write that failed, as with a client that closed
  or reset its end, is there anything else: beginnings of such frames, the first of them torn.
  The engines have to keep to their contract (\<open>engines_ok\<close>: audio formats of 32-bit
  integers, texts that are C strings) and the server's host to have the memory for its own
  messages (\<open>host_ok\<close>).\<close>

theorem server_speaks_protocol:
  assumes "engines_ok P srv" and "host_ok P srv"
  shows "\<exists>es ps. session_tx (handle_client P srv s) =
       session_tx s @ frames P es @ concat (map (\<lambda>(e, k). take k (frame P e)) ps) \<and>
     list_all event_wf es \<and> list_all (\<lambda>(e, k). event_wf e \<and> k \<le> length (frame P e)) ps \<and>
     (case ps of [] \<Rightarrow> True | (e, k) # _ \<Rightarrow> \<not> session_writable s \<and> k < length (frame P e)) \<and>
     (\<forall>conn rest. pending conn = frames P es @ rest \<longrightarrow>
        (\<exists>conn'. receive_many (wyoming_event_read_iobuf P) (length es) conn = (WYOMING_OK, es, conn') \<and>
           pending conn' = rest))"
proof -
  obtain rs where rs: "list_all (piece_ok P) rs" "session_tx (handle_client P srv s) = session_tx s @ wire P rs"
    "session_writable s \<longrightarrow> list_all (whole P) rs"
    using handle_client_speaks [OF assms, of s] by (auto simp: speaks_def)
  obtain es ps where es: "wire P rs = frames P es @ wire P ps" "list_all (sendable P) es"
    and ps: "list_all (piece_ok P) ps" "ps \<noteq> [] \<longrightarrow> \<not> whole P (hd ps)" "list_all (whole P) rs \<longrightarrow> ps = []"
    using wire_split [OF rs(1)] by metis
  have torn: "case ps of [] \<Rightarrow> True | (e, k) # _ \<Rightarrow> \<not> session_writable s \<and> k < length (frame P e)"
    using ps rs(3) by (cases ps) (auto simp: whole_def piece_ok_def)
  have "list_all event_wf es" "list_all (\<lambda>(e, k). event_wf e \<and> k \<le> length (frame P e)) ps"
    using es(2) ps(1) by (auto simp: list_all_iff sendable_def piece_ok_def)
  with rs(2) es(1) torn es(2) ev.decode_many [of P es] show ?thesis
    unfolding frames_def sendable_def wire_def by (intro exI [of _ es] exI [of _ ps]) simp
qed

text \<open>A client that asks for the description and is gone after three bytes of the answer.\<close>

definition demo_quitter :: "nat session" where
  "demo_quitter =
     start_session \<lparr>rx = [Chunk (frame demo_platform (bare_msg WYOMING_EVENT_DESCRIBE))],
                    ws = [Accept 3, WFail], tx = []\<rparr> 0 None"

lemma demo_quitter_fields [simp]:
  "session_tx demo_quitter = []" "s_live demo_quitter = 0" "s_rcvtimeo demo_quitter = 30" "iobuf_ok (s_io demo_quitter)"
  by (simp_all add: demo_quitter_def start_session_def session_tx_def iobuf_init_def iobuf_ok_def)

theorem server_speaks_protocol_witness:
  "(\<exists>es. session_tx (handle_client demo_platform demo_server (demo_session ''{]'')) = frames demo_platform es \<and>
      list_all event_wf es) \<and>
   (\<exists>es ps. session_tx (handle_client demo_platform demo_server demo_quitter) =
        frames demo_platform es @ concat (map (\<lambda>(e, k). take k (frame demo_platform e)) ps) \<and>
      list_all event_wf es \<and> list_all (\<lambda>(e, k). event_wf e \<and> k \<le> length (frame demo_platform e)) ps)"
proof (intro conjI)
  have srv: "engines_ok demo_platform demo_server" "host_ok demo_platform demo_server" by simp_all
  from server_speaks_protocol [OF this, of "demo_session ''{]''"]
  show "\<exists>es. session_tx (handle_client demo_platform demo_server (demo_session ''{]'')) = frames demo_platform es \<and>
      list_all event_wf es" by (force split: list.splits)
  from server_speaks_protocol [OF srv, of demo_quitter]
  show "\<exists>es ps. session_tx (handle_client demo_platform demo_server demo_quitter) =
        frames demo_platform es @ concat (map (\<lambda>(e, k). take k (frame demo_platform e)) ps) \<and>
      list_all event_wf es \<and> list_all (\<lambda>(e, k). event_wf e \<and> k \<le> length (frame demo_platform e)) ps"
    by (simp only: demo_quitter_fields append_Nil) blast
qed

text \<open>C6: and it leaves the connection's state in order, whatever the client sends, whichever
  reads, writes and allocations fail, and whatever the engines return: the read position and fill
  of the 8 KiB buffer stay within its bounds, the receive timeout is the 30 seconds it started
  with, and the handler released all it had acquired, but possibly one object, and that only when
  a batch recogniser is registered. The one thing asked of the application is that stream
  contexts can be destroyed if they can be created.\<close>

theorem server_keeps_order:
  fixes P :: platform
  assumes "asr_stream_create srv = None \<or> asr_stream_destroy srv \<noteq> None"
    and "iobuf_ok (s_io s)" and "s_rcvtimeo s = 30"
  defines "s' \<equiv> handle_client P srv s"
  shows "iobuf_ok (s_io s') \<and> s_rcvtimeo s' = 30 \<and> s_live s \<le> s_live s' \<and> s_live s' \<le> s_live s + 1 \<and>
     (asr_fn srv = None \<longrightarrow> s_live s' = s_live s)"
proof -
  have "stream_closes srv" using assms(1) by (auto simp: stream_closes_def)
  from handle_client_serves [OF this, of P s] assms(2,3) show ?thesis
    unfolding s'_def by (auto simp: serves_def)
qed

theorem server_keeps_order_witness:
  "s_rcvtimeo (handle_client demo_platform demo_server (demo_session ''{]'')) = 30 \<and>
   s_live (handle_client demo_platform demo_server (demo_session ''{]'')) \<le> 1 \<and>
   s_rcvtimeo (handle_client demo_platform demo_server demo_quitter) = 30 \<and>
   s_live (handle_client demo_platform demo_server demo_quitter) \<le> 1"
proof -
  have "asr_stream_create demo_server = None \<or> asr_stream_destroy demo_server \<noteq> None" by simp
  note order = server_keeps_order [OF this]
  have "iobuf_ok (s_io (demo_session ''{]''))" "s_rcvtimeo (demo_session ''{]'') = 30"
    by (simp_all add: demo_session_def start_session_def iobuf_init_def iobuf_ok_def)
  from order [OF this] order [of demo_quitter] show ?thesis by simp
qed

text \<open>C7: the object that can stay behind. When a \<^verbatim>\<open>transcribe\<close> request names a language
  and any event but \<^verbatim>\<open>audio-start\<close> follows, the connection ends without an answer and the
  copied language string is not freed.\<close>

theorem transcribe_leak:
  assumes "asr_fn srv = Some fn" and "opt_c_string (Some l)" and "l \<noteq> []"
    and "platform_ok P (9000 + 6 * length l)"
    and "sendable P e" and "ev_type e \<noteq> Some WYOMING_EVENT_AUDIO_START" and "s_stop s = None"
    and "pending (s_io s) = frames P [request_msg WYOMING_EVENT_TRANSCRIBE (Some l), e] @ rest"
  shows "s_live (handle_client P srv s) = s_live s + 1 \<and>
     session_tx (handle_client P srv s) = session_tx s \<and> pending (s_io (handle_client P srv s)) = rest"
  using transcribe_break [of srv fn "Some l" l P e s rest] assms
  by (simp add: given_language_def opt_length_def)

lemma demo_describe_sendable [simp]: "sendable demo_platform (bare_msg WYOMING_EVENT_DESCRIBE)"
  by (rule audio_sendable(3) [of demo_format]) simp_all

theorem transcribe_leak_witness:
  "s_live (handle_client demo_platform demo_server (demo_session (frames demo_platform
     [request_msg WYOMING_EVENT_TRANSCRIBE (Some ''en''), bare_msg WYOMING_EVENT_DESCRIBE]))) = 1"
  using transcribe_leak [of demo_server demo_asr "''en''" demo_platform "bare_msg WYOMING_EVENT_DESCRIBE"
    "demo_session (frames demo_platform
       [request_msg WYOMING_EVENT_TRANSCRIBE (Some ''en''), bare_msg WYOMING_EVENT_DESCRIBE])" "[]"]
  by (simp add: opt_c_string_def)

text \<open>C8: after the \<^verbatim>\<open>transcribe-stop\<close> that ends a stream the server reads one more event and
  drops it, whatever it is: it is never answered.\<close>

theorem stream_swallows_next:
  assumes "asr_stream_create srv = Some create" and "asr_stream_process srv = Some process"
    and "asr_stream_destroy srv = Some destroy"
    and "create fmt (given_language language) (s_world s) = (Some c, w0)"
    and "feed process c fmt zss w0 = (ts, w1)" and "process c None fmt True w1 = (res, w2)"
    and "format_ok fmt" and "segments_ok P zss" and "opt_c_string language"
    and "texts_ok P (ts @ [final_text res])" and "platform_ok P (9000 + 6 * opt_length language)"
    and "session_writable s" and "s_stop s = None" and "sendable P e"
    and "pending (s_io s) = frames P (stream_request_with [bare_msg WYOMING_EVENT_TRANSCRIBE_STOP, e] fmt zss language)"
  shows "session_tx (handle_client P srv s) =
     session_tx s @ frames P (partial_msgs ts @ [transcript_msg (final_text res) False])"
  using serve_streaming [OF assms(1-13,15) _ assms(14)] by (simp add: ends_stream_def stream_reply_def)

theorem stream_swallows_next_witness:
  "session_tx (handle_client demo_platform demo_server (demo_session (frames demo_platform
      (stream_request_with [bare_msg WYOMING_EVENT_TRANSCRIBE_STOP, bare_msg WYOMING_EVENT_DESCRIBE]
         demo_format [[7]] None)))) =
   frames demo_platform [transcript_msg ''ye'' True, transcript_msg ''yes'' False]"
proof -
  let ?s = "demo_session (frames demo_platform (stream_request_with
      [bare_msg WYOMING_EVENT_TRANSCRIBE_STOP, bare_msg WYOMING_EVENT_DESCRIBE] demo_format [[7]] None))"
  let ?res = "(WYOMING_OK, Some ''yes'')"
  have "session_tx (handle_client demo_platform demo_server ?s) =
      session_tx ?s @ frames demo_platform (partial_msgs [''ye''] @ [transcript_msg (final_text ?res) False])"
    by (rule stream_swallows_next [where process = demo_process and ?w0.0 = 0 and ?w1.0 = 1
        and e = "bare_msg WYOMING_EVENT_DESCRIBE"
        and create = "\<lambda>fmt language w. (Some (), w)"])
      (simp_all add: demo_process_def opt_c_string_def opt_length_def segments_ok_def said_def final_text_def)
  then show ?thesis by (simp add: final_text_def)
qed

text \<open>C9: a whole connection refines its specification. For any sequence of requests of all
  kinds, events that nobody serves among them, \<^verbatim>\<open>handle_client\<close> sends exactly the messages
  that the specification answers them with, in order, moves the engines through exactly its
  worlds, and releases all it acquired: engines that are missing, fail or refuse included.\<close>

theorem connection_refines:
  assumes "engines_ok P srv" and "host_ok P srv" and "list_all (request_ok P) rs"
    and "session_writable s" and "s_stop s = None"
    and "pending (s_io s) = frames P (concat (map request_msgs rs))"
    and "converse srv (s_world s) rs = (es, w)"
  shows "session_tx (handle_client P srv s) = session_tx s @ frames P es \<and>
    s_world (handle_client P srv s) = w \<and> s_live (handle_client P srv s) = s_live s"
  by (rule conversation [OF assms])

definition demo_requests :: "request list" where
  "demo_requests =
     [Synthesize ''hi'' None, Other (bare_msg WYOMING_EVENT_AUDIO_STOP), Stream demo_format [[7, 8], [9]] None,
      Transcribe demo_format [7, 8] (Some ''en''), Describe]"

lemma demo_requests_ok [simp]: "list_all (request_ok demo_platform) demo_requests"
proof -
  have "sendable demo_platform (bare_msg WYOMING_EVENT_AUDIO_STOP)"
    by (rule audio_sendable(3) [of demo_format]) simp_all
  then show ?thesis
    by (simp add: demo_requests_def opt_c_string_def opt_length_def segments_ok_def)
qed

lemma demo_converse:
  "converse demo_server 0 demo_requests =
     (audio_reply demo_format [1, 2, 3] @ stream_reply [''ye'', ''ye''] ''yes'' @
      [transcript_msg ''yes'' False, info_msg demo_server], 15)"
  by (simp add: demo_requests_def demo_tts_def demo_asr_def demo_process_def answer_stream_def said_def
      final_text_def reply_text_def)

theorem connection_refines_witness:
  "session_tx (handle_client demo_platform demo_server
      (demo_session (frames demo_platform (concat (map request_msgs demo_requests))))) =
   frames demo_platform (audio_reply demo_format [1, 2, 3] @ stream_reply [''ye'', ''ye''] ''yes'' @
     [transcript_msg ''yes'' False, info_msg demo_server])"
  using connection_refines [OF demo_engines_ok demo_host_ok demo_requests_ok,
      of "demo_session (frames demo_platform (concat (map request_msgs demo_requests)))"] demo_converse
  by simp

text \<open>C10: a whole conversation from end to end. A client makes any sequence of calls on one
  connection, each side reading exactly what the other sends. If every request has an answer,
  every call returns the outcome the specification gives it: the server's information, the
  engine's samples, the recogniser's texts, each call its own; nothing is left over on the
  connection, and the engines end in the world of the specification.\<close>

theorem conversation_dialog:
  assumes "engines_ok P srv" and "host_ok P srv" and "server_ok srv" and "tts_fits P srv"
    and "list_all (request_ok P) rs" and "outcomes srv (s_world s) rs = Some xs"
    and "session_writable s" and "s_stop s = None" and "session_tx s = []"
    and "writable (io_fd conn)" and "tx (io_fd conn) = []"
    and "perform_all P conn rs = (ys, conn')"
    and "pending (s_io s) = tx (io_fd conn')"
    and "pending conn = session_tx (handle_client P srv s)"
  shows "ys = xs \<and> pending conn' = [] \<and>
     s_world (handle_client P srv s) = snd (converse srv (s_world s) rs) \<and>
     s_live (handle_client P srv s) = s_live s"
  by (rule conversation_exchange [OF assms])

lemma demo_tts_fits: "tts_fits demo_platform demo_server"
  by (simp add: tts_fits_def)

lemma demo_server_ok: "server_ok demo_server"
  by code_simp

lemma demo_outcomes:
  "outcomes demo_server 0 demo_requests =
     Some [Sounded WYOMING_OK [1, 2, 3] demo_format, Sent WYOMING_OK, Heard WYOMING_OK (Some ''yes''),
       Heard WYOMING_OK (Some ''yes''), Described WYOMING_OK (info_of demo_server)]"
  by (simp add: demo_requests_def demo_tts_def demo_asr_def demo_process_def answer_stream_def said_def
      final_text_def reply_text_def)

theorem conversation_dialog_witness:
  "let s = demo_session (frames demo_platform (concat (map request_msgs demo_requests)));
       conn = source_of (session_tx (handle_client demo_platform demo_server s))
   in fst (perform_all demo_platform conn demo_requests) =
        [Sounded WYOMING_OK [1, 2, 3] demo_format, Sent WYOMING_OK, Heard WYOMING_OK (Some ''yes''),
         Heard WYOMING_OK (Some ''yes''), Described WYOMING_OK (info_of demo_server)]"
proof -
  let ?s = "demo_session (frames demo_platform (concat (map request_msgs demo_requests)))"
  let ?conn = "source_of (session_tx (handle_client demo_platform demo_server ?s))"
  obtain ys conn' where run: "perform_all demo_platform ?conn demo_requests = (ys, conn')" by force
  have sent: "tx (io_fd conn') = pending (s_io ?s)"
    using perform_all_sends [OF _ demo_requests_ok _ run] by simp
  have out: "outcomes demo_server (s_world ?s) demo_requests =
      Some [Sounded WYOMING_OK [1, 2, 3] demo_format, Sent WYOMING_OK, Heard WYOMING_OK (Some ''yes''),
       Heard WYOMING_OK (Some ''yes''), Described WYOMING_OK (info_of demo_server)]"
    using demo_outcomes by simp
  have "ys = [Sounded WYOMING_OK [1, 2, 3] demo_format, Sent WYOMING_OK, Heard WYOMING_OK (Some ''yes''),
       Heard WYOMING_OK (Some ''yes''), Described WYOMING_OK (info_of demo_server)] \<and> pending conn' = [] \<and>
     s_world (handle_client demo_platform demo_server ?s) = snd (converse demo_server (s_world ?s) demo_requests) \<and>
     s_live (handle_client demo_platform demo_server ?s) = s_live ?s"
    by (rule conversation_dialog [OF demo_engines_ok demo_host_ok demo_server_ok demo_tts_fits demo_requests_ok
        out _ _ _ _ _ run]) (use sent in simp_all)
  with run show ?thesis by (simp add: Let_def)
qed

subsection \<open>Events on the wire\<close>

text \<open>C11: an event that is written to a socket and read from its other end, however the two
  kernels split, delay or interrupt the calls. If the write succeeds, the read returns that very
  event and nothing is left over. If the write fails, it is with \<^verbatim>\<open>WYOMING_ERR_IO\<close>, and the
  reader, who sees a torn frame, gets an error and an empty event, never a wrong one.\<close>

theorem event_transfer:
  assumes "event_wf e" and "event_room P e"
    and "wyoming_event_write_fd P fd e = (rc, fd')" and "tx fd = []"
    and "pending io = tx fd'" and "wyoming_event_read_iobuf P io = (rc', e', io')"
  shows "rc = WYOMING_OK \<and> rc' = WYOMING_OK \<and> e' = e \<and> pending io' = [] \<or>
     rc = WYOMING_ERR_IO \<and> rc' \<in> {WYOMING_ERR_EOF, WYOMING_ERR_IO} \<and> e' = wyoming_event_init"
proof -
  consider (whole) "rc = WYOMING_OK" "tx fd' = frame P e @ []"
    | (torn) k where "rc = WYOMING_ERR_IO" "k < length (frame P e)" "tx fd' = take k (frame P e)"
    using write_fd_spec [OF assms(1-3)] assms(4) by auto
  then show ?thesis
  proof cases
    case whole
    with read_frame [OF assms(1,2), of io "[]"] assms(5,6) show ?thesis by auto
  next
    case torn
    with read_frame_cut [OF assms(1,2), of io k] stream_end_cases [of io] assms(5,6) show ?thesis by auto
  qed
qed

theorem event_transfer_witness:
  "\<exists>rc fd' rc' e' io'.
     wyoming_event_write_fd demo_platform \<lparr>rx = [], ws = [Accept 3, WIntr, WFail], tx = []\<rparr>
       (bare_msg WYOMING_EVENT_DESCRIBE) = (rc, fd') \<and>
     wyoming_event_read_iobuf demo_platform (source_of (tx fd')) = (rc', e', io') \<and>
     (rc = WYOMING_OK \<and> e' = bare_msg WYOMING_EVENT_DESCRIBE \<or>
      rc = WYOMING_ERR_IO \<and> e' = wyoming_event_init)"
proof -
  let ?fd = "\<lparr>rx = [], ws = [Accept 3, WIntr, WFail], tx = []\<rparr>"
  obtain rc fd' where w: "wyoming_event_write_fd demo_platform ?fd (bare_msg WYOMING_EVENT_DESCRIBE) = (rc, fd')"
    by force
  obtain rc' e' io' where r: "wyoming_event_read_iobuf demo_platform (source_of (tx fd')) = (rc', e', io')"
    by (metis surj_pair)
  have "event_wf (bare_msg WYOMING_EVENT_DESCRIBE)" "event_room demo_platform (bare_msg WYOMING_EVENT_DESCRIBE)"
    using demo_describe_sendable by (simp_all only: sendable_def)
  from event_transfer [OF this w _ _ r] have
    "rc = WYOMING_OK \<and> e' = bare_msg WYOMING_EVENT_DESCRIBE \<or>
     rc = WYOMING_ERR_IO \<and> e' = wyoming_event_init" by auto
  with w r show ?thesis by blast
qed

text \<open>C12: any sequence of events, written one after the other, is read back as that sequence,
  and the stream is left exactly behind the last of them.\<close>

theorem event_sequence:
  assumes "list_all (\<lambda>e. event_wf e \<and> event_room P e) es"
    and "pending io = concat (map (frame P) es) @ rest"
  shows "\<exists>io'. receive_many (wyoming_event_read_iobuf P) (length es) io = (WYOMING_OK, es, io') \<and>
     pending io' = rest"
  using ev.decode_many [OF assms] by blast

theorem event_sequence_witness:
  "\<exists>io'. receive_many (wyoming_event_read_iobuf demo_platform) 2
     (source_of (frame demo_platform (bare_msg WYOMING_EVENT_DESCRIBE) @
       frame demo_platform (start_msg demo_format True))) =
     (WYOMING_OK, [bare_msg WYOMING_EVENT_DESCRIBE, start_msg demo_format True], io')"
proof -
  have "sendable demo_platform (start_msg demo_format True)" by (rule audio_sendable(1)) simp_all
  with event_sequence [of demo_platform "[bare_msg WYOMING_EVENT_DESCRIBE, start_msg demo_format True]"
    "source_of (frame demo_platform (bare_msg WYOMING_EVENT_DESCRIBE) @
       frame demo_platform (start_msg demo_format True))" "[]"] demo_describe_sendable
  show ?thesis by (auto simp: sendable_def numeral_2_eq_2)
qed

text \<open>C14: reading an event from arbitrary input always comes to an end, with a typed event or
  with an error of the reader and the event cleared; it writes nothing, keeps the buffer within
  its bounds, and every event it returns used up input.\<close>

theorem read_event_total:
  "\<exists>rc e io'. wyoming_event_read_iobuf P io = (rc, e, io') \<and>
     (rc = WYOMING_OK \<and> ev_type e \<noteq> None \<and> io_size io' < io_size io \<or>
      rc \<in> {WYOMING_ERR_EOF, WYOMING_ERR_IO, WYOMING_ERR_PARSE, WYOMING_ERR_NOMEM} \<and> e = wyoming_event_init) \<and>
     tx (io_fd io') = tx (io_fd io) \<and> (iobuf_ok io \<longrightarrow> iobuf_ok io')"
proof -
  obtain rc e io' where r: "wyoming_event_read_iobuf P io = (rc, e, io')" by (metis surj_pair)
  with read_event_settles [OF r] read_event_uses(2) [OF r] show ?thesis
    by (cases "rc = WYOMING_OK") (auto simp: settles_def only_reads_def)
qed

theorem read_event_total_witness:
  "\<exists>rc e io'. wyoming_event_read_iobuf demo_platform (source_of ''{'') = (rc, e, io') \<and>
     tx (io_fd io') = [] \<and> iobuf_ok io'"
proof -
  have "iobuf_ok (source_of ''{'')" by (simp add: source_of_def)
  with read_event_total [of demo_platform "source_of ''{''"] show ?thesis by auto
qed

subsection \<open>Buffered input and complete output\<close>

lemma line_reader:
  assumes "line_room P (length (pending io) + 1)" and "iobuf_read_line P io = (res, io')"
  shows "if NL \<in> set (pending io)
     then res = Inr (takeWhile (\<lambda>c. c \<noteq> NL) (pending io)) \<and>
          pending io' = tl (dropWhile (\<lambda>c. c \<noteq> NL) (pending io)) \<and> (iobuf_ok io \<longrightarrow> iobuf_ok io')
     else res = Inl (stream_end io)"
proof (cases "NL \<in> set (pending io)")
  case True
  then obtain l rest where l: "pending io = l @ NL # rest" "NL \<notin> set l" by (meson split_list_first)
  have "line_room P (length l)" by (rule line_room_mono [OF assms(1)]) (simp add: l(1))
  from iobuf_read_line_found [OF l this] obtain io1 where
    io1: "iobuf_read_line P io = (Inr l, io1)" "reads io (l @ [NL]) io1" by blast
  have "takeWhile (\<lambda>c. c \<noteq> NL) (l @ NL # rest) = l" "dropWhile (\<lambda>c. c \<noteq> NL) (l @ NL # rest) = NL # rest"
    by (rule takeWhile_append_stop; use l(2) in auto)+
  with True io1 assms(2) l(1) show ?thesis by (auto simp: reads_def)
next
  case False
  with iobuf_read_line_ended [OF False assms(1)] assms(2) show ?thesis by auto
qed

lemma block_reader:
  assumes "iobuf_read_exact io n = (res, io')"
  shows "if n \<le> length (pending io)
     then res = Inr (take n (pending io)) \<and> pending io' = drop n (pending io)
     else res = Inl (stream_end io)"
proof (cases "n \<le> length (pending io)")
  case True
  with iobuf_read_exact_spec [OF assms] have
    r: "res = Inr (take n (pending io))" "pending io = take n (pending io) @ pending io'"
    by (simp_all add: reads_def)
  then have "pending io' = drop n (pending io)" by (metis append_eq_conv_conj append_take_drop_id same_append_eq)
  with True r show ?thesis by simp
next
  case False
  with iobuf_read_exact_spec [OF assms] show ?thesis by simp
qed

text \<open>C15: \<^verbatim>\<open>iobuf_read_line\<close> does what reading the line off the whole remaining stream
  would do: it returns the bytes up to the first newline and leaves what follows it, and where
  there is no newline it reports how the stream ended. \<^verbatim>\<open>iobuf_read_exact\<close> returns exactly
  the next \<open>n\<close> bytes and leaves the rest, or reports how the stream ended when there are fewer.
  The portions in which the bytes arrive, the buffer's size and interruptions make no difference.\<close>

theorem buffered_readers_exact:
  assumes "line_room P (length (pending io) + 1)"
  shows "(case iobuf_read_line P io of (res, io') \<Rightarrow>
      if NL \<in> set (pending io)
      then res = Inr (takeWhile (\<lambda>c. c \<noteq> NL) (pending io)) \<and>
           pending io' = tl (dropWhile (\<lambda>c. c \<noteq> NL) (pending io)) \<and> (iobuf_ok io \<longrightarrow> iobuf_ok io')
      else res = Inl (stream_end io)) \<and>
    (case iobuf_read_exact io n of (res, io') \<Rightarrow>
      if n \<le> length (pending io)
      then res = Inr (take n (pending io)) \<and> pending io' = drop n (pending io)
      else res = Inl (stream_end io))"
proof -
  obtain l io1 b io2 where r: "iobuf_read_line P io = (l, io1)" "iobuf_read_exact io n = (b, io2)"
    by (metis surj_pair)
  show ?thesis unfolding r prod.case
    using line_reader [OF assms r(1)] block_reader [OF r(2)] by (rule conjI)
qed

theorem buffered_readers_exact_witness:
  "(\<exists>io'. iobuf_read_line demo_platform (source_of ''ab\<newline>c'') = (Inr ''ab'', io') \<and> pending io' = ''c'') \<and>
   (\<exists>io'. iobuf_read_exact (source_of ''ab\<newline>c'') 2 = (Inr ''ab'', io') \<and> pending io' = [NL, CHR ''c''])"
proof -
  obtain l io1 b io2 where r: "iobuf_read_line demo_platform (source_of ''ab\<newline>c'') = (l, io1)"
    "iobuf_read_exact (source_of ''ab\<newline>c'') 2 = (b, io2)" by (metis surj_pair)
  from buffered_readers_exact [of demo_platform "source_of ''ab\<newline>c''" 2] r show ?thesis
    by (simp add: numeral_2_eq_2)
qed

subsection \<open>JSON\<close>

text \<open>An array \<open>[true, null]\<close> at 0, an object with a member \<open>a\<close> at 4, and a string at 3 that is
  in no list.\<close>

definition demo_node :: "kind \<Rightarrow> node" where
  "demo_node k = blank_node\<lparr>n_kind := k\<rparr>"

definition demo_store :: store where
  "demo_store = \<lparr>cells =
     [0 \<mapsto> (demo_node Is_Array)\<lparr>n_child := Some 1\<rparr>,
      1 \<mapsto> (demo_node Is_True)\<lparr>n_next := Some 2, n_prev := Some 2\<rparr>,
      2 \<mapsto> (demo_node Is_NULL)\<lparr>n_prev := Some 1\<rparr>,
      3 \<mapsto> (demo_node Is_String)\<lparr>n_text := Some ''x''\<rparr>,
      4 \<mapsto> (demo_node Is_Object)\<lparr>n_child := Some 5\<rparr>,
      5 \<mapsto> (demo_node Is_False)\<lparr>n_prev := Some 5, n_key := Some ''a''\<rparr>],
     texts = 2, brk = 6\<rparr>"

lemma demo_holds:
  "holds demo_store (Shape 0 [Shape 1 [], Shape 2 []]) (cJSON_Array [cJSON_True, cJSON_NULL])"
  "holds demo_store (Shape 4 [Shape 5 []]) (cJSON_Object [(''a'', cJSON_False)])"
  "may_add demo_store (Shape 0 [Shape 1 [], Shape 2 []]) (Shape 3 []) (cJSON_String ''x'')"
  "may_add demo_store (Shape 4 [Shape 5 []]) (Shape 3 []) (cJSON_String ''x'')"
  by (simp_all add: holds_def may_add_def loose_def demo_store_def demo_node_def blank_node_def
      node_value_def key_at_def keyed_def)

text \<open>C13: the pointer operations of \<^verbatim>\<open>cJSON.c\<close> on arrays refine those on lists. Where the
  nodes at \<open>a\<close> hold an array, adding and inserting a node, detaching, deleting and replacing
  the element at \<open>k\<close> follow no bad pointer and leave the array that the list operation gives; a
  detached element is as it was and may be put in again; of a deleted or replaced one every
  node is given back once, and no node outside the array and the new element changes.\<close>

theorem array_edits_refine:
  assumes "holds h (Shape a cs) (cJSON_Array xs)" and "may_add h (Shape a cs) s v" and "k < length xs"
  shows "(\<exists>h'. add_to_array (Some a) (Some (root s)) h = Some (True, h') \<and>
      holds h' (Shape a (cs @ [s])) (cJSON_Array (xs @ [v]))) \<and>
    (\<exists>h'. cJSON_InsertItemInArray (Some a) (int j) (Some (root s)) h = Some (True, h') \<and>
      holds h' (Shape a (take j cs @ s # drop j cs)) (cJSON_Array (take j xs @ v # drop j xs))) \<and>
    (\<exists>h'. cJSON_DetachItemFromArray (Some a) (int k) h = Some (Some (root (cs ! k)), h') \<and>
      holds h' (Shape a (take k cs @ drop (Suc k) cs)) (cJSON_Array (take k xs @ drop (Suc k) xs)) \<and>
      may_add h' (Shape a (take k cs @ drop (Suc k) cs)) (cs ! k) (xs ! k)) \<and>
    (\<exists>h'. cJSON_DeleteItemFromArray (Some a) (int k) h = Some h' \<and>
      holds h' (Shape a (take k cs @ drop (Suc k) cs)) (cJSON_Array (take k xs @ drop (Suc k) xs)) \<and>
      gone h' (cs ! k) \<and> only (a # owned cs) h h') \<and>
    (\<exists>h'. cJSON_ReplaceItemInArray (Some a) (int k) (Some (root s)) h = Some (True, h') \<and>
      holds h' (Shape a (cs[k := s])) (cJSON_Array (xs[k := v])) \<and>
      gone h' (cs ! k) \<and> only (a # owned (cs @ [s])) h h')"
  using array_add [OF assms(1,2)] array_insert [OF assms(1,2)] array_detach [OF assms(1,3)]
    array_delete [OF assms(1,3)] array_replace [OF assms] by (intro conjI)

theorem array_edits_refine_witness:
  "(\<exists>h. cJSON_DetachItemFromArray (Some 0) 0 demo_store = Some (Some 1, h) \<and>
     holds h (Shape 0 [Shape 2 []]) (cJSON_Array [cJSON_NULL])) \<and>
   (\<exists>h. cJSON_ReplaceItemInArray (Some 0) 0 (Some 3) demo_store = Some (True, h) \<and>
     holds h (Shape 0 [Shape 3 [], Shape 2 []]) (cJSON_Array [cJSON_String ''x'', cJSON_NULL]) \<and>
     cells h 1 = None)"
  using array_edits_refine [OF demo_holds(1,3), of 0 0] by (auto simp: gone_def)

text \<open>C16: the operations on objects refine those on lists of members, whether or not there is
  memory for the copy of a key. \<^verbatim>\<open>get_object_item\<close> finds the node of the first member of that
  name, with or without regard to case, as the look-ups on trees do; \<^verbatim>\<open>add_item_to_object\<close>
  copies the key and appends, just as the tree operation, or, when the copy fails, says so and
  leaves all memory as it is; \<^verbatim>\<open>cJSON_DeleteItemFromObject\<close> and
  \<^verbatim>\<open>cJSON_ReplaceItemInObject\<close> act on that first member, giving back all its nodes.
  Without such a member, or without the copy of the key, replacing says that it failed, leaves
  the object as it is, and the new node free to be added elsewhere; only its own key has
  changed.\<close>

theorem object_edits_refine:
  assumes "holds h (Shape a cs) (cJSON_Object kvs)" and "may_add h (Shape a cs) s v"
    and "add_item_to_object P (Some (cJSON_Object kvs)) name (Some v) = (ok, Some w)"
    and "hit = place (named cased name) kvs"
  shows "get_member (Some a) (Some name) cased h = Some (map_option (\<lambda>k. root (cs ! k)) hit) \<and>
    (if cased then cJSON_GetObjectItemCaseSensitive (Some (cJSON_Object kvs)) name
     else cJSON_GetObjectItem (Some (cJSON_Object kvs)) name) = map_option (\<lambda>k. snd (kvs ! k)) hit \<and>
    ok = (strdup P name \<noteq> None) \<and>
    (\<exists>h'. add_member P (Some a) (Some name) (Some (root s)) False h = Some (ok, h') \<and>
      holds h' (Shape a (if ok then cs @ [s] else cs)) w \<and> (\<not> ok \<longrightarrow> h' = h)) \<and>
    (case hit of
       None \<Rightarrow> delete_member (Some a) (Some name) cased h = Some h
     | Some k \<Rightarrow>
         holds h (cs ! k) (snd (kvs ! k)) \<and>
         (\<exists>h'. delete_member (Some a) (Some name) cased h = Some h' \<and>
            holds h' (Shape a (take k cs @ drop (Suc k) cs)) (cJSON_Object (take k kvs @ drop (Suc k) kvs)) \<and>
            gone h' (cs ! k) \<and> only (a # owned cs) h h')) \<and>
    (case (strdup P name, hit) of
       (Some key, Some k) \<Rightarrow>
         \<exists>h'. replace_member P (Some a) (Some name) (Some (root s)) cased h = Some (True, h') \<and>
           holds h' (Shape a (cs[k := s])) (cJSON_Object (kvs[k := (key, v)])) \<and> gone h' (cs ! k)
     | _ \<Rightarrow>
         \<exists>h'. replace_member P (Some a) (Some name) (Some (root s)) cased h = Some (False, h') \<and>
           holds h' (Shape a cs) (cJSON_Object kvs) \<and> may_add h' (Shape a cs) s v \<and> only [root s] h h')"
proof (intro conjI)
  note find = object_find [OF assms(1), of name cased] lookup_place_cases [of cased kvs name]
  show "get_member (Some a) (Some name) cased h = Some (map_option (\<lambda>k. root (cs ! k)) hit)"
    and "(if cased then cJSON_GetObjectItemCaseSensitive (Some (cJSON_Object kvs)) name
     else cJSON_GetObjectItem (Some (cJSON_Object kvs)) name) = map_option (\<lambda>k. snd (kvs ! k)) hit"
    using find assms(4) by simp_all
  show "ok = (strdup P name \<noteq> None)"
    and "\<exists>h'. add_member P (Some a) (Some name) (Some (root s)) False h = Some (ok, h') \<and>
      holds h' (Shape a (if ok then cs @ [s] else cs)) w \<and> (\<not> ok \<longrightarrow> h' = h)"
    using object_add [OF assms(1-3)] assms(3) add_member_fails [OF assms(2), of P name]
    by (auto simp: add_item_to_object_def split: option.splits)
  show "case hit of
       None \<Rightarrow> delete_member (Some a) (Some name) cased h = Some h
     | Some k \<Rightarrow>
         holds h (cs ! k) (snd (kvs ! k)) \<and>
         (\<exists>h'. delete_member (Some a) (Some name) cased h = Some h' \<and>
            holds h' (Shape a (take k cs @ drop (Suc k) cs)) (cJSON_Object (take k kvs @ drop (Suc k) kvs)) \<and>
            gone h' (cs ! k) \<and> only (a # owned cs) h h')"
    using object_miss(1) [OF assms(1,2)] object_item(2) [OF assms(1)] object_delete [OF assms(1)] assms(4)
    by (auto split: option.split)
  show "case (strdup P name, hit) of
       (Some key, Some k) \<Rightarrow>
         \<exists>h'. replace_member P (Some a) (Some name) (Some (root s)) cased h = Some (True, h') \<and>
           holds h' (Shape a (cs[k := s])) (cJSON_Object (kvs[k := (key, v)])) \<and> gone h' (cs ! k)
     | _ \<Rightarrow>
         \<exists>h'. replace_member P (Some a) (Some name) (Some (root s)) cased h = Some (False, h') \<and>
           holds h' (Shape a cs) (cJSON_Object kvs) \<and> may_add h' (Shape a cs) s v \<and> only [root s] h h'"
  proof (cases "strdup P name")
    case None
    with object_replace_fails [OF assms(1,2)] show ?thesis by simp
  next
    case (Some key)
    note key = Some
    show ?thesis
    proof (cases hit)
      case None
      then have "place (named cased name) kvs = None" using assms(4) by simp
      from object_miss(2) [OF assms(1,2) this key] show ?thesis by (simp add: None key)
    next
      case (Some k)
      then have "place (named cased name) kvs = Some k" using assms(4) by simp
      from object_replace [OF assms(1,2) this key] show ?thesis by (simp add: Some key)
    qed
  qed
qed

theorem object_edits_refine_witness:
  "(\<exists>h. add_member demo_platform (Some 4) (Some ''A'') (Some 3) False demo_store = Some (True, h) \<and>
     holds h (Shape 4 [Shape 5 [], Shape 3 []]) (cJSON_Object [(''a'', cJSON_False), (''A'', cJSON_String ''x'')])) \<and>
   (\<exists>h. replace_member demo_platform (Some 4) (Some ''A'') (Some 3) False demo_store = Some (True, h) \<and>
     holds h (Shape 4 [Shape 3 []]) (cJSON_Object [(''A'', cJSON_String ''x'')]) \<and> cells h 5 = None) \<and>
   delete_member (Some 4) (Some ''A'') True demo_store = Some demo_store"
proof -
  have add: "add_item_to_object demo_platform (Some (cJSON_Object [(''a'', cJSON_False)])) ''A'' (Some (cJSON_String ''x''))
      = (True, Some (cJSON_Object [(''a'', cJSON_False), (''A'', cJSON_String ''x'')]))"
    by (simp add: add_item_to_object_def)
  have "char_of (97 :: nat) = CHR ''a''" by code_simp
  then have hit: "Some 0 = place (named False ''A'') [(''a'', cJSON_False)]"
    "None = place (named True ''A'') [(''a'', cJSON_False)]"
    by (simp_all add: named_def same_name_def tolower_def)
  note obj = object_edits_refine [OF demo_holds(2,4) add]
  from obj [OF hit(1)] obj [OF hit(2)] show ?thesis by (simp add: gone_def)
qed

text \<open>C17: \<^verbatim>\<open>cJSON_Duplicate\<close> gives a tree of the same value in nodes and strings of its own,
  in no list, next to the untouched original, to which it compares equal where no name is
  repeated and the numbers are 32-bit integers; or it returns NULL, only if some allocation
  fails, and then every node and string that it had made is given back, wherever it stopped.\<close>

theorem duplicate_exact:
  assumes "tidy h" and "holds h s v"
  shows "(\<exists>h'. cJSON_Duplicate P (Some (root s)) True h = Some (None, h') \<and>
      cells h' = cells h \<and> texts h' = texts h \<and> short_of_memory P) \<or>
    (\<exists>d h'. cJSON_Duplicate P (Some (root s)) True h = Some (Some (root d), h') \<and>
      holds h' d v \<and> holds h' s v \<and> loose h' (root d) \<and> grown h (owned [d]) h' \<and>
      (\<forall>k. proper k v \<longrightarrow> cJSON_Compare (Some (root s)) (Some (root d)) k h' = Some True))"
  using duplicate_holds [OF assms, of P] copy_compares [OF assms] by blast

theorem duplicate_exact_witness:
  "\<exists>d h. cJSON_Duplicate demo_platform (Some 0) True demo_store = Some (Some (root d), h) \<and>
     holds h d (cJSON_Array [cJSON_True, cJSON_NULL]) \<and> loose h (root d) \<and>
     cJSON_Compare (Some 0) (Some (root d)) True h = Some True"
proof -
  have "tidy demo_store" by (simp add: tidy_def demo_store_def)
  moreover have "\<not> short_of_memory demo_platform" by (simp add: short_of_memory_def)
  moreover have "proper True (cJSON_Array [cJSON_True, cJSON_NULL])" by simp
  ultimately show ?thesis using duplicate_exact [OF _ demo_holds(1), of demo_platform] by auto
qed

text \<open>C24: what is built of new nodes is exact or leaves nothing. \<^verbatim>\<open>cJSON_AddStringToObject\<close>,
  \<^verbatim>\<open>AddNumber\<close>, \<^verbatim>\<open>AddNull\<close>, \<^verbatim>\<open>AddTrue\<close>, \<^verbatim>\<open>AddFalse\<close>, \<^verbatim>\<open>AddRaw\<close> and \<^verbatim>\<open>AddObject\<close> leave the
  object with the new member at its end, or, only if some allocation fails, return NULL with all
  memory as it was, wherever they stopped; without an object or a name too nothing is kept.
  \<^verbatim>\<open>cJSON_CreateIntArray\<close> and \<^verbatim>\<open>cJSON_CreateStringArray\<close> give a new array of the first \<open>k\<close>
  elements, or give back all that they had made.\<close>

theorem build_exact:
  assumes "tidy h" and "holds h (Shape a cs) (cJSON_Object kvs)" and "k \<le> length ns" and "k \<le> length ts"
    and "object = None \<or> name = None"
  shows "gains P h a cs kvs (key, cJSON_String s) (add_string P (Some a) (Some key) (Some s) h) \<and>
    gains P h a cs kvs (key, cJSON_Number d) (add_number P (Some a) (Some key) d h) \<and>
    gains P h a cs kvs (key, cJSON_NULL) (cJSON_AddNullToObject P (Some a) (Some key) h) \<and>
    gains P h a cs kvs (key, cJSON_True) (cJSON_AddTrueToObject P (Some a) (Some key) h) \<and>
    gains P h a cs kvs (key, cJSON_False) (cJSON_AddFalseToObject P (Some a) (Some key) h) \<and>
    gains P h a cs kvs (key, cJSON_Raw s) (cJSON_AddRawToObject P (Some a) (Some key) (Some s) h) \<and>
    gains P h a cs kvs (key, cJSON_Object []) (cJSON_AddObjectToObject P (Some a) (Some key) h) \<and>
    (\<exists>h'. add_string P object name (Some s) h = Some (None, h') \<and> cells h' = cells h \<and> texts h' = texts h) \<and>
    makes P (cJSON_Array (map (\<lambda>i. cJSON_Number (Fin (of_int i))) (take k ns))) h
      (cJSON_CreateIntArray P (Some ns) (int k) h) \<and>
    makes P (cJSON_Array (map cJSON_String (take k ts))) h (cJSON_CreateStringArray P (Some ts) (int k) h)"
proof -
  have "\<exists>h'. add_string P object name (Some s) h = Some (None, h') \<and> cells h' = cells h \<and> texts h' = texts h"
    using additions_refused(1) [OF assms(1,5), of P s] by (auto simp: grown_def texts_of_def)
  with members_added [OF assms(1,2)] arrays_made(1) [OF assms(1,3)] arrays_made(3) [OF assms(1,4)]
  show ?thesis by blast
qed

theorem build_exact_witness:
  "(\<exists>d h. add_string demo_platform (Some 4) (Some ''n'') (Some ''t'') demo_store = Some (Some (root d), h) \<and>
     holds h (Shape 4 [Shape 5 [], d]) (cJSON_Object [(''a'', cJSON_False), (''n'', cJSON_String ''t'')])) \<and>
   (\<exists>d h. cJSON_CreateIntArray demo_platform (Some [7, 8, 9]) 2 demo_store = Some (Some (root d), h) \<and>
     tree_of (cells h) d = Some (cJSON_Array [cJSON_Number (Fin 7), cJSON_Number (Fin 8)]))"
proof -
  have tidy: "tidy demo_store" by (simp add: tidy_def demo_store_def)
  have mem: "\<not> short_of_memory demo_platform" by (simp add: short_of_memory_def)
  have "2 \<le> length [7 :: int, 8, 9]" "2 \<le> length [''x'', ''y'']" by simp_all
  note built = build_exact [OF tidy demo_holds(2) this, of None None demo_platform "''n''" "''t''", simplified]
  have "gains demo_platform demo_store 4 [Shape 5 []] [(''a'', cJSON_False)] (''n'', cJSON_String ''t'')
      (add_string demo_platform (Some 4) (Some ''n'') (Some ''t'') demo_store)" using built by blast
  moreover have "makes demo_platform (cJSON_Array [cJSON_Number (Fin 7), cJSON_Number (Fin 8)]) demo_store
      (cJSON_CreateIntArray demo_platform (Some [7, 8, 9]) 2 demo_store)"
    using built by (simp add: numeral_2_eq_2)
  ultimately show ?thesis using mem by (auto simp: gains_def makes_def simp del: tree_of.simps)
qed

text \<open>Two objects with the same members in different order, at 0 and at 3, and one with a member
  more at 6.\<close>

definition demo_pair :: store where
  "demo_pair = \<lparr>cells =
     [0 \<mapsto> (demo_node Is_Object)\<lparr>n_child := Some 1\<rparr>,
      1 \<mapsto> (demo_node Is_True)\<lparr>n_next := Some 2, n_prev := Some 2, n_key := Some ''a''\<rparr>,
      2 \<mapsto> (demo_node (Is_Number (Fin 1)))\<lparr>n_prev := Some 1, n_key := Some ''b''\<rparr>,
      3 \<mapsto> (demo_node Is_Object)\<lparr>n_child := Some 4\<rparr>,
      4 \<mapsto> (demo_node (Is_Number (Fin 1)))\<lparr>n_next := Some 5, n_prev := Some 5, n_key := Some ''b''\<rparr>,
      5 \<mapsto> (demo_node Is_True)\<lparr>n_prev := Some 4, n_key := Some ''a''\<rparr>,
      6 \<mapsto> (demo_node Is_Object)\<lparr>n_child := Some 7\<rparr>,
      7 \<mapsto> (demo_node Is_True)\<lparr>n_prev := Some 7, n_key := Some ''a''\<rparr>],
     texts = 5, brk = 8\<rparr>"

lemma demo_pair_holds:
  "holds demo_pair (Shape 0 [Shape 1 [], Shape 2 []]) (cJSON_Object [(''a'', cJSON_True), (''b'', cJSON_Number (Fin 1))])"
  "holds demo_pair (Shape 3 [Shape 4 [], Shape 5 []]) (cJSON_Object [(''b'', cJSON_Number (Fin 1)), (''a'', cJSON_True)])"
  "holds demo_pair (Shape 6 [Shape 7 []]) (cJSON_Object [(''a'', cJSON_True)])"
  by (simp_all add: holds_def demo_pair_def demo_node_def blank_node_def node_value_def key_at_def keyed_def)

text \<open>C27: \<^verbatim>\<open>cJSON_Compare\<close> on two trees in memory that share no node follows no bad pointer,
  ends, and says whether they mean the same JSON value, where the members of an object have no
  order and their names are read with or without regard to case. This is so for trees whose
  numbers are 32-bit integers and whose objects do not repeat a name.\<close>

theorem compare_decides:
  assumes "holds h s v" and "holds h t w" and "set (owned [s]) \<inter> set (owned [t]) = {}"
    and "proper k v" and "proper k w"
  shows "cJSON_Compare (Some (root s)) (Some (root t)) k h = Some (meaning k v = meaning k w)"
  by (rule compare_meaning [OF assms])

theorem compare_decides_witness:
  "cJSON_Compare (Some 0) (Some 3) True demo_pair = Some True \<and>
   cJSON_Compare (Some 0) (Some 6) True demo_pair = Some False"
proof -
  have num: "int_valued (Fin 1)" by (simp add: int_valued_def)
  let ?v = "cJSON_Object [(''a'', cJSON_True), (''b'', cJSON_Number (Fin 1))]"
  let ?w = "cJSON_Object [(''b'', cJSON_Number (Fin 1)), (''a'', cJSON_True)]"
  let ?u = "cJSON_Object [(''a'', cJSON_True)]"
  have p: "proper True ?v" "proper True ?w" "proper True ?u" using num by (simp_all add: canon_def)
  have "meaning True ?v = meaning True ?w"
    by (simp add: canon_def) (rule fmap_ext, auto)
  moreover have "meaning True ?v \<noteq> meaning True ?u"
    by (auto simp: canon_def dest: arg_cong [where f = "\<lambda>m. fmlookup m ''b''"])
  ultimately show ?thesis
    using compare_decides [OF demo_pair_holds(1,2) _ p(1,2)] compare_decides [OF demo_pair_holds(1,3) _ p(1,3)]
    by simp
qed

text \<open>C18: a tree with C strings, \<^verbatim>\<open>int\<close> numbers and at most 1000 levels is printed by
  \<^verbatim>\<open>cJSON_Print\<close> and by \<^verbatim>\<open>cJSON_PrintUnformatted\<close>, by the latter on one line, and read
  back unchanged by \<^verbatim>\<open>cJSON_Parse\<close> from either text.\<close>

theorem json_roundtrip:
  assumes "json_wf v" and "int_numbers v" and "nested CJSON_NESTING_LIMIT v"
    and "ample P (length (render_at True 0 v))"
  shows "(\<exists>s. cJSON_PrintUnformatted P v = Some s \<and> NL \<notin> set s \<and> cJSON_Parse P s = Some v) \<and>
     (\<exists>s. cJSON_Print P v = Some s \<and> cJSON_Parse P s = Some v)"
proof -
  have "ample P (length (render v))" by (rule ample_mono [OF assms(4) render_at_longer(1)])
  with assms show ?thesis
    using print_ample [OF assms(1,2)] no_NL_render [OF assms(2)] parse_ample [OF assms(1-3)]
      print_formatted_ample [OF assms(1,2,4)] parse_ample_at [OF assms]
    by blast
qed

theorem json_roundtrip_witness:
  "\<exists>s. cJSON_Print demo_platform
       (cJSON_Object [(''a\<newline>'', cJSON_Array [cJSON_Number (Fin (- 12)), cJSON_NULL, cJSON_String [CHR 0x22]])]) =
         Some s \<and>
     cJSON_Parse demo_platform s =
       Some (cJSON_Object [(''a\<newline>'', cJSON_Array [cJSON_Number (Fin (- 12)), cJSON_NULL, cJSON_String [CHR 0x22]])])"
  (is "\<exists>s. cJSON_Print _ ?v = _ \<and> _")
proof -
  have "length (render_at True 0 ?v) \<le> 100" by code_simp
  then have "ample demo_platform (length (render_at True 0 ?v))" by simp
  moreover have "json_wf ?v" "int_numbers ?v" "nested CJSON_NESTING_LIMIT ?v"
    by (simp_all add: int_valued_def)
  ultimately show ?thesis using json_roundtrip [of ?v demo_platform] by blast
qed

text \<open>C19: for any tree of C strings, fractions and exponents included, the printer with its
  buffer and offsets produces the text of the grammar or nothing, formatted or not, from a
  buffer of its own, from one of the caller's size, or inside one of the caller's, which is
  never overrun. And it does produce it: from its own 256 bytes or from any prebuffer the buffer
  grows as far as the text needs, where memory allows it and the text has fewer than 1 GB; in a
  caller's buffer five bytes more than the text are enough. The numbers only have to be values
  of a \<^verbatim>\<open>double\<close>: each of them fits into \<^verbatim>\<open>print_number\<close>'s 26 bytes.\<close>

theorem printer_is_render:
  assumes "json_wf v" and "text = render_at fmt 0 v"
  shows "(cJSON_print P v fmt = Some s \<longrightarrow> s = text) \<and>
    (0 < n \<and> cJSON_PrintBuffered P v n fmt = Some s \<longrightarrow> s = text) \<and>
    (0 < n \<and> cJSON_PrintPreallocated P v n fmt = Some s \<longrightarrow> s = text \<and> int (length s) < n) \<and>
    (double_numbers v \<and> roomy P (length text) \<and> malloc_ok P 256 \<longrightarrow> cJSON_print P v fmt = Some text) \<and>
    (double_numbers v \<and> roomy P (length text) \<and> 0 < n \<and> malloc_ok P (nat n) \<longrightarrow>
       cJSON_PrintBuffered P v n fmt = Some text) \<and>
    (double_numbers v \<and> int (length text) + 5 \<le> n \<and> n \<le> INT_MAX \<longrightarrow>
       cJSON_PrintPreallocated P v n fmt = Some text)"
  unfolding assms(2)
proof (intro conjI impI)
  note v = assms(1)
  show "s = render_at fmt 0 v" if "cJSON_print P v fmt = Some s" by (rule print_render [OF v that])
  show "s = render_at fmt 0 v" if "0 < n \<and> cJSON_PrintBuffered P v n fmt = Some s"
    by (rule print_buffered_render [OF v conjunct1 [OF that] conjunct2 [OF that]])
  note inside = print_preallocated_render [OF v conjunct1 conjunct2]
  show "s = render_at fmt 0 v" "int (length s) < n" if "0 < n \<and> cJSON_PrintPreallocated P v n fmt = Some s"
    by (rule conjunct1 [OF inside [OF that that]], rule conjunct2 [OF inside [OF that that]])
  show "cJSON_print P v fmt = Some (render_at fmt 0 v)"
    if "double_numbers v \<and> roomy P (length (render_at fmt 0 v)) \<and> malloc_ok P 256"
    using that by (elim conjE) (rule print_ok [OF v])
  show "cJSON_PrintBuffered P v n fmt = Some (render_at fmt 0 v)"
    if "double_numbers v \<and> roomy P (length (render_at fmt 0 v)) \<and> 0 < n \<and> malloc_ok P (nat n)"
    using that by (elim conjE) (rule print_buffered_ok [OF v])
  show "cJSON_PrintPreallocated P v n fmt = Some (render_at fmt 0 v)"
    if "double_numbers v \<and> int (length (render_at fmt 0 v)) + 5 \<le> n \<and> n \<le> INT_MAX"
    using that by (elim conjE) (rule print_preallocated_ok [OF v])
qed

theorem printer_is_render_witness:
  "cJSON_PrintBuffered demo_platform (cJSON_Array [cJSON_True, cJSON_NULL]) 1 True = Some ''[true, null]'' \<and>
   cJSON_PrintPreallocated demo_platform (cJSON_Array [cJSON_True, cJSON_NULL]) 17 True = Some ''[true, null]'' \<and>
   cJSON_print demo_platform (cJSON_Array [cJSON_True, cJSON_NULL]) False = Some ''[true,null]''"
proof -
  let ?v = "cJSON_Array [cJSON_True, cJSON_NULL]"
  have v: "json_wf ?v" "double_numbers ?v" "''[true, null]'' = render_at True 0 ?v" "''[true,null]'' = render_at False 0 ?v"
    by (simp_all add: comma_def)
  have room: "roomy demo_platform (length ''[true, null]'')" "roomy demo_platform (length ''[true,null]'')"
    by (simp_all add: roomy_def)
  have five: "int (length ''[true, null]'') + 5 \<le> 17" by simp
  note spaced = printer_is_render [OF v(1,3), THEN conjunct2, THEN conjunct2, THEN conjunct2]
  note tight = printer_is_render [OF v(1,4), THEN conjunct2, THEN conjunct2, THEN conjunct2]
  show ?thesis
    using v(2) room five
      spaced [THEN conjunct2, THEN conjunct1, THEN mp, of demo_platform 1]
      spaced [THEN conjunct2, THEN conjunct2, THEN mp, of 17 demo_platform]
      tight [THEN conjunct1, THEN mp, of demo_platform]
    by (intro conjI) (simp_all del: render_at.simps)
qed

text \<open>C20: from arbitrary input \<^verbatim>\<open>cJSON_Parse\<close> only makes trees of at most 1000 nested arrays
  and objects, whose strings and keys contain no NUL.\<close>

theorem parser_is_bounded:
  assumes "cJSON_Parse P s = Some v"
  shows "json_wf v \<and> nested CJSON_NESTING_LIMIT v"
  by (rule cJSON_Parse_good [OF assms])

theorem parser_is_bounded_witness:
  "\<exists>v. cJSON_Parse demo_platform ''{\"k\":[null]}'' = Some v \<and> json_wf v \<and> nested CJSON_NESTING_LIMIT v"
proof -
  let ?v = "cJSON_Object [(''k'', cJSON_Array [cJSON_NULL])]"
  have "length (render ?v) \<le> 100" by code_simp
  then have "ample demo_platform (length (render ?v))" by simp
  then have "cJSON_Parse demo_platform (render ?v) = Some ?v"
    by (intro parse_ample) simp_all
  moreover have "render ?v = ''{\"k\":[null]}''" by code_simp
  ultimately have parsed: "cJSON_Parse demo_platform ''{\"k\":[null]}'' = Some ?v" by simp
  show ?thesis using parsed parser_is_bounded [OF parsed] by blast
qed



subsection \<open>Audio\<close>



text \<open>C23: while a request's audio is collected, for arbitrary input, the samples never outgrow the
  buffer they are copied into.\<close>

theorem audio_buffer_bounded:
  "\<exists>g b s'. receive_audio P pcm_empty s = (g, b, s') \<and> length (pcm_samples b) \<le> pcm_cap b"
proof -
  obtain g b s' where r: "receive_audio P pcm_empty s = (g, b, s')" by (metis surj_pair)
  then have "pcm_ok b" using receive_audio_serves [OF r, of "server_zero 0 :: ('a, unit) server"] by simp
  with r show ?thesis by (auto simp: pcm_ok_def)
qed

subsection \<open>Registration\<close>

text \<open>C25: of a list of voices the server keeps the first ones, as they were given and in order,
  up to 64 in all; the calls for these return \<^verbatim>\<open>WYOMING_OK\<close> and all later ones
  \<^verbatim>\<open>WYOMING_ERR_NOMEM\<close> and change nothing. The same holds for up to 16 models, and for up to 32
  speakers, which go to the voice registered last; without a voice their call is refused. And
  whatever a program registers, in whatever order, the fixed arrays of the server (64 voices, 32
  speakers and 8 languages each, 16 models with 8 languages) are never overrun.\<close>

theorem first_registrations_kept:
  assumes "length (voices srv) + k = WYOMING_MAX_VOICES" and "length (asr_models srv) + j = WYOMING_MAX_MODELS"
    and "voices host \<noteq> []" and "length (sv_speakers (last (voices host))) + l = WYOMING_MAX_SPEAKERS"
  shows "(\<exists>srv'. register_all (add_voice_call P) srv vs =
        (replicate (min k (length vs)) WYOMING_OK @ replicate (length vs - k) WYOMING_ERR_NOMEM, srv') \<and>
        voices srv' = voices srv @ map (voice_entry P) (take k vs)) \<and>
     (\<exists>srv'. register_all (add_model_call P) srv ms =
        (replicate (min j (length ms)) WYOMING_OK @ replicate (length ms - j) WYOMING_ERR_NOMEM, srv') \<and>
        asr_models srv' = asr_models srv @ map (model_entry P) (take j ms)) \<and>
     (\<exists>srv'. register_all (add_speaker_call P) host ns =
        (replicate (min l (length ns)) WYOMING_OK @ replicate (length ns - l) WYOMING_ERR_NOMEM, srv') \<and>
        sv_speakers (last (voices srv')) = sv_speakers (last (voices host)) @ map (strdup P) (take l ns)) \<and>
     fst (wyoming_server_add_speaker P (Some (host\<lparr>voices := []\<rparr>)) (Some n)) = WYOMING_ERR_INVAL \<and>
     server_ok (foldl (register P) (server_zero port) rs)"
  using voice_reg.register_all_holds [OF _ assms(1), of P vs] model_reg.register_all_holds [OF _ assms(2), of P ms]
    speaker_reg.register_all_holds [OF assms(3,4), of P ns]
    registrations_ok [of P port rs]
  by (auto simp: wyoming_server_add_speaker_def)

theorem first_registrations_kept_witness:
  "(\<exists>srv'. register_all (add_voice_call demo_platform) (server_zero 0 :: (nat, unit) server)
      (replicate 70 (''v'', None, None)) = (replicate 64 WYOMING_OK @ replicate 6 WYOMING_ERR_NOMEM, srv')) \<and>
   (\<exists>srv'. register_all (add_speaker_call demo_platform) demo_server (replicate 40 ''s'') =
      (replicate 32 WYOMING_OK @ replicate 8 WYOMING_ERR_NOMEM, srv'))"
  using first_registrations_kept [of "server_zero 0 :: (nat, unit) server" 64 16 demo_server 32 demo_platform
    "replicate 70 (''v'', None, None)" "[]" "replicate 40 ''s''" "''n''"]
  by (auto simp: server_zero_def demo_server_def)

subsection \<open>Configuration and logging\<close>

text \<open>C26: a configuration file that was written entry by entry is loaded as exactly those
  entries, and a lookup finds the value of the first entry with its section and key. Whatever is
  in a file, loading it fills no more than the 128 entries there are, and no section, key or
  value is longer than its array.\<close>

theorem config_roundtrip:
  assumes "list_all writable_entry es" and "length es \<le> WY_CFG_MAX_ENTRIES"
  shows "wyoming_config_load True (Some (config_text es)) = Some es \<and>
     wyoming_config_get (wyoming_config_load True (Some (config_text es))) (Some s) (Some k) =
       map_of (map (\<lambda>e. ((cfg_section e, cfg_key e), cfg_value e)) es) (s, k) \<and>
     (\<forall>calloc_ok content cfg. wyoming_config_load calloc_ok content = Some cfg \<longrightarrow>
        length cfg \<le> WY_CFG_MAX_ENTRIES \<and>
        list_all (\<lambda>e. length (cfg_section e) < WY_CFG_MAX_SECTION \<and> length (cfg_key e) < WY_CFG_MAX_KEY \<and>
          length (cfg_value e) < WY_CFG_MAX_VALUE) cfg)"
  using config_load_text [OF assms] config_load_ok
  by (simp add: wyoming_config_get_def config_find_map config_ok_def entry_ok_def [abs_def])

theorem config_roundtrip_witness:
  "wyoming_config_get (wyoming_config_load True (Some (config_text
      [\<lparr>cfg_section = ''server'', cfg_key = ''port'', cfg_value = ''10200''\<rparr>,
       \<lparr>cfg_section = ''tts'', cfg_key = ''engine'', cfg_value = ''piper''\<rparr>])))
     (Some ''server'') (Some ''port'') = Some ''10200''"
proof -
  let ?es = "[\<lparr>cfg_section = ''server'', cfg_key = ''port'', cfg_value = ''10200''\<rparr>,
    \<lparr>cfg_section = ''tts'', cfg_key = ''engine'', cfg_value = ''piper''\<rparr>]"
  have ok: "list_all writable_entry ?es" "length ?es \<le> WY_CFG_MAX_ENTRIES" by code_simp+
  have "map_of (map (\<lambda>e. ((cfg_section e, cfg_key e), cfg_value e)) ?es) (''server'', ''port'') = Some ''10200''"
    by simp
  then show ?thesis by (rule trans [OF config_roundtrip [OF ok, THEN conjunct2, THEN conjunct1]])
qed

text \<open>C28: a comment is only a comment for 1023 bytes: what a longer comment line says after them is
  read as a line of its own, and can set a value.\<close>

theorem config_comment_overflow:
  assumes "c_string l" and "NL \<notin> set l" and "length l = 1022"
  shows "config_lines st ((CHR ''#'' # l) @ rest) = config_lines st rest"
proof -
  have "config_lines st ((CHR ''#'' # l) @ rest) = config_lines (config_line st (CHR ''#'' # l)) rest"
    by (rule config_long_line) (use assms in simp_all)
  moreover have "cstr (CHR ''#'' # l) = CHR ''#'' # l" using assms(1) by simp
  ultimately show ?thesis using config_line_comment [of "CHR ''#'' # l"] by simp
qed

theorem config_comment_overflow_witness:
  "wyoming_config_load True (Some (CHR ''#'' # replicate 1022 (CHR ''x'') @ ''port = 1\<newline>'')) =
     Some [\<lparr>cfg_section = ''general'', cfg_key = ''port'', cfg_value = ''1''\<rparr>]"
proof -
  have "c_string (replicate 1022 (CHR ''x''))" by (simp add: c_string_def)
  moreover have "snd (config_lines (''general'', []) ''port = 1\<newline>'') =
      [\<lparr>cfg_section = ''general'', cfg_key = ''port'', cfg_value = ''1''\<rparr>]"
    by code_simp
  ultimately show ?thesis
    using config_comment_overflow [of "replicate 1022 (CHR ''x'')" "(''general'', [])" "''port = 1\<newline>''"]
    by (simp add: wyoming_config_load_def)
qed

text \<open>C29: after any calls, standard error has gained one line for every message at or above the
  configured importance and nothing for the others, in order; the configured file has gained the
  same messages, and no other file was touched.\<close>

theorem log_filters:
  "err_out (foldl wy_log g cs) = err_out g @ concat (map (\<lambda>c. log_line (lc_time c) (lc_level c) (lc_msg c))
      (filter (\<lambda>c. lc_level c \<le> g_level g) cs)) \<and>
   files (foldl wy_log g cs) path = files g path @
     (if g_file g = Some path
      then concat (map (\<lambda>c. log_line (lc_date c) (lc_level c) (lc_msg c))
        (filter (\<lambda>c. lc_level c \<le> g_level g) cs))
      else [])"
  using wy_log_err_out [of g cs] wy_log_files [of g cs path] by (simp add: logged_def)

subsection \<open>The event loop\<close>

text \<open>C30: \<^verbatim>\<open>wyoming_server_run\<close>, with \<^verbatim>\<open>epoll\<close> or with \<^verbatim>\<open>poll\<close> and stopped at any
  moments, refines the sequential server: at every point of a run the sessions so far are those
  of serving some connections one after the other, each in the world the one before left; only
  the last can have been cut short. And every one whose socket takes all writes ended in order:
  its output is a sequence of complete messages, its buffer is within bounds, its timeout is
  restored, and at most one object is left over.\<close>

theorem service_in_order:
  assumes "host_steps api P srv (created w) h" and "engines_ok P srv" and "host_ok P srv"
  shows "\<exists>cs. serve_all P srv w cs = (h_log h, h_world h) \<and> uncut (butlast cs) \<and>
    list_all2 (\<lambda>c s. writable (fst c) \<longrightarrow> session_clean P s) cs (h_log h)"
proof -
  obtain cs where cs: "serve_all P srv w cs = (h_log h, h_world h)" "list_all (\<lambda>c. fresh_sock (fst c)) cs"
    "uncut (butlast cs)"
    using host_in_order [OF assms(1)] by (auto simp: created_def)
  from serve_all_clean [OF cs(1) assms(2,3) cs(2)] cs(1,3) show ?thesis by blast
qed

definition demo_sock :: sock where
  "demo_sock = \<lparr>rx = [Chunk ''hello''], ws = [], tx = []\<rparr>"

lemma demo_race:
  "\<exists>h. host_steps (Epoll {Listen, Pipe}) demo_platform demo_server (raced 0) h \<and> length (h_log h) = 2"
  using raced_serves_two [of demo_sock demo_platform demo_server 0] by (simp add: fresh_sock_def demo_sock_def)

theorem service_in_order_witness:
  "\<exists>h cs. host_steps (Epoll {Listen, Pipe}) demo_platform demo_server (created 0) h \<and> length (h_log h) = 2 \<and>
     serve_all demo_platform demo_server 0 cs = (h_log h, h_world h) \<and> uncut (butlast cs)"
proof -
  obtain h where h: "host_steps (Epoll {Listen, Pipe}) demo_platform demo_server (raced 0) h" "length (h_log h) = 2"
    using demo_race by blast
  have "host_steps (Epoll {Listen, Pipe}) demo_platform demo_server (created 0) h"
    by (rule rtranclp_trans [OF raced_reached h(1)])
  with service_in_order [OF this demo_engines_ok demo_host_ok] h(2) show ?thesis by blast
qed

text \<open>C31: a stop is prompt. Once a call of \<^verbatim>\<open>wyoming_server_stop\<close> is over, wherever the server
  was, it accepts at most two more connections in the \<^verbatim>\<open>epoll\<close> build and one in the
  \<^verbatim>\<open>poll\<close> build. If the call was over before \<^verbatim>\<open>wyoming_server_run\<close> began, which sets the flag
  again, it is at most one with \<^verbatim>\<open>epoll\<close> and none with \<^verbatim>\<open>poll\<close>: the byte in the pipe is what
  stops it. (The pipe must be watched: both \<^verbatim>\<open>epoll_ctl\<close> calls are unchecked.)\<close>

theorem stop_is_prompt:
  assumes "watches_pipe api" and "host_steps api P srv (created w) h" and "h_pipe h"
    and "host_steps api P srv h h'"
  shows "length (h_log h') \<le> length (h_log h) + (if h_pc h = Start then late_clients api else stragglers api)"
proof -
  have inv: "host_inv api h" by (rule host_inv_steps [OF assms(2)]) simp
  show ?thesis
  proof (cases "h_pc h = Start")
    case True
    then have "\<not> h_epoll h" using inv by (simp add: host_inv_def split: event_api.splits)
    from host_stopped_start [OF assms(1) True this assms(3,4)] True show ?thesis by simp
  next
    case False
    with host_few_clients [OF assms(1) inv assms(3,4)] show ?thesis by simp
  qed
qed

text \<open>The bound of two is attained.\<close>

theorem stop_is_prompt_witness:
  "\<exists>h. host_steps (Epoll {Listen, Pipe}) demo_platform demo_server (raced 0) h \<and>
     length (h_log h) = 2 \<and> length (h_log h) \<le> length (h_log (raced 0 :: nat host)) + 2"
proof -
  obtain h where h: "host_steps (Epoll {Listen, Pipe}) demo_platform demo_server (raced 0) h" "length (h_log h) = 2"
    using demo_race by blast
  have "watches_pipe (Epoll {Listen, Pipe})" "h_pipe (raced 0 :: nat host)" "h_pc (raced 0 :: nat host) \<noteq> Start"
    by (simp_all add: watches_pipe_def raced_def)
  with stop_is_prompt [OF _ raced_reached _ h(1)] h show ?thesis by (auto simp: stragglers_def)
qed

text \<open>C32: a stopped run returns. Once the stop call is over the server's thread is never stuck
  and ends after at most 25 of its steps (a whole session counting as one), however the stop
  calls go on; it returns \<^verbatim>\<open>WYOMING_OK\<close>, or \<^verbatim>\<open>WYOMING_ERR_IO\<close> before any session, and the
  epoll descriptor is closed.\<close>

theorem stopped_run_returns:
  assumes "watches_pipe api" and "host_steps api P srv (created w) h" and "h_pipe h"
  shows "(\<exists>h' rc. (loop_step api P srv)\<^sup>*\<^sup>* h h' \<and> h_pc h' = Finished rc \<and> \<not> h_epoll h' \<and>
      (rc = WYOMING_OK \<or> rc = WYOMING_ERR_IO \<and> h_log h' = [])) \<and>
    (\<forall>n h'. (turn (loop_step api P srv) ^^ n) h h' \<longrightarrow> n \<le> 25)"
proof -
  have inv: "host_inv api h" by (rule host_inv_steps [OF assms(2)]) simp
  obtain h' rc where h': "(loop_step api P srv)\<^sup>*\<^sup>* h h'" "h_pc h' = Finished rc"
    using host_returns(1) [OF assms(1) inv assms(3)] by blast
  have "host_steps api P srv h h'"
    using h'(1) by (rule mono_rtranclp [rule_format, rotated]) (simp add: host_step_def with_stops_def)
  then have reached: "host_steps api P srv (created w) h'" by (rule rtranclp_trans [OF assms(2)])
  have "host_inv api h'" by (rule host_inv_steps [OF reached]) simp
  then have "\<not> h_epoll h'" using h'(2) by (simp add: host_inv_def split: event_api.splits)
  moreover have "ends_well h'" by (rule ends_well_steps [OF reached]) (simp add: ends_well_def created_def)
  then have "rc = WYOMING_OK \<or> rc = WYOMING_ERR_IO \<and> h_log h' = []" using h'(2) by (simp add: ends_well_def)
  ultimately show ?thesis using h' host_returns(2) [OF assms(1) inv assms(3)] by blast
qed

theorem stopped_run_returns_witness:
  "\<exists>h' rc. (loop_step (Epoll {Listen, Pipe}) demo_platform demo_server)\<^sup>*\<^sup>* (raced 0) h' \<and> h_pc h' = Finished rc"
proof -
  have "watches_pipe (Epoll {Listen, Pipe})" "h_pipe (raced 0 :: nat host)"
    by (simp_all add: watches_pipe_def raced_def)
  from stopped_run_returns [OF this(1) raced_reached this(2)] show ?thesis by blast
qed

subsection \<open>Servers and connections as resources\<close>

text \<open>C33: \<^verbatim>\<open>wyoming_server_create\<close> either fails and leaves the process as it was, whichever
  call failed, or makes a server that owns three new descriptors, listens on the address it was
  given and knows the port it got. Whatever a program then registers, in whatever order, again
  and again, refused or not, with or without memory for the copies, every string that a call
  copies is freed by the call that replaces it or by \<^verbatim>\<open>wyoming_server_destroy\<close>, which gives
  back the descriptors and all blocks: the process is as it was before.\<close>

theorem server_lifecycle:
  assumes "system_ok S p" and "wyoming_server_create S bind_addr port p = (made, p')"
  shows "case made of
      None \<Rightarrow> p' = p
    | Some h \<Rightarrow>
        open_fds p' = open_fds p \<union> server_fds h \<and> server_fds h \<inter> open_fds p = {} \<and>
        blocks p' = blocks p + 1 \<and> bound_addr h = listen_address bind_addr \<and>
        (\<forall>n. sys_port S = Some n \<longrightarrow> wyoming_server_port (Some (host_server h)) = n) \<and>
        (\<forall>P rs srv q. foldl (register_on P) (host_server h, p') rs = (srv, q) \<longrightarrow>
           wyoming_server_destroy (Some (h\<lparr>host_server := srv\<rparr>)) q = p \<and>
           srv = foldl (register P) (host_server h) rs)"
proof (cases made)
  case None
  with create_fails [OF assms(1)] assms(2) show ?thesis by simp
next
  case (Some h)
  note made = assms(2) [unfolded Some]
  from made have "server_fds h \<inter> open_fds p = {}"
    by (rule create_SomeE) (use assms(1) in \<open>auto simp: system_ok_def new_fd_def server_fds_def\<close>)
  with create_succeeds [OF made] destroy_undoes [OF assms(1) made] show ?thesis
    unfolding Some option.case by blast
qed

definition demo_system :: system where
  "demo_system =
     \<lparr>sys_calloc = True, sys_pipe = Some (3, 4), sys_socket = Some 5, sys_bind = (\<lambda>a n. True),
      sys_port = Some 10200, sys_listen = True, sys_getfl = True\<rparr>"

definition demo_proc :: process where
  "demo_proc = \<lparr>open_fds = {0, 1, 2}, nonblocking = {}, blocks = 0\<rparr>"

lemma demo_system_ok [simp]: "system_ok demo_system demo_proc"
  by (simp add: system_ok_def demo_system_def demo_proc_def new_fd_def)

lemma demo_create:
  "\<exists>h p'. wyoming_server_create demo_system a n demo_proc = (Some h, p') \<and>
     host_server h = server_zero 10200 \<and> server_fds h = {3, 4, 5}"
  by (simp add: wyoming_server_create_def demo_system_def server_fds_def Let_def)

text \<open>A program that registers its engine twice, a voice with a language and a speaker, a speaker
  without a name, and a model.\<close>

definition demo_registrations :: "(nat, unit) registration list" where
  "demo_registrations =
     [Set_Tts None (Some ''a'') None, Set_Tts None (Some ''b'') (Some ''1''),
      Add_Voice (Some ''v'') (Some [''en'']) (Some ''d''), Add_Speaker (Some ''s''), Add_Speaker None,
      Add_Model (Some ''m'') None None]"

theorem server_lifecycle_witness:
  "\<exists>(h :: (nat, unit) server_handle) p' srv q.
     wyoming_server_create demo_system (Some ''10.0.0.1'') 0 demo_proc = (Some h, p') \<and>
     open_fds p' = {0, 1, 2, 3, 4, 5} \<and> blocks p' = 1 \<and>
     foldl (register_on demo_platform) (host_server h, p') demo_registrations = (srv, q) \<and> blocks q = 8 \<and>
     wyoming_server_destroy (Some (h\<lparr>host_server := srv\<rparr>)) q = demo_proc"
proof -
  obtain h :: "(nat, unit) server_handle" and p' where c: "wyoming_server_create demo_system (Some ''10.0.0.1'') 0 demo_proc = (Some h, p')"
    "host_server h = server_zero 10200" "server_fds h = {3, 4, 5}"
    using demo_create by blast
  note life = server_lifecycle [OF demo_system_ok c(1), unfolded option.case c(3)]
  obtain srv q where r: "foldl (register_on demo_platform) (host_server h, p') demo_registrations = (srv, q)" by force
  have "open_fds p' = {0, 1, 2, 3, 4, 5}" "blocks p' = 1" using life by (auto simp: demo_proc_def)
  moreover from this(2) have "blocks q = 8"
    using r by (auto simp: c(2) demo_registrations_def server_zero_def take_copy_def take_entry_def
        free_string_def allocated_def freed_def strdup_opt_def)
  moreover have "wyoming_server_destroy (Some (h\<lparr>host_server := srv\<rparr>)) q = demo_proc"
    using life r by blast
  ultimately show ?thesis using c(1) r by blast
qed

text \<open>C34: \<^verbatim>\<open>wyoming_connect\<close> either fails and leaves the process as it was, or opens one
  descriptor, which \<^verbatim>\<open>wyoming_close\<close> gives back, whatever was read in between. It tries only the
  first address of the host: when that one refuses, the call fails.\<close>

theorem connect_lifecycle:
  assumes "network_ok N p" and "wyoming_connect N host port p = (made, p')"
  shows "(case made of
      None \<Rightarrow> p' = p
    | Some c \<Rightarrow> open_fds p' = insert (conn_fd c) (open_fds p) \<and>
        (\<forall>io. wyoming_close (Some (c\<lparr>conn_iobuf := io\<rparr>)) p' = p)) \<and>
    (\<forall>h a as. host = Some h \<and> net_resolve N h (dec_int (uint port)) = Some (a # as) \<and> net_connect N a = None
       \<longrightarrow> made = None)"
proof -
  have "made = None" if "host = Some h" "net_resolve N h (dec_int (uint port)) = Some (a # as)"
      "net_connect N a = None" for h a as
    using connect_first [OF that(2,3), of p] assms(2) that(1) by simp
  then show ?thesis
    using connect_fails [OF assms(1)] connect_close [OF assms(1)] assms(2) by (auto split: option.split)
qed

definition demo_network :: "byte list \<Rightarrow> bool network" where
  "demo_network bs =
     \<lparr>net_resolve = (\<lambda>h n. Some (if h = ''localhost'' then [False, True] else [True])),
      net_socket = (\<lambda>a. Some 5),
      net_connect = (\<lambda>a. if a then Some \<lparr>rx = [Chunk bs], ws = [], tx = []\<rparr> else None),
      net_calloc = True\<rparr>"

lemma demo_network_ok [simp]: "network_ok (demo_network bs) demo_proc"
  by (simp add: network_ok_def demo_network_def demo_proc_def new_fd_def)

theorem connect_lifecycle_witness:
  "wyoming_connect (demo_network []) (Some ''localhost'') 10200 demo_proc = (None, demo_proc)"
proof -
  obtain made p' where m: "wyoming_connect (demo_network []) (Some ''localhost'') 10200 demo_proc = (made, p')"
    by force
  from connect_lifecycle [OF demo_network_ok m] m show ?thesis
    by (auto simp: demo_network_def split: option.splits)
qed

subsection \<open>The engines\<close>

text \<open>C35: the built-in Piper engine gives as many samples as the model made, in order, at the
  voice's rate; but each comes out nearer to zero by one than the model's audio in 16 bits. The
  bridge turns its samples into \<^verbatim>\<open>float\<close>s by dividing by 32768, the engine turns them back by
  multiplying with 32767 and cutting off, and in \<^verbatim>\<open>float\<close> arithmetic that takes exactly one
  from every sample but 0. And each call leaves one array of the bridge behind.\<close>

theorem piper_softens:
  assumes "pp_synth p = Some s" and "syn_ready s" and "syn_model s = Some model"
    and "pl_phonemize L (syn_espeak_voice s) text = Some sentences" and "text_ids L s sentences \<noteq> []"
    and "pl_infer L model (model_input_of s (text_ids L s sentences) (speaker_options stray p speaker)) = Some audio"
    and "audio \<noteq> []"
    and "mem_ok P (4 * length audio)" and "malloc_ok P (nat (pp_sample_rate p) * 2 * 2)"
  shows "\<exists>p'. piper_tts_callback P L stray chunk text voice speaker p =
      ((WYOMING_OK, Some (map (\<lambda>f. let x = float_to_sample P f in x - word_of_int (sgn (sint x))) audio),
        \<lparr>rate = pp_sample_rate p, width = 2, channels = 1\<rparr>), p') \<and>
     syn_floats (the (pp_synth p')) = syn_floats s + 1"
  using piper_callback_audio [where chunk = chunk and voice = voice, OF assms]
  by (simp add: comp_def softened_def Let_def)

text \<open>Libraries that say one phoneme, with the id 1, and make two samples of it.\<close>

definition demo_lib :: piper_lib where
  "demo_lib =
     \<lparr>pl_new = True, pl_espeak_init = (\<lambda>d. 22050), pl_default_voice = ''en-us'', pl_session = (\<lambda>m. True),
      pl_phonemize = (\<lambda>v t. Some [[97]]), pl_ids = (\<lambda>table pads ps. [1]),
      pl_infer = (\<lambda>m i. Some [Fin 1, Fin 0])\<rparr>"

definition demo_chunk :: audio_chunk where
  "demo_chunk = \<lparr>ck_samples = [], ck_channels = 0, ck_sample_rate = 0, ck_is_last = False\<rparr>"

definition demo_synth :: synthesizer where
  "demo_synth = (new_synthesizer demo_lib)\<lparr>syn_model := Some ''m.onnx'', syn_ready := True\<rparr>"

definition demo_piper :: piper where
  "demo_piper = piper_zero\<lparr>pp_synth := Some demo_synth, pp_sample_rate := 22050\<rparr>"

theorem piper_softens_witness:
  "\<exists>p'. piper_tts_callback demo_platform demo_lib 0 demo_chunk ''hi'' None None demo_piper =
      ((WYOMING_OK, Some [32766, 0], \<lparr>rate = 22050, width = 2, channels = 1\<rparr>), p') \<and>
     syn_floats (the (pp_synth p')) = 1"
proof -
  have one: "float_to_sample demo_platform (Fin 1) = 32767" "float_to_sample demo_platform (Fin 0) = 0"
    by code_simp+
  have p: "pp_synth demo_piper = Some demo_synth" "syn_ready demo_synth" "syn_model demo_synth = Some ''m.onnx''"
    "pl_phonemize demo_lib (syn_espeak_voice demo_synth) ''hi'' = Some [[97]]"
    "text_ids demo_lib demo_synth [[97]] \<noteq> []"
    "pl_infer demo_lib ''m.onnx'' (model_input_of demo_synth (text_ids demo_lib demo_synth [[97]])
       (speaker_options 0 demo_piper None)) = Some [Fin 1, Fin 0]"
    "pp_sample_rate demo_piper = 22050" "syn_floats demo_synth = 0"
    by (simp_all add: demo_piper_def demo_synth_def demo_lib_def new_synthesizer_def text_ids_def)
  show ?thesis
    using piper_softens [OF p(1-6), of demo_platform demo_chunk None] p(7,8) by (simp add: one Let_def)
qed

text \<open>C36: a voice that was loaded from a settings file with a map of speakers, of fewer than 2^31,
  resolves a speaker by name to the id the map gives the first entry of that name, and a name that is not in it to none
  (-1); its arrays have the length it keeps, and destroying it gives back all it owns. But the
  model hears the speaker only if the file's \<^verbatim>\<open>num_speakers\<close> says, too, that there are
  several: the bridge does not look at the map.\<close>

theorem piper_speakers:
  assumes "wyoming_piper_create P L behind fs (Some path) (Some espeak) = Some (Some p)"
    and "fs (path @ ''.json'') = Some json" and "cJSON_Parse P json = Some tree"
    and "cJSON_GetObjectItemCaseSensitive (Some tree) ''speaker_id_map'' = Some (cJSON_Object kvs)"
    and "kvs \<noteq> []" and "length kvs < 2 ^ 31" and "malloc_ok P (length kvs * 8)" and "malloc_ok P (length kvs * 4)"
    and "\<And>k v. (k, v) \<in> set kvs \<Longrightarrow> malloc_ok P (length k + 1)"
  shows "speakers_ok p \<and> wyoming_piper_destroy (Some p) = Some (piper_blocks p) \<and>
    (\<forall>name. wyoming_piper_speaker_id stray (Some p) (Some name) =
       (case map_of kvs name of Some v \<Rightarrow> item_int P v | None \<Rightarrow> -1)) \<and>
    (\<exists>s. pp_synth p = Some s \<and>
       (\<forall>name v ids. 1 < length kvs \<and> map_of kvs name = Some v \<and> 0 \<le> item_int P v \<longrightarrow>
          in_sid (model_input_of s ids (speaker_options stray p (Some name))) =
            (if 1 < config_int P (Some tree) ''num_speakers'' 0 then Some (item_int P v) else None)))"
proof -
  note loaded = loaded_speakers [OF assms(1-8)]
  have id: "wyoming_piper_speaker_id stray (Some p) (Some name) =
      (case map_of kvs name of Some v \<Rightarrow> item_int P v | None \<Rightarrow> -1)" for name
    by (rule speaker_lookup [OF assms(9) loaded(3,4,2)])
  obtain s where s: "pp_synth p = Some s" "syn_speakers s = config_int P (Some tree) ''num_speakers'' 0"
    using loaded(5) by blast
  have "speakers_ok p" "pp_num_speakers p = int (length kvs)" by (rule loaded(1,2))+
  moreover have "op_speaker (speaker_options stray p (Some name)) = item_int P v"
    if "1 < length kvs" "map_of kvs name = Some v" "0 \<le> item_int P v" for name v
    by (rule speaker_options_lookup) (use that id calculation in auto)
  ultimately show ?thesis
    using s id destroy_all by (auto simp: model_input_of_def)
qed

definition demo_settings :: cJSON where
  "demo_settings = cJSON_Object [(''speaker_id_map'',
     cJSON_Object [(''amy'', cJSON_Number (Fin 3)), (''bob'', cJSON_Number (Fin 7))])]"

theorem piper_speakers_witness:
  "\<exists>p s. wyoming_piper_create demo_platform demo_lib id (\<lambda>path. Some (render demo_settings))
       (Some ''v/m.onnx'') (Some ''e'') = Some (Some p) \<and>
     wyoming_piper_speaker_id 99 (Some p) (Some ''bob'') = 7 \<and>
     wyoming_piper_speaker_id 99 (Some p) (Some ''eve'') = -1 \<and>
     pp_synth p = Some s \<and> in_sid (model_input_of s [1] (speaker_options 99 p (Some ''bob''))) = None"
proof -
  let ?files = "\<lambda>path :: string. Some (render demo_settings)"
  let ?kvs = "[(''amy'', cJSON_Number (Fin 3)), (''bob'', cJSON_Number (Fin 7))]"
  have "length (render demo_settings) \<le> 200" by code_simp
  then have room: "ample demo_platform (length (render demo_settings))" by simp
  have "json_wf demo_settings" "int_numbers demo_settings" "nested CJSON_NESTING_LIMIT demo_settings"
    by (simp_all add: demo_settings_def int_valued_def)
  from parse_ample [OF this room]
  have parsed: "cJSON_Parse demo_platform (render demo_settings) = Some demo_settings" .
  have filled: "render demo_settings \<noteq> []" by code_simp
  have "\<exists>s lost. piper_create demo_platform demo_lib id ?files ''v/m.onnx'' (Some (''v/m.onnx'' @ ''.json'')) (Some ''e'') = (Some s, lost)"
    using parsed by (simp add: piper_create_def load_model_config_def demo_lib_def Let_def)
  moreover have map: "cJSON_GetObjectItemCaseSensitive (Some demo_settings) ''speaker_id_map'' = Some (cJSON_Object ?kvs)"
    by (simp add: demo_settings_def cjson_read)
  moreover obtain q where "read_settings demo_platform (Some demo_settings) piper_zero = Some q"
    using speakers_of_settings [OF map, of demo_platform] by (simp add: read_settings_def Let_def)
  ultimately obtain p where
    p: "wyoming_piper_create demo_platform demo_lib id ?files (Some ''v/m.onnx'') (Some ''e'') = Some (Some p)"
    using filled parsed by (auto simp: wyoming_piper_create_def Let_def read_file_def)
  note all = piper_speakers [OF p refl parsed map, of 99, simplified]
  have ints: "item_int demo_platform (cJSON_Number (Fin 3)) = 3" "item_int demo_platform (cJSON_Number (Fin 7)) = 7"
    by (simp_all add: item_int_def to_int_def rtrunc_def)
  have "config_int demo_platform (Some demo_settings) ''num_speakers'' 0 = 0" by code_simp
  with all ints p show ?thesis by (auto split: if_splits option.splits)
qed

text \<open>C37: the Sherpa engine always returns and cleans up, given that the library's streams run out
  of frames. A batch call, whatever its arguments and whatever fails, ends with a text or an
  error, never both or neither; a streaming session ends with a text, possibly none, for every
  segment and one for the end. In both cases no stream, no result and no memory of the call is
  left but the texts handed out.\<close>

theorem sherpa_returns_clean:
  assumes "decoding_ends on frames_left"
  shows "(\<exists>rc out en'. sherpa_batch_asr P off on s audio fmt language en = Some ((rc, out), en') \<and>
      owes (held out) en en' \<and> (rc = WYOMING_OK \<longleftrightarrow> out \<noteq> None)) \<and>
    (\<exists>outs en'. sherpa_session P on s fmt zss en = Some (outs, en') \<and>
      owes (sum_list (map held outs)) en en' \<and> (outs = [] \<or> length outs = Suc (length zss)))"
  using sherpa_batch_clean [OF assms] sherpa_session_clean [OF assms] by blast

definition demo_api :: "nat asr_api" where
  "demo_api =
     \<lparr>sa_create = (\<lambda>w. (Some 0, w)), sa_accept = (\<lambda>st sr fs n w. w + length fs), sa_finish = (\<lambda>st w. w + 1),
      sa_ready = (\<lambda>st w. 0 < w), sa_decode = (\<lambda>st w. w - 1),
      sa_result = (\<lambda>st w. (Some (Some ''yes''), w)), sa_destroy = (\<lambda>st w. w)\<rparr>"

theorem sherpa_returns_clean_witness:
  "\<exists>outs en'. sherpa_session demo_platform demo_api
      (Some \<lparr>sh_is_streaming = True, sh_offline = False, sh_online = True, sh_model_name = [],
             sh_language = [], sh_sample_rate = 16000, sh_num_threads = 4\<rparr>)
      demo_format [[1, 2], [3]] \<lparr>en_world = 0, en_streams = 0, en_results = 0, en_blocks = 0\<rparr> = Some (outs, en') \<and>
    en_streams en' = 0 \<and> en_results en' = 0 \<and> en_blocks en' = sum_list (map held outs)"
proof -
  have "decoding_ends demo_api id" by (simp add: decoding_ends_def demo_api_def)
  then show ?thesis
    using sherpa_returns_clean [of demo_api id demo_platform demo_api
      "Some \<lparr>sh_is_streaming = True, sh_offline = False, sh_online = True, sh_model_name = [],
             sh_language = [], sh_sample_rate = 16000, sh_num_threads = 4\<rparr>" None demo_format None
      "\<lparr>en_world = 0, en_streams = 0, en_results = 0, en_blocks = 0\<rparr>" "[[1, 2], [3]]"]
    by (auto simp: owes_def)
qed

subsection \<open>The programs\<close>

text \<open>C38: \<^verbatim>\<open>wyoming-speak\<close> against a server, end to end. Connected to a server whose engine
  has an utterance for the text, with each side reading what the other sends, the program ends
  with 0, has given its connection back, and has written a file that a WAV reader takes for
  exactly the engine's samples at the engine's rate (as long as the file's size fits in 32
  bits, and the writes to the file, whose results the program ignores, are complete).\<close>

theorem speak_writes_wav:
  assumes "tts_fn srv = Some fn" and "fn text None None (s_world s) = ((WYOMING_OK, Some zs, fmt), w)"
    and "format_ok fmt" and "c_string text" and "platform_ok P (9000 + 6 * length text)"
    and "pcm_room P 4096 (length zs)" and "session_writable s" and "s_stop s = None" and "session_tx s = []"
    and "zs \<noteq> []" and "0 \<le> rate fmt" and "rate fmt * 16 \<le> INT_MAX" and "36 + 2 * length zs < 2 ^ 32"
    and "network_ok N p" and "wyoming_connect N (Some host) (word_of_int (atoi over port)) p = (Some conn, p')"
    and "writable (io_fd (conn_iobuf conn))" and "tx (io_fd (conn_iobuf conn)) = []"
    and "wyoming_synthesize_pcm P (conn_iobuf conn) (Some text) None = (rc, audio, got, io)"
    and "pending (s_io s) = tx (io_fd io)"
    and "pending (conn_iobuf conn) = session_tx (handle_client P srv s)" and "creatable outpath"
  shows "\<exists>f. wyoming_speak P over N creatable [host, port, text, outpath] p = (0, Some (outpath, f), p) \<and>
    read_wav f = Some (nat (rate fmt), zs)"
proof -
  have room: "platform_ok P (9000 + 6 * length text + 6 * opt_length None)" "opt_c_string None"
    using assms(5) by (simp_all add: opt_length_def opt_c_string_def)
  have "rc = WYOMING_OK \<and> (case audio of None \<Rightarrow> [] | Some ys \<Rightarrow> ys) = zs \<and> got = fmt"
    using synthesize_exchange [OF assms(1-4) room(2,1) assms(6-9,16-20)] by blast
  with assms(10) have "audio = Some zs" "rc = WYOMING_OK" "got = fmt" by (auto split: option.splits)
  with assms(18) have "wyoming_synthesize_pcm P (conn_iobuf conn) (Some text) None = (WYOMING_OK, Some zs, fmt, io)"
    by simp
  from wyoming_speak_writes [where creatable = creatable and outpath = outpath, OF assms(15) this assms(10,21,14)] read_write_wav [OF assms(13,11,12)]
  show ?thesis by blast
qed

lemma demo_rate: "rate demo_format = 22050"
  by (simp add: demo_format_def)

theorem speak_writes_wav_witness:
  "let s = demo_session (frame demo_platform (synthesize_msg ''hi'' None));
       N = demo_network (session_tx (handle_client demo_platform demo_server s))
   in \<exists>f. wyoming_speak demo_platform (\<lambda>i. 0) N (\<lambda>p. True) [''host'', ''10200'', ''hi'', ''x.wav''] demo_proc =
        (0, Some (''x.wav'', f), demo_proc) \<and> read_wav f = Some (22050, [1, 2, 3])"
proof -
  let ?s = "demo_session (frame demo_platform (synthesize_msg ''hi'' None))"
  let ?bs = "session_tx (handle_client demo_platform demo_server ?s)"
  let ?conn = "\<lparr>conn_fd = 5, conn_iobuf = source_of ?bs\<rparr>"
  have c: "wyoming_connect (demo_network ?bs) (Some ''host'') (word_of_int (atoi (\<lambda>i. 0) ''10200'')) demo_proc =
      (Some ?conn, allocated 1 (opened 5 demo_proc))"
    by (simp add: wyoming_connect_def demo_network_def source_of_def process_steps Let_def)
  obtain rc audio got io where run:
    "wyoming_synthesize_pcm demo_platform (conn_iobuf ?conn) (Some ''hi'') None = (rc, audio, got, io)"
    by (metis surj_pair)
  have "\<exists>f. wyoming_speak demo_platform (\<lambda>i. 0) (demo_network ?bs) (\<lambda>p. True) [''host'', ''10200'', ''hi'', ''x.wav''] demo_proc =
        (0, Some (''x.wav'', f), demo_proc) \<and> read_wav f = Some (nat (rate demo_format), [1, 2, 3])"
    by (rule speak_writes_wav [OF _ _ _ _ _ _ _ _ _ _ _ _ _ _ c _ _ run, where fn = demo_tts and creatable = "\<lambda>p. True"])
      (use demo_synthesize_request [OF run [simplified]] in \<open>simp_all add: demo_tts_def demo_rate\<close>)
  then show ?thesis by (simp add: Let_def demo_rate)
qed

text \<open>C39: what the configuration says is what a client is told. If \<^verbatim>\<open>wyoming-server\<close> starts with
  a configuration that names the Piper program as engine and a model that exists in a directory
  of its own, the server's information lists one engine, \<^verbatim>\<open>piper\<close>, with one voice, called like
  the directory, in the language in front of the first hyphen; and its registries are in
  bounds.\<close>

theorem daemon_offers_voice:
  assumes "daemon_start P E S calloc_ok path w = (Inr h, w')"
    and "wyoming_config_load calloc_ok (de_files E path) = Some cfg"
    and "cfg_get cfg ''tts'' ''engine'' = Some ''piper''"
    and "cfg_get cfg ''tts'' ''model'' = Some (model_path up dir name)"
    and "de_files E (model_path up dir name) \<noteq> None" and "dir = lang @ CHR ''-'' # rest"
    and "CHR ''-'' \<notin> set lang" and "SLASH \<notin> set dir" and "SLASH \<notin> set name"
    and "mem_ok P (100 + length (model_path up dir name))" and "mem_ok P (length (lib_version P) + 1)"
  shows "info_tts (info_of (host_server h)) =
      [\<lparr>ti_name = Some ''piper'', ti_version = Some (lib_version P),
        ti_voices = [\<lparr>vi_name = Some dir, vi_languages = [Some lang], vi_description = None, vi_speakers = []\<rparr>]\<rparr>] \<and>
    server_ok (host_server h)"
  using daemon_start_voice [OF assms]
  by (auto simp: info_of_def voice_info_of_def configured_voice_def split: option.split)

definition demo_config :: wyoming_config where
  "demo_config =
     [\<lparr>cfg_section = ''tts'', cfg_key = ''engine'', cfg_value = ''piper''\<rparr>,
      \<lparr>cfg_section = ''tts'', cfg_key = ''model'', cfg_value = ''/v/en_US-amy/m.onnx''\<rparr>]"

definition demo_env :: "nat daemon_env" where
  "demo_env =
     \<lparr>de_files = (\<lambda>f. if f = ''/etc/wy.conf'' then Some (config_text demo_config)
                     else if f = ''/v/en_US-amy/m.onnx'' then Some [] else None),
      de_atoi = (\<lambda>i. 0),
      de_spawn = \<lparr>sp_pipe_in = Some (7, 8), sp_pipe_out = Some (9, 10), sp_fork = True,
                  sp_child = (\<lambda>argv input. ([Chunk ''ab'', Chunk ''cde''], Exited 0))\<rparr>,
      de_piper = False, de_piper_lib = demo_lib, de_stray = 0, de_behind = id, de_chunk = demo_chunk,
      de_sherpa = False, de_load_offline = (\<lambda>t m. False), de_load_online = (\<lambda>t m. False),
      de_offline = demo_api, de_online = demo_api, de_stamp = (\<lambda>n. ([], [])), de_can_open = (\<lambda>f. False)\<rparr>"

definition demo_log :: log_state where
  "demo_log = \<lparr>g_level = WY_LOG_INFO, g_file = None, err_out = [], files = (\<lambda>f. [])\<rparr>"

theorem daemon_offers_voice_witness:
  "\<exists>h w'. daemon_start demo_platform demo_env demo_system True ''/etc/wy.conf''
       \<lparr>dw_process = demo_proc, dw_piper = demo_piper,
        dw_engine = \<lparr>en_world = 0, en_streams = 0, en_results = 0, en_blocks = 0\<rparr>,
        dw_log = demo_log, dw_said = 0\<rparr> = (Inr h, w') \<and>
     map ti_voices (info_tts (info_of (host_server h))) =
       [[\<lparr>vi_name = Some ''en_US-amy'', vi_languages = [Some ''en_US''], vi_description = None, vi_speakers = []\<rparr>]]"
proof -
  let ?w = "\<lparr>dw_process = demo_proc, dw_piper = demo_piper,
        dw_engine = \<lparr>en_world = 0, en_streams = 0, en_results = 0, en_blocks = 0\<rparr>,
        dw_log = demo_log, dw_said = 0\<rparr>"
  have "list_all writable_entry demo_config"
    by (simp add: demo_config_def writable_entry_def entry_ok_def plain_def isspace_def c_string_def)
  then have "wyoming_config_load True (Some (config_text demo_config)) = Some demo_config"
    by (rule config_load_text) (simp add: demo_config_def)
  then have cfg: "wyoming_config_load True (de_files demo_env ''/etc/wy.conf'') = Some demo_config"
    by (simp add: demo_env_def)
  obtain h w' where start: "daemon_start demo_platform demo_env demo_system True ''/etc/wy.conf'' ?w = (Inr h, w')"
  proof -
    obtain h0 :: "(nat daemon_world, stream_ctx) server_handle" and p where
      "wyoming_server_create demo_system (Some (or_else ''0.0.0.0'' (cfg_get demo_config ''server'' ''host'')))
         (word_of_int (wyoming_config_get_int (de_atoi demo_env) (Some demo_config) (Some ''server'') (Some ''port'') 10200))
         demo_proc = (Some h0, p)"
      using demo_create by blast
    with cfg have "\<exists>r w'. daemon_start demo_platform demo_env demo_system True ''/etc/wy.conf'' ?w = (Inr r, w')"
      by (simp add: daemon_start_def Let_def say_def split: prod.split)
    then show ?thesis using that by (metis surj_pair)
  qed
  have e: "cfg_get demo_config ''tts'' ''engine'' = Some ''piper''"
    "cfg_get demo_config ''tts'' ''model'' = Some (model_path ''/v'' ''en_US-amy'' ''m.onnx'')"
    by (simp_all add: demo_config_def wyoming_config_get_def model_path_def)
  have "de_files demo_env (model_path ''/v'' ''en_US-amy'' ''m.onnx'') \<noteq> None"
    by (simp add: demo_env_def model_path_def)
  from daemon_offers_voice [OF start cfg e this, of "''en_US''" "''amy''"] start
  show ?thesis by auto
qed

text \<open>C40: the Piper program's output becomes the samples. A child that ends with 0 has all it wrote,
  in whatever portions it came through the pipe, turned into samples (a last odd byte is
  dropped), and the call leaves no descriptor open. A call that fails leaves none open either,
  with one exception: when the second pipe cannot be made, both ends of the first stay open.\<close>

theorem subprocess_audio:
  assumes "pipes_ok sys p"
  shows "(\<forall>pin pout output. sp_pipe_in sys = Some pin \<and> sp_pipe_out sys = Some pout \<and> sp_fork sys \<and> text \<noteq> [] \<and>
       sp_child sys (piper_argv cfg speaker) (text @ [NL]) = (output, Exited 0) \<and> only_chunks output \<and>
       2 \<le> length (rx_bytes output) \<and> mem_ok P (65536 + 2 * length (rx_bytes output)) \<longrightarrow>
     piper_subprocess P sys cfg text voice speaker p =
       ((WYOMING_OK, Some (samples_of (rx_bytes output)),
         \<lparr>rate = pc_sample_rate cfg, width = 2, channels = 1\<rparr>), p)) \<and>
    (\<forall>res p'. piper_subprocess P sys cfg text voice speaker p = (res, p') \<longrightarrow>
       p' = p \<or> (\<exists>pin. sp_pipe_in sys = Some pin \<and> sp_pipe_out sys = None \<and> text \<noteq> [] \<and>
         fst res = WYOMING_ERR_IO \<and> open_fds p' = open_fds p \<union> {fst pin, snd pin} \<and> new_fd (fst pin) p))"
  using piper_subprocess_ok [OF _ _ _ _ assms] piper_subprocess_fds [OF assms] by blast

theorem subprocess_audio_witness:
  "piper_subprocess demo_platform (de_spawn demo_env)
     \<lparr>pc_model_path = ''m'', pc_piper_bin = ''piper'', pc_sample_rate = 16000\<rparr> ''hi'' None None demo_proc =
   ((WYOMING_OK, Some (samples_of ''abcde''), \<lparr>rate = 16000, width = 2, channels = 1\<rparr>), demo_proc)"
proof -
  have "pipes_ok (de_spawn demo_env) demo_proc"
    by (auto simp: pipes_ok_def demo_env_def new_fd_def demo_proc_def)
  from subprocess_audio [OF this, of "''hi''" "\<lparr>pc_model_path = ''m'', pc_piper_bin = ''piper'', pc_sample_rate = 16000\<rparr>"
      None demo_platform None]
  show ?thesis by (simp add: demo_env_def)
qed

end
